(* ===== verification/Prelude.thy ===== *)
theory Prelude
  imports Main "HOL-Library.Word" "HOL-Library.Monad_Syntax"
begin

text \<open>
  Shared vocabulary of the Clio development: the C integer types, the error numbers and the
  error-pointer tests of \<^verbatim>\<open>include/uapi/err.h\<close>, the rounding macros of
  \<^verbatim>\<open>include/uapi/compiler.h\<close>, and the generic facts on words, lists and options that the
  component theories use.

  Conventions. A C function whose name begins with underscores, or clashes with a constant of
  the library, gets the prefix \<^verbatim>\<open>c_\<close>. A function that may abort (\<^verbatim>\<open>BUG()\<close>), follow an
  invalid pointer or loop forever returns an \<open>option\<close>; \<open>None\<close> says that the call does not
  return. Two theorem collections carry the component proofs: \<open>bitsimp\<close> rewrites single bits of
  words, \<open>frame\<close> says what an operation leaves alone.
\<close>

unbundle bit_operations_syntax

named_theorems bitsimp \<open>single bits of words and bitmaps\<close>
named_theorems frame \<open>parts of the state an operation leaves unchanged\<close>

section \<open>C types and constants\<close>

type_synonym u8 = "8 word"
type_synonym u16 = "16 word"
type_synonym u32 = "32 word"
type_synonym u64 = "64 word"

text \<open>The error numbers of \<^verbatim>\<open>errno.h\<close> that the sources return.\<close>

abbreviation (input) ESRCH :: int where "ESRCH \<equiv> 3"
abbreviation (input) EIO :: int where "EIO \<equiv> 5"
abbreviation (input) ENOMEM :: int where "ENOMEM \<equiv> 12"
abbreviation (input) EFAULT :: int where "EFAULT \<equiv> 14"
abbreviation (input) EBUSY :: int where "EBUSY \<equiv> 16"
abbreviation (input) ENODEV :: int where "ENODEV \<equiv> 19"
abbreviation (input) EINVAL :: int where "EINVAL \<equiv> 22"
abbreviation (input) EPERM :: int where "EPERM \<equiv> 1"
abbreviation (input) EAGAIN :: int where "EAGAIN \<equiv> 11"
abbreviation (input) EEXIST :: int where "EEXIST \<equiv> 17"
abbreviation (input) ETIMEDOUT :: int where "ETIMEDOUT \<equiv> 110"

section \<open>Error values in addresses (err.h)\<close>

definition MAX_ERRNO :: u64 where
  "MAX_ERRNO = 4095"

definition IS_ERR_VALUE :: "u64 \<Rightarrow> bool" where
  "IS_ERR_VALUE x \<longleftrightarrow> - MAX_ERRNO \<le> x"

definition IS_ERR_OR_NULL :: "u64 \<Rightarrow> bool" where
  "IS_ERR_OR_NULL p \<longleftrightarrow> p = 0 \<or> IS_ERR_VALUE p"

lemma IS_ERR_VALUE_0 [simp]: "\<not> IS_ERR_VALUE 0"
  by (simp add: IS_ERR_VALUE_def MAX_ERRNO_def)

lemma IS_ERR_VALUE_unat: "IS_ERR_VALUE x \<longleftrightarrow> 2 ^ 64 - 4095 \<le> unat x"
  by (simp add: IS_ERR_VALUE_def MAX_ERRNO_def word_le_nat_alt)

section \<open>Rounding (compiler.h)\<close>

definition DIV_ROUND_UP :: "nat \<Rightarrow> nat \<Rightarrow> nat" where
  "DIV_ROUND_UP n d = (n + d - 1) div d"

definition ALIGN :: "u64 \<Rightarrow> u64 \<Rightarrow> u64" where
  "ALIGN x a = (x + a - 1) AND NOT (a - 1)"

definition IS_ALIGNED :: "u64 \<Rightarrow> u64 \<Rightarrow> bool" where
  "IS_ALIGNED x a \<longleftrightarrow> x AND (a - 1) = 0"

definition c_ALIGN_MASK :: "u64 \<Rightarrow> u64 \<Rightarrow> u64" where
  "c_ALIGN_MASK x m = (x + m) AND NOT m"

lemma DIV_ROUND_UP_le: "0 < d \<Longrightarrow> n \<le> d * DIV_ROUND_UP n d"
proof -
  assume d: "0 < d"
  have "n + d - 1 = d * ((n + d - 1) div d) + (n + d - 1) mod d" by simp
  moreover have "(n + d - 1) mod d \<le> d - 1" using mod_less_divisor [OF d, of "n + d - 1"] by linarith
  ultimately show ?thesis using d unfolding DIV_ROUND_UP_def by linarith
qed

section \<open>Facts on words\<close>

lemma unat_plus_1_less:
  fixes i :: "'a::len word"
  assumes "i < n"
  shows "unat (i + 1) = Suc (unat i)"
proof -
  have "unat i < unat n" using assms by (simp add: word_less_nat_alt)
  moreover have "unat n < 2 ^ LENGTH('a)" by (rule unsigned_less)
  ultimately have "Suc (unat i) < 2 ^ LENGTH('a)" by linarith
  then show ?thesis by (simp add: unat_word_ariths)
qed

lemma unat_decrease:
  fixes i :: "'a::len word"
  assumes "i < n"
  shows "unat n - unat (i + 1) < unat n - unat i"
  using assms by (simp add: unat_plus_1_less [OF assms] word_less_nat_alt)

lemma unat_drop_bit: "unat (drop_bit n w) = unat w div 2 ^ n" for w :: "'a::len word"
proof -
  have "unat (drop_bit n w) = drop_bit n (take_bit LENGTH('a) (unat w))" by (rule unsigned_drop_bit_eq)
  also have "take_bit LENGTH('a) (unat w) = unat w"
    using unsigned_less [of w, where ?'a = nat] by (simp add: take_bit_nat_eq_self)
  finally show ?thesis by (simp add: drop_bit_eq_div)
qed

section \<open>Facts on lists\<close>

lemma in_concat_nth: "x \<in> set (concat xss) \<longleftrightarrow> (\<exists>i < length xss. x \<in> set (xss ! i))"
  unfolding set_concat set_conv_nth [of xss] by blast

lemma takeWhile_Not_upt_least:
  assumes "P k" "k < n" "\<forall>j < k. \<not> P j"
  shows "takeWhile (\<lambda>i. \<not> P i) [0..<n] = [0..<k]"
proof -
  have "[0..<n] = [0..<k] @ [k..<n]"
    using assms(2) upt_add_eq_append [of 0 k "n - k"] by simp
  moreover have "[k..<n] = k # [Suc k..<n]"
    using assms(2) by (simp add: upt_conv_Cons)
  ultimately show ?thesis
    using assms by (simp add: takeWhile_append)
qed

end
