(* ===== verification/Bitops.thy ===== *)
theory Bitops
  imports Prelude
begin

text \<open>
  Bit operations and bitmaps: \<^verbatim>\<open>include/uapi/bitops_asm_generic.h\<close> (the portable versions the
  board's SoC is built with) and \<^verbatim>\<open>include/uapi/bitops.h\<close>.

  A bitmap is the array of 64-bit words the code has, as a list; bit numbers are naturals. Every
  array access goes through \<open>bm_load\<close> or \<open>bm_store\<close>, which give \<open>None\<close> outside the array, so a
  result \<open>Some\<close> is also a statement of memory safety. \<open>bm_bit\<close> is the abstraction: the bits of
  the map as a predicate on bit numbers.
\<close>

section \<open>Words and bits\<close>

definition BIT_MASK :: "nat \<Rightarrow> u64" where
  "BIT_MASK nr = push_bit (nr mod 64) 1"

definition BIT_WORD :: "nat \<Rightarrow> nat" where
  "BIT_WORD nr = nr div 64"

definition BITS_TO_LONGS :: "nat \<Rightarrow> nat" where
  "BITS_TO_LONGS nr = DIV_ROUND_UP nr 64"

text \<open>
  \<^verbatim>\<open>__builtin_ctzl\<close> and \<^verbatim>\<open>__builtin_clzl\<close> count zeros from either end of the word; the
  compiler leaves them undefined on zero, where the model gives the word's length.
\<close>

definition builtin_ctzl :: "u64 \<Rightarrow> nat" where
  "builtin_ctzl w = length (takeWhile (\<lambda>i. \<not> bit w i) [0..<64])"

definition builtin_clzl :: "u64 \<Rightarrow> nat" where
  "builtin_clzl w = length (takeWhile (\<lambda>i. \<not> bit w (63 - i)) [0..<64])"

definition builtin_clz :: "u32 \<Rightarrow> nat" where
  "builtin_clz w = length (takeWhile (\<lambda>i. \<not> bit w (31 - i)) [0..<32])"

definition c_ffs :: "u64 \<Rightarrow> nat" where
  "c_ffs word = builtin_ctzl word"

definition c_fls :: "u64 \<Rightarrow> nat" where
  "c_fls word = 64 - 1 - builtin_clzl word"

definition fls :: "u32 \<Rightarrow> nat" where
  "fls x = (if x \<noteq> 0 then 32 - builtin_clz x else 0)"

definition ffz :: "u64 \<Rightarrow> nat" where
  "ffz x = c_ffs (NOT x)"

definition fls64 :: "u64 \<Rightarrow> nat" where
  "fls64 x = (if x = 0 then 0 else c_fls x + 1)"

section \<open>Single-bit operations on a bitmap\<close>

type_synonym bitmap = "u64 list"

definition bm_load :: "bitmap \<Rightarrow> nat \<Rightarrow> u64 option" where
  "bm_load m k = (if k < length m then Some (m ! k) else None)"

definition bm_store :: "bitmap \<Rightarrow> nat \<Rightarrow> u64 \<Rightarrow> bitmap option" where
  "bm_store m k w = (if k < length m then Some (m[k := w]) else None)"

definition c_set_bit :: "nat \<Rightarrow> bitmap \<Rightarrow> bitmap option" where
  "c_set_bit nr addr = do {
     old \<leftarrow> bm_load addr (BIT_WORD nr);
     bm_store addr (BIT_WORD nr) (old OR BIT_MASK nr) }"

definition c_clear_bit :: "nat \<Rightarrow> bitmap \<Rightarrow> bitmap option" where
  "c_clear_bit nr addr = do {
     old \<leftarrow> bm_load addr (BIT_WORD nr);
     bm_store addr (BIT_WORD nr) (old AND NOT (BIT_MASK nr)) }"

definition c_change_bit :: "nat \<Rightarrow> bitmap \<Rightarrow> bitmap option" where
  "c_change_bit nr addr = do {
     old \<leftarrow> bm_load addr (BIT_WORD nr);
     bm_store addr (BIT_WORD nr) (old XOR BIT_MASK nr) }"

definition c_test_and_set_bit :: "nat \<Rightarrow> bitmap \<Rightarrow> (bool \<times> bitmap) option" where
  "c_test_and_set_bit nr addr = do {
     old \<leftarrow> bm_load addr (BIT_WORD nr);
     addr' \<leftarrow> bm_store addr (BIT_WORD nr) (old OR BIT_MASK nr);
     Some (old AND BIT_MASK nr \<noteq> 0, addr') }"

definition c_test_and_clear_bit :: "nat \<Rightarrow> bitmap \<Rightarrow> (bool \<times> bitmap) option" where
  "c_test_and_clear_bit nr addr = do {
     old \<leftarrow> bm_load addr (BIT_WORD nr);
     addr' \<leftarrow> bm_store addr (BIT_WORD nr) (old AND NOT (BIT_MASK nr));
     Some (old AND BIT_MASK nr \<noteq> 0, addr') }"

definition c_test_and_change_bit :: "nat \<Rightarrow> bitmap \<Rightarrow> (bool \<times> bitmap) option" where
  "c_test_and_change_bit nr addr = do {
     old \<leftarrow> bm_load addr (BIT_WORD nr);
     addr' \<leftarrow> bm_store addr (BIT_WORD nr) (old XOR BIT_MASK nr);
     Some (old AND BIT_MASK nr \<noteq> 0, addr') }"

definition test_bit :: "nat \<Rightarrow> bitmap \<Rightarrow> u64 option" where
  "test_bit nr addr = do {
     w \<leftarrow> bm_load addr (BIT_WORD nr);
     Some (1 AND drop_bit (nr mod 64) w) }"

section \<open>Searching a bitmap (bitops.h)\<close>

definition BITMAP_FIRST_WORD_MASK :: "nat \<Rightarrow> u64" where
  "BITMAP_FIRST_WORD_MASK start = push_bit (start mod 64) (NOT 0)"

definition BITMAP_LAST_WORD_MASK :: "nat \<Rightarrow> u64" where
  "BITMAP_LAST_WORD_MASK nbits = drop_bit (nat ((- int nbits) mod 64)) (NOT 0)"

function find_next_bit_loop :: "bitmap \<Rightarrow> nat \<Rightarrow> nat \<Rightarrow> u64 \<Rightarrow> u64 \<Rightarrow> nat option" where
  "find_next_bit_loop addr nbits start invert tmp =
     (if tmp \<noteq> 0 then Some (min (start + c_ffs tmp) nbits)
      else if nbits \<le> start + 64 then Some nbits
      else do {
        w \<leftarrow> bm_load addr ((start + 64) div 64);
        find_next_bit_loop addr nbits (start + 64) invert (w XOR invert) })"
  by pat_completeness auto
termination
  by (relation "measure (\<lambda>(addr, nbits, start, invert, tmp). nbits - start)") auto

declare find_next_bit_loop.simps [simp del]

definition c_find_next_bit :: "bitmap \<Rightarrow> nat \<Rightarrow> nat \<Rightarrow> u64 \<Rightarrow> nat option" where
  "c_find_next_bit addr nbits start invert =
     (if nbits = 0 \<or> nbits \<le> start then Some nbits
      else do {
        w \<leftarrow> bm_load addr (start div 64);
        find_next_bit_loop addr nbits (start div 64 * 64) invert
          ((w XOR invert) AND BITMAP_FIRST_WORD_MASK start) })"

definition find_next_bit :: "bitmap \<Rightarrow> nat \<Rightarrow> nat \<Rightarrow> nat option" where
  "find_next_bit addr sz offset = c_find_next_bit addr sz offset 0"

definition find_next_zero_bit :: "bitmap \<Rightarrow> nat \<Rightarrow> nat \<Rightarrow> nat option" where
  "find_next_zero_bit addr sz offset = c_find_next_bit addr sz offset (NOT 0)"

function find_first_bit_loop :: "bitmap \<Rightarrow> nat \<Rightarrow> nat \<Rightarrow> nat option" where
  "find_first_bit_loop addr sz idx =
     (if idx * 64 < sz then do {
        w \<leftarrow> bm_load addr idx;
        if w \<noteq> 0 then Some (min (idx * 64 + c_ffs w) sz)
        else find_first_bit_loop addr sz (idx + 1) }
      else Some sz)"
  by pat_completeness auto
termination
  by (relation "measure (\<lambda>(addr, sz, idx). sz - idx * 64)") auto

function find_first_zero_bit_loop :: "bitmap \<Rightarrow> nat \<Rightarrow> nat \<Rightarrow> nat option" where
  "find_first_zero_bit_loop addr sz idx =
     (if idx * 64 < sz then do {
        w \<leftarrow> bm_load addr idx;
        if w \<noteq> NOT 0 then Some (min (idx * 64 + ffz w) sz)
        else find_first_zero_bit_loop addr sz (idx + 1) }
      else Some sz)"
  by pat_completeness auto
termination
  by (relation "measure (\<lambda>(addr, sz, idx). sz - idx * 64)") auto

declare find_first_bit_loop.simps [simp del] find_first_zero_bit_loop.simps [simp del]

definition find_first_bit :: "bitmap \<Rightarrow> nat \<Rightarrow> nat option" where
  "find_first_bit addr sz = find_first_bit_loop addr sz 0"

definition find_first_zero_bit :: "bitmap \<Rightarrow> nat \<Rightarrow> nat option" where
  "find_first_zero_bit addr sz = find_first_zero_bit_loop addr sz 0"

primrec find_last_bit_loop :: "bitmap \<Rightarrow> nat \<Rightarrow> nat \<Rightarrow> u64 \<Rightarrow> nat option" where
  "find_last_bit_loop addr sz 0 val = do {
     w \<leftarrow> bm_load addr 0;
     if val AND w \<noteq> 0 then Some (c_fls (val AND w)) else Some sz }"
| "find_last_bit_loop addr sz (Suc k) val = do {
     w \<leftarrow> bm_load addr (Suc k);
     if val AND w \<noteq> 0 then Some (Suc k * 64 + c_fls (val AND w))
     else find_last_bit_loop addr sz k (NOT 0) }"

definition find_last_bit :: "bitmap \<Rightarrow> nat \<Rightarrow> nat option" where
  "find_last_bit addr sz =
     (if sz \<noteq> 0 then find_last_bit_loop addr sz ((sz - 1) div 64) (BITMAP_LAST_WORD_MASK sz)
      else Some sz)"

section \<open>Bits of masks and of words\<close>

definition bm_bit :: "bitmap \<Rightarrow> nat \<Rightarrow> bool" where
  "bm_bit m i = bit (m ! (i div 64)) (i mod 64)"

lemma bit_BIT_MASK [bitsimp]: "bit (BIT_MASK nr) i \<longleftrightarrow> i = nr mod 64"
  by (auto simp: BIT_MASK_def bit_exp_iff)

lemma bit_FIRST_WORD_MASK [bitsimp]:
  "bit (BITMAP_FIRST_WORD_MASK start) i \<longleftrightarrow> start mod 64 \<le> i \<and> i < 64"
  by (auto simp: BITMAP_FIRST_WORD_MASK_def bit_push_bit_iff bit_not_iff Word.bit_mask_iff)

lemma neg_mod_64: "nat ((- int n) mod 64) = (if n mod 64 = 0 then 0 else 64 - n mod 64)"
proof -
  have "int n mod 64 = int (n mod 64)" by (simp add: of_nat_mod)
  then show ?thesis by (auto simp: zmod_zminus1_eq_if nat_diff_distrib)
qed

lemma bit_LAST_WORD_MASK [bitsimp]:
  "bit (BITMAP_LAST_WORD_MASK nbits) i \<longleftrightarrow> i < (if nbits mod 64 = 0 then 64 else nbits mod 64)"
proof -
  have "nbits mod 64 < 64" by simp
  then show ?thesis
    by (auto simp: BITMAP_LAST_WORD_MASK_def neg_mod_64 bit_drop_bit_eq bit_not_iff Word.bit_mask_iff)
qed

lemma word64_nonzero_bit: "(w :: u64) \<noteq> 0 \<longleftrightarrow> (\<exists>i < 64. bit w i)"
  by (auto simp: bit_eq_iff [of w 0] dest: bit_imp_le_length)

lemma and_BIT_MASK_nonzero [bitsimp]: "w AND BIT_MASK nr \<noteq> 0 \<longleftrightarrow> bit w (nr mod 64)"
  by (auto simp: word64_nonzero_bit bit_and_iff bit_BIT_MASK)

lemma c_ffs_least:
  assumes "bit w k" "k < 64" "\<forall>j < k. \<not> bit w j"
  shows "c_ffs w = k"
  using takeWhile_Not_upt_least [of "bit w" k 64] assms
  by (simp add: c_ffs_def builtin_ctzl_def)

lemma c_ffs_nonzero:
  assumes "w \<noteq> 0"
  shows "bit w (c_ffs w)" "c_ffs w < 64" "j < c_ffs w \<Longrightarrow> \<not> bit w j"
proof -
  obtain i where i: "bit w i" "i < 64" using assms word64_nonzero_bit by blast
  define k where "k = (LEAST i. bit w i)"
  have k: "bit w k" "k \<le> i" "\<forall>j < k. \<not> bit w j"
    unfolding k_def using i by (auto intro: LeastI Least_le dest: not_less_Least)
  then have "c_ffs w = k" using c_ffs_least i by auto
  then show "bit w (c_ffs w)" "c_ffs w < 64" "j < c_ffs w \<Longrightarrow> \<not> bit w j"
    using k i by auto
qed

lemma c_fls_nonzero:
  assumes "w \<noteq> 0"
  shows "bit w (c_fls w)" "c_fls w < 64" "\<lbrakk>c_fls w < j\<rbrakk> \<Longrightarrow> \<not> bit w j"
proof -
  let ?P = "\<lambda>i. bit w (63 - i)"
  obtain i where i: "bit w i" "i < 64" using assms word64_nonzero_bit by blast
  define k where "k = (LEAST i. ?P i)"
  have p: "?P (63 - i)" using i by simp
  have k: "?P k" "k \<le> 63 - i" "\<forall>j < k. \<not> ?P j"
    unfolding k_def using LeastI [of ?P, OF p] Least_le [of ?P, OF p] not_less_Least [of _ ?P]
    by blast+
  have "c_fls w = 63 - k"
    using takeWhile_Not_upt_least [of ?P k 64] k i
    by (simp add: c_fls_def builtin_clzl_def)
  then show "bit w (c_fls w)" "c_fls w < 64" "\<lbrakk>c_fls w < j\<rbrakk> \<Longrightarrow> \<not> bit w j"
    using k apply auto
    apply (drule spec[of _ "63 - j"])
    using bit_imp_le_length[of w j] by auto
qed

lemma ffz_least: "w \<noteq> NOT 0 \<Longrightarrow> \<not> bit w (ffz w) \<and> ffz w < 64 \<and> (\<forall>j < ffz w. bit w j)"
proof -
  assume "w \<noteq> NOT 0"
  then have "NOT w \<noteq> 0" by (metis bit.double_compl)
  from c_ffs_nonzero [OF this] show ?thesis
    by (auto simp: ffz_def bit_not_iff)
qed

section \<open>Bits of a bitmap\<close>

lemma bm_load_eq [simp]: "k < length m \<Longrightarrow> bm_load m k = Some (m ! k)"
  by (simp add: bm_load_def)

lemma bm_store_eq [simp]: "k < length m \<Longrightarrow> bm_store m k w = Some (m[k := w])"
  by (simp add: bm_store_def)

lemma BITS_TO_LONGS_bound:
  assumes "BITS_TO_LONGS n \<le> length m" "i < n"
  shows "i div 64 < length m"
proof -
  have "i < length m * 64"
    using assms DIV_ROUND_UP_le [of 64 n] unfolding BITS_TO_LONGS_def by linarith
  then show ?thesis by (rule less_mult_imp_div_less)
qed

lemma bm_bit_update [bitsimp]:
  assumes "k < length m"
  shows "bm_bit (m[k := w]) i = (if i div 64 = k then bit w (i mod 64) else bm_bit m i)"
  using assms by (simp add: bm_bit_def nth_list_update)

lemma div_mod_64_inj: "i div 64 = j div 64 \<Longrightarrow> i mod 64 = j mod 64 \<Longrightarrow> i = (j::nat)"
  by (metis div_mult_mod_eq)


definition bm_insert :: "nat \<Rightarrow> bitmap \<Rightarrow> bitmap" where
  "bm_insert nr m = m[nr div 64 := m ! (nr div 64) OR BIT_MASK nr]"

definition bm_delete :: "nat \<Rightarrow> bitmap \<Rightarrow> bitmap" where
  "bm_delete nr m = m[nr div 64 := m ! (nr div 64) AND NOT (BIT_MASK nr)]"

lemma length_bm_insert_delete [simp]:
  "length (bm_insert nr m) = length m" "length (bm_delete nr m) = length m"
  by (simp_all add: bm_insert_def bm_delete_def)

lemma bm_bit_insert [simp]:
  assumes "nr div 64 < length m"
  shows "bm_bit (bm_insert nr m) i \<longleftrightarrow> i = nr \<or> bm_bit m i"
  using assms div_mod_64_inj [of i nr]
  by (auto simp: bm_insert_def bm_bit_update bit_or_iff bit_BIT_MASK) (auto simp: bm_bit_def)

lemma bm_bit_delete [simp]:
  assumes "nr div 64 < length m"
  shows "bm_bit (bm_delete nr m) i \<longleftrightarrow> i \<noteq> nr \<and> bm_bit m i"
  using assms div_mod_64_inj [of i nr]
  by (auto simp: bm_delete_def bm_bit_update bit_and_iff bit_not_iff bit_BIT_MASK) (auto simp: bm_bit_def)

lemma xor_BIT_MASK:
  "w XOR BIT_MASK nr = (if bit w (nr mod 64) then w AND NOT (BIT_MASK nr) else w OR BIT_MASK nr)"
  by (rule bit_word_eqI) (auto simp: bit_xor_iff bit_and_iff bit_or_iff bit_not_iff bit_BIT_MASK)

lemma single_bit_ops:
  assumes "nr div 64 < length m"
  shows "c_set_bit nr m = Some (bm_insert nr m)"
    and "c_clear_bit nr m = Some (bm_delete nr m)"
    and "c_change_bit nr m = Some (if bm_bit m nr then bm_delete nr m else bm_insert nr m)"
    and "c_test_and_set_bit nr m = Some (bm_bit m nr, bm_insert nr m)"
    and "c_test_and_clear_bit nr m = Some (bm_bit m nr, bm_delete nr m)"
    and "c_test_and_change_bit nr m =
           Some (bm_bit m nr, if bm_bit m nr then bm_delete nr m else bm_insert nr m)"
    and "test_bit nr m = Some (of_bool (bm_bit m nr))"
  using assms
  by (simp_all add: c_set_bit_def c_clear_bit_def c_change_bit_def c_test_and_set_bit_def
     c_test_and_clear_bit_def c_test_and_change_bit_def test_bit_def BIT_WORD_def bm_insert_def
     bm_delete_def and_BIT_MASK_nonzero xor_BIT_MASK bm_bit_def one_and_eq
     mod_2_eq_odd bit_iff_odd_drop_bit)

lemma block_div_mod:
  assumes "(start :: nat) mod 64 = 0" "j < 64"
  shows "(start + j) div 64 = start div 64" "(start + j) mod 64 = j"
proof -
  obtain k where "start = 64 * k" using assms(1) by auto
  then show "(start + j) div 64 = start div 64" "(start + j) mod 64 = j"
    using assms(2) by (simp_all only: mod_mult_self4 div_mult_self4) simp_all
qed

section \<open>The searches find the first position\<close>

text \<open>The reference: the first number from \<open>s\<close> on and below \<open>n\<close> with \<open>P\<close>, and \<open>n\<close> when there is none.\<close>

definition first_from :: "(nat \<Rightarrow> bool) \<Rightarrow> nat \<Rightarrow> nat \<Rightarrow> nat" where
  "first_from P s n = (case List.find P [s..<n] of None \<Rightarrow> n | Some i \<Rightarrow> i)"

lemma find_upt_Some:
  assumes "s \<le> r" "r < n" "P r" "\<And>i. s \<le> i \<Longrightarrow> i < r \<Longrightarrow> \<not> P i"
  shows "List.find P [s..<n] = Some r"
  using assms by (auto simp: find_Some_iff intro!: exI [of _ "r - s"])

lemma first_fromI:
  assumes "s \<le> r \<or> n \<le> s" "r \<le> n" "r < n \<Longrightarrow> P r \<and> s \<le> r" "\<And>i. s \<le> i \<Longrightarrow> i < r \<Longrightarrow> \<not> P i"
    "n \<le> s \<Longrightarrow> r = n"
  shows "first_from P s n = r"
proof (cases "r < n")
  case True
  with assms have "List.find P [s..<n] = Some r" by (intro find_upt_Some) auto
  then show ?thesis by (simp add: first_from_def)
next
  case False
  with assms have "List.find P [s..<n] = None" by (auto simp: find_None_iff)
  with False assms show ?thesis by (simp add: first_from_def)
qed

lemma first_from_le [simp]: "first_from P s n \<le> n"
  by (auto simp: first_from_def find_Some_iff split: option.splits)

lemma first_from_less:
  assumes "first_from P s n < n"
  shows "P (first_from P s n)" "s \<le> first_from P s n"
proof -
  from assms obtain r where "List.find P [s..<n] = Some r"
    by (cases "List.find P [s..<n]") (auto simp: first_from_def)
  moreover from this have "first_from P s n = r" by (simp add: first_from_def)
  ultimately show "P (first_from P s n)" "s \<le> first_from P s n"
    by (auto simp: find_Some_iff)
qed

lemma first_from_none_before:
  assumes "s \<le> i" "i < first_from P s n"
  shows "\<not> P i"
proof (cases "List.find P [s..<n]")
  case None
  with assms show ?thesis by (auto simp: first_from_def find_None_iff)
next
  case (Some r)
  have r: "first_from P s n = r" using Some by (simp add: first_from_def)
  have r2: "\<forall>j < r - s. \<not> P (s + j)" using Some by (auto simp: find_Some_iff)
  have "i - s < r - s" "i = s + (i - s)" using assms r by auto
  with r2 show ?thesis by metis
qed

lemma first_from_eq_n: "first_from P s n = n \<longleftrightarrow> (\<forall>i. s \<le> i \<and> i < n \<longrightarrow> \<not> P i)"
  using first_from_none_before [of s _ P n] first_from_less [of P s n] first_from_le [of P s n]
  by (metis le_neq_implies_less)

abbreviation inv_bit :: "bitmap \<Rightarrow> u64 \<Rightarrow> nat \<Rightarrow> bool" where
  "inv_bit m invert i \<equiv> bit (m ! (i div 64) XOR invert) (i mod 64)"

lemma find_next_bit_loop_first:
  assumes "start mod 64 = 0" "start < nbits" "BITS_TO_LONGS nbits \<le> length m" "s \<le> start + 64" "s < nbits"
    and "\<And>j. j < 64 \<Longrightarrow> bit tmp j \<longleftrightarrow> s \<le> start + j \<and> inv_bit m invert (start + j)"
    and "\<And>i. s \<le> i \<Longrightarrow> i < start \<Longrightarrow> \<not> inv_bit m invert i"
  shows "find_next_bit_loop m nbits start invert tmp = Some (first_from (inv_bit m invert) s nbits)"
  using assms
proof (induction m nbits start invert tmp rule: find_next_bit_loop.induct)
  case (1 m nbits start invert tmp)
  have none: "\<not> inv_bit m invert i" if "s \<le> i" "i < start + b" "b \<le> 64" "\<And>j. j < b \<Longrightarrow> \<not> bit tmp j" for i b
  proof (cases "i < start")
    case False
    with that have "i - start < b" by linarith
    with that 1(7)[of "i - start"] False show ?thesis by auto
  qed (use that 1(8) in blast)
  show ?case
  proof (cases "tmp = 0")
    case False
    note f = c_ffs_nonzero [OF False]
    have p: "s \<le> start + c_ffs tmp" "inv_bit m invert (start + c_ffs tmp)"
      using 1(7)[of "c_ffs tmp"] f by auto
    have "first_from (inv_bit m invert) s nbits = min (start + c_ffs tmp) nbits"
      apply (rule first_fromI)
      using p \<open>s < nbits\<close> none [where b = "c_ffs tmp"] f by (auto simp: min_def split: if_splits)
    with False show ?thesis by (simp add: find_next_bit_loop.simps)
  next
    case True
    have none': "\<not> inv_bit m invert i" if "s \<le> i" "i < start + 64" for i
      using none [of i 64] that True by simp
    show ?thesis
    proof (cases "nbits \<le> start + 64")
      case t: True
      have "first_from (inv_bit m invert) s nbits = nbits"
        using none' t by (simp add: first_from_eq_n)
      with True t show ?thesis by (simp add: find_next_bit_loop.simps)
    next
      case False
      have l: "(start + 64) div 64 < length m"
        using BITS_TO_LONGS_bound [OF 1(4), of "start + 64"] False by simp
      note d = block_div_mod [of "start + 64"]
      have "find_next_bit_loop m nbits (start + 64) invert (m ! ((start + 64) div 64) XOR invert)
            = Some (first_from (inv_bit m invert) s nbits)"
        using 1 True False none' l d by (intro 1(1)) auto
      with True False l show ?thesis by (subst find_next_bit_loop.simps) simp
    qed
  qed
qed

lemma c_find_next_bit_first:
  assumes "BITS_TO_LONGS nbits \<le> length m"
  shows "c_find_next_bit m nbits s invert = Some (first_from (inv_bit m invert) s nbits)"
proof (cases "nbits \<le> s")
  case True
  then show ?thesis by (simp add: c_find_next_bit_def first_from_def)
next
  case False
  have l: "s div 64 < length m" using BITS_TO_LONGS_bound [OF assms, of s] False by simp
  have m: "s div 64 * 64 + s mod 64 = s" "s mod 64 < 64" by simp_all
  have le_j: "s \<le> s div 64 * 64 + j \<longleftrightarrow> s mod 64 \<le> j" for j
    using m(1) by (metis nat_add_left_cancel_le)
  have b: "s div 64 * 64 < nbits" "s \<le> s div 64 * 64 + 64" "s div 64 * 64 \<le> s"
    using m False by linarith+
  have "find_next_bit_loop m nbits (s div 64 * 64) invert
         ((m ! (s div 64) XOR invert) AND BITMAP_FIRST_WORD_MASK s)
        = Some (first_from (inv_bit m invert) s nbits)"
  proof (rule find_next_bit_loop_first)
    fix j :: nat assume "j < 64"
    then show "bit ((m ! (s div 64) XOR invert) AND BITMAP_FIRST_WORD_MASK s) j
        \<longleftrightarrow> s \<le> s div 64 * 64 + j \<and> inv_bit m invert (s div 64 * 64 + j)"
      using block_div_mod [of "s div 64 * 64" j] le_j [of j]
      by (auto simp: bit_and_iff bit_FIRST_WORD_MASK)
  qed (use False assms b in \<open>simp_all (no_asm_simp)\<close>)
  with l False show ?thesis by (simp add: c_find_next_bit_def)
qed

lemma find_next_bit_first:
  assumes "BITS_TO_LONGS n \<le> length m"
  shows "find_next_bit m n s = Some (first_from (bm_bit m) s n)"
  using c_find_next_bit_first [OF assms, of s 0]
  by (simp add: find_next_bit_def bm_bit_def [abs_def])

lemma find_next_zero_bit_first:
  assumes "BITS_TO_LONGS n \<le> length m"
  shows "find_next_zero_bit m n s = Some (first_from (\<lambda>i. \<not> bm_bit m i) s n)"
proof -
  have "inv_bit m (NOT 0) = (\<lambda>i. \<not> bm_bit m i)"
    by (auto simp: fun_eq_iff bm_bit_def bit_xor_iff bit_not_iff)
  then show ?thesis
    using c_find_next_bit_first [OF assms, of s "NOT 0"] by (simp add: find_next_zero_bit_def)
qed

lemma find_first_bit_loop_next:
  assumes "BITS_TO_LONGS n \<le> length m" "\<And>i. i < k * 64 \<Longrightarrow> \<not> bm_bit m i"
  shows "find_first_bit_loop m n k = Some (first_from (bm_bit m) 0 n)"
  using assms
proof (induction m n k rule: find_first_bit_loop.induct)
  case (1 m n k)
  show ?case
  proof (cases "k * 64 < n")
    case True
    have l: "k < length m" using BITS_TO_LONGS_bound [OF 1(2), of "k * 64"] True by simp
    have b: "bm_bit m (k * 64 + j) \<longleftrightarrow> bit (m ! k) j" if "j < 64" for j
      using block_div_mod [of "k * 64" j] that by (simp add: bm_bit_def)
    have nb: "\<not> bm_bit m i" if "i < k * 64 + c" "\<And>j. j < c \<Longrightarrow> \<not> bit (m ! k) j" "c \<le> 64" for i c
    proof (cases "i < k * 64")
      case False
      with that b [of "i - k * 64"] show ?thesis by auto
    qed (use 1(3) in blast)
    show ?thesis
    proof (cases "m ! k = 0")
      case False
      note f = c_ffs_nonzero [OF False]
      have "first_from (bm_bit m) 0 n = min (k * 64 + c_ffs (m ! k)) n"
        by (rule first_fromI) (use True f b nb [where c = "c_ffs (m ! k)"] in
            \<open>auto simp: min_def split: if_splits\<close>)
      with l True False show ?thesis by (simp add: find_first_bit_loop.simps)
    next
      case z: True
      have "find_first_bit_loop m n (k + 1) = Some (first_from (bm_bit m) 0 n)"
        using 1(1) [OF True _ _ 1(2)] l z nb [where c = 64] by simp
      with l True z show ?thesis by (subst find_first_bit_loop.simps) simp
    qed
  next
    case False
    then have "first_from (bm_bit m) 0 n = n" using 1(3) by (simp add: first_from_eq_n)
    with False show ?thesis by (simp add: find_first_bit_loop.simps)
  qed
qed

lemma find_first_bit_first:
  assumes "BITS_TO_LONGS n \<le> length m"
  shows "find_first_bit m n = Some (first_from (bm_bit m) 0 n)"
  using find_first_bit_loop_next [OF assms, of 0] by (simp add: find_first_bit_def)

lemma bm_bit_map_NOT: "i div 64 < length m \<Longrightarrow> bm_bit (map (\<lambda>w. NOT w) m) i \<longleftrightarrow> \<not> bm_bit m i"
  by (simp add: bm_bit_def bit_not_iff)

text \<open>Searching for a zero bit is searching the complemented map for a one bit.\<close>

lemma find_first_zero_bit_loop_NOT:
  "find_first_zero_bit_loop m n k = find_first_bit_loop (map (\<lambda>w. NOT w) m) n k"
proof (induction m n k rule: find_first_zero_bit_loop.induct)
  case (1 m n k)
  have "w \<noteq> NOT 0 \<longleftrightarrow> NOT w \<noteq> 0" for w :: u64 by (metis bit.double_compl)
  with 1 show ?case
    by (subst find_first_zero_bit_loop.simps, subst find_first_bit_loop.simps)
      (auto simp: bm_load_def ffz_def)
qed

lemma first_from_cong:
  assumes "\<And>i. s \<le> i \<Longrightarrow> i < n \<Longrightarrow> P i = Q i"
  shows "first_from P s n = first_from Q s n"
proof -
  have "List.find P [s..<n] = List.find Q [s..<n]" using assms by (intro find_cong) auto
  then show ?thesis by (simp add: first_from_def)
qed

lemma find_first_zero_bit_first:
  assumes "BITS_TO_LONGS n \<le> length m"
  shows "find_first_zero_bit m n = Some (first_from (\<lambda>i. \<not> bm_bit m i) 0 n)"
proof -
  have "first_from (bm_bit (map (\<lambda>w. NOT w) m)) 0 n = first_from (\<lambda>i. \<not> bm_bit m i) 0 n"
    using assms by (intro first_from_cong bm_bit_map_NOT BITS_TO_LONGS_bound [of n]) auto
  with find_first_bit_first [of n "map (\<lambda>w. NOT w) m"] assms show ?thesis
    by (simp add: find_first_zero_bit_def find_first_zero_bit_loop_NOT find_first_bit_def)
qed

text \<open>The last set bit below \<open>n\<close>, and \<open>n\<close> when there is none.\<close>

definition last_below :: "(nat \<Rightarrow> bool) \<Rightarrow> nat \<Rightarrow> nat \<Rightarrow> bool" where
  "last_below P n r \<longleftrightarrow> (if r < n then P r \<and> (\<forall>i \<in> {r<..<n}. \<not> P i) else r = n \<and> (\<forall>i < n. \<not> P i))"

lemma last_word_nonzero:
  assumes "val AND m ! k \<noteq> 0" "\<And>j. j < 64 \<Longrightarrow> bit val j \<Longrightarrow> k * 64 + j < n"
    and "\<And>i. bm_bit m i \<Longrightarrow> i < n \<Longrightarrow> i < (k + 1) * 64 \<and> (k * 64 \<le> i \<longrightarrow> bit val (i mod 64))"
  shows "last_below (bm_bit m) n (k * 64 + c_fls (val AND m ! k))"
proof -
  note f = c_fls_nonzero [OF assms(1)]
  have b: "bm_bit m (k * 64 + j) \<longleftrightarrow> bit (m ! k) j" "(k * 64 + j) mod 64 = j" if "j < 64" for j
    using block_div_mod [of "k * 64" j] that by (simp_all add: bm_bit_def)
  have "k * 64 + c_fls (val AND m ! k) < n" using assms(2) f by (simp add: bit_and_iff)
  moreover have "bm_bit m (k * 64 + c_fls (val AND m ! k))" using b f by (simp add: bit_and_iff)
  moreover have "\<not> bm_bit m i" if i: "k * 64 + c_fls (val AND m ! k) < i" "i < n" for i
  proof
    assume p: "bm_bit m i"
    then have j: "i - k * 64 < 64" using assms(3) [of i] i by auto
    have "bit (val AND m ! k) (i - k * 64)"
      using b [OF j] p assms(3) [of i] i by (simp add: bit_and_iff)
    with f(3) i show False by simp
  qed
  ultimately show ?thesis by (simp add: last_below_def)
qed

lemma last_word_zero:
  assumes "val AND m ! k = 0" "bm_bit m i"
    and "i < (k + 1) * 64 \<and> (k * 64 \<le> i \<longrightarrow> bit val (i mod 64))"
  shows "i < k * 64"
proof (rule ccontr)
  assume "\<not> i < k * 64"
  with assms have "i div 64 = k" "bit val (i mod 64)" by (auto simp: div_nat_eqI)
  with assms(2) have "bit (val AND m ! k) (i mod 64)" by (simp add: bm_bit_def bit_and_iff)
  with assms(1) show False by simp
qed

lemma find_last_bit_loop_last:
  assumes "k < length m" "k * 64 < n"
    and "\<And>j. j < 64 \<Longrightarrow> bit val j \<Longrightarrow> k * 64 + j < n"
    and "\<And>i. bm_bit m i \<Longrightarrow> i < n \<Longrightarrow> i < (k + 1) * 64 \<and> (k * 64 \<le> i \<longrightarrow> bit val (i mod 64))"
  shows "\<exists>r. find_last_bit_loop m n k val = Some r \<and> last_below (bm_bit m) n r"
  using assms
proof (induction k arbitrary: val)
  case 0
  show ?case
  proof (cases "val AND m ! 0 = 0")
    case True
    have "\<not> bm_bit m i" if "i < n" for i
      using last_word_zero [OF True, of i] 0(4) [of i] that by auto
    then have "last_below (bm_bit m) n n" by (simp add: last_below_def)
    with True 0(1) show ?thesis by simp
  next
    case False
    have "last_below (bm_bit m) n (0 * 64 + c_fls (val AND m ! 0))"
      using last_word_nonzero [OF False 0(3) 0(4)] by blast
    with False 0(1) show ?thesis by simp
  qed
next
  case (Suc k)
  show ?case
  proof (cases "val AND m ! Suc k = 0")
    case True
    have b: "i < (k + 1) * 64 \<and> (k * 64 \<le> i \<longrightarrow> bit (NOT 0 :: u64) (i mod 64))"
      if "bm_bit m i" "i < n" for i
      using last_word_zero [OF True that(1)] Suc.prems(4) that by (simp add: bit_not_iff)
    have "\<exists>r. find_last_bit_loop m n k (NOT 0) = Some r \<and> last_below (bm_bit m) n r"
      using Suc.prems(1,2) by (intro Suc.IH b) simp_all
    with True Suc.prems(1) show ?thesis by simp
  next
    case False
    have "last_below (bm_bit m) n (Suc k * 64 + c_fls (val AND m ! Suc k))"
      using last_word_nonzero [OF False Suc.prems(3,4)] by blast
    with False Suc.prems(1) show ?thesis by simp
  qed
qed

lemma find_last_bit_last:
  assumes "BITS_TO_LONGS n \<le> length m"
  shows "\<exists>r. find_last_bit m n = Some r \<and> last_below (bm_bit m) n r"
proof (cases "n = 0")
  case True
  then show ?thesis by (simp add: find_last_bit_def last_below_def)
next
  case False
  let ?k = "(n - 1) div 64"
  have k: "?k * 64 + (n - 1) mod 64 = n - 1" "(n - 1) mod 64 < 64" by simp_all
  have nm: "(if n mod 64 = 0 then 64 else n mod 64) = Suc ((n - 1) mod 64)"
    using False by (cases n) (simp_all add: mod_Suc)
  have "\<exists>r. find_last_bit_loop m n ?k (BITMAP_LAST_WORD_MASK n) = Some r \<and> last_below (bm_bit m) n r"
  proof (rule find_last_bit_loop_last)
    show "?k < length m" using BITS_TO_LONGS_bound [OF assms, of "n - 1"] False by simp
    show "?k * 64 < n" using k False by linarith
    show "?k * 64 + j < n" if "bit (BITMAP_LAST_WORD_MASK n) j" for j
      using that k False unfolding bit_LAST_WORD_MASK nm by linarith
    show "i < (?k + 1) * 64 \<and> (?k * 64 \<le> i \<longrightarrow> bit (BITMAP_LAST_WORD_MASK n) (i mod 64))"
      if "i < n" for i
    proof (intro conjI impI)
      show lt: "i < (?k + 1) * 64" using that k by (simp only: distrib_right)
      assume ge: "?k * 64 \<le> i"
      define j where "j = i - ?k * 64"
      have j: "i = ?k * 64 + j" "j < 64" using lt ge by (simp_all add: j_def)
      then have "i mod 64 = j" using block_div_mod(2) [of "?k * 64" j] by simp
      then show "bit (BITMAP_LAST_WORD_MASK n) (i mod 64)"
        unfolding bit_LAST_WORD_MASK nm using that k j False by linarith
    qed
  qed
  with False show ?thesis by (simp add: find_last_bit_def)
qed

section \<open>Properties\<close>

text \<open>C28. On a map that holds at least \<open>n\<close> bits, \<open>find_next_zero_bit\<close> never reads outside the array and
  returns: the result is at most \<open>n\<close>, every bit from the offset up to the result is set, and a
  result below \<open>n\<close> is a clear bit at or after the offset.\<close>

theorem find_next_zero_bit_spec:
  assumes "BITS_TO_LONGS n \<le> length m"
  shows "\<exists>r \<le> n. find_next_zero_bit m n s = Some r \<and> (r < n \<longrightarrow> s \<le> r \<and> \<not> bm_bit m r)
           \<and> (\<forall>i. s \<le> i \<and> i < r \<longrightarrow> bm_bit m i)"
  using find_next_zero_bit_first [OF assms, of s] first_from_le [of _ s n]
    first_from_less [of "\<lambda>i. \<not> bm_bit m i" s n] first_from_none_before [of s _ "\<lambda>i. \<not> bm_bit m i" n]
  by blast

theorem find_next_zero_bit_spec_witness:
  "\<exists>r \<le> 70. find_next_zero_bit [NOT 0, 0x15] 70 3 = Some r \<and> (r < 70 \<longrightarrow> 3 \<le> r \<and> \<not> bm_bit [NOT 0, 0x15] r)
           \<and> (\<forall>i. 3 \<le> i \<and> i < r \<longrightarrow> bm_bit [NOT 0, 0x15] i)"
  by (rule find_next_zero_bit_spec) (simp add: BITS_TO_LONGS_def DIV_ROUND_UP_def)

end
