(* ===== verification/Bitmap.thy ===== *)
theory Bitmap
  imports Bitops
begin

text \<open>
  Operations on ranges of a bitmap: \<^verbatim>\<open>host/lib/bitmap.c\<close> and \<^verbatim>\<open>include/uapi/bitmap.h\<close>.

  The routines work a word at a time with masks at both ends. They are shown to be equivalent to the
  bit at a time operations of \<open>Bitops\<close>, to stay inside the array, and, for the searches, to return and to
  find the first area that fits.

  Where the header has a second definition for sizes that the compiler knows to be at most one word, the
  model is the general one. Destination and sources of the word-wise operations are separate arguments;
  each word is read before it is written and not read again, so that it does not matter when the
  destination is one of the sources.
\<close>

section \<open>Setting and clearing ranges\<close>

text \<open>The loop of \<^verbatim>\<open>bitmap_set\<close> and \<^verbatim>\<open>bitmap_clear\<close>; they differ in the write \<open>f\<close> of a mask to a word. The
  result is the array, the position, the remaining length and the mask after the loop.\<close>

function range_loop ::
  "(u64 \<Rightarrow> u64 \<Rightarrow> u64) \<Rightarrow> bitmap \<Rightarrow> nat \<Rightarrow> int \<Rightarrow> int \<Rightarrow> u64 \<Rightarrow> (bitmap \<times> nat \<times> int \<times> u64) option" where
  "range_loop f m p len bits msk =
     (if len - bits \<ge> 0 then do {
        w \<leftarrow> bm_load m p;
        m \<leftarrow> bm_store m p (f w msk);
        range_loop f m (p + 1) (len - bits) 64 (NOT 0) }
      else Some (m, p, len, msk))"
  by pat_completeness auto
termination
  by (relation "measures [\<lambda>(f, m, p, len, bits, msk). if bits = 64 then 0 else 1,
                          \<lambda>(f, m, p, len, bits, msk). nat len]") auto

declare range_loop.simps [simp del]

definition range_op :: "(u64 \<Rightarrow> u64 \<Rightarrow> u64) \<Rightarrow> bitmap \<Rightarrow> nat \<Rightarrow> int \<Rightarrow> bitmap option" where
  "range_op f m start len = do {
     let sz = nat ((int start + len) mod 2 ^ 32);
     (m, p, len, msk) \<leftarrow> range_loop f m (BIT_WORD start) len (64 - int (start mod 64)) (BITMAP_FIRST_WORD_MASK start);
     if len \<noteq> 0 then do {
       w \<leftarrow> bm_load m p;
       bm_store m p (f w (msk AND BITMAP_LAST_WORD_MASK sz)) }
     else Some m }"

definition bitmap_set :: "bitmap \<Rightarrow> nat \<Rightarrow> int \<Rightarrow> bitmap option" where
  "bitmap_set m start len = range_op (\<lambda>w msk. w OR msk) m start len"

definition bitmap_clear :: "bitmap \<Rightarrow> nat \<Rightarrow> int \<Rightarrow> bitmap option" where
  "bitmap_clear m start len = range_op (\<lambda>w msk. w AND NOT msk) m start len"

section \<open>Word-wise comparisons and combinations\<close>

text \<open>The loop over whole words that the comparisons share: it leaves with \<open>True\<close> at the first pair of words
  for which \<open>bad\<close> holds.\<close>

function cmp_loop :: "(u64 \<Rightarrow> u64 \<Rightarrow> bool) \<Rightarrow> bitmap \<Rightarrow> bitmap \<Rightarrow> nat \<Rightarrow> nat \<Rightarrow> bool option" where
  "cmp_loop bad m1 m2 k lim =
     (if k < lim then do {
        a \<leftarrow> bm_load m1 k;
        b \<leftarrow> bm_load m2 k;
        if bad a b then Some True else cmp_loop bad m1 m2 (k + 1) lim }
      else Some False)"
  by pat_completeness auto
termination
  by (relation "measure (\<lambda>(bad, m1, m2, k, lim). lim - k)") auto

declare cmp_loop.simps [simp del]

definition c_bitmap_equal :: "bitmap \<Rightarrow> bitmap \<Rightarrow> nat \<Rightarrow> int option" where
  "c_bitmap_equal m1 m2 bits = do {
     let k = bits div 64;
     found \<leftarrow> cmp_loop (\<lambda>a b. a \<noteq> b) m1 m2 0 k;
     if found then Some 0
     else if bits mod 64 \<noteq> 0 then do {
       a \<leftarrow> bm_load m1 k;
       b \<leftarrow> bm_load m2 k;
       if (a XOR b) AND BITMAP_LAST_WORD_MASK bits \<noteq> 0 then Some 0 else Some 1 }
     else Some 1 }"

definition c_bitmap_intersects :: "bitmap \<Rightarrow> bitmap \<Rightarrow> nat \<Rightarrow> int option" where
  "c_bitmap_intersects m1 m2 bits = do {
     let k = bits div 64;
     found \<leftarrow> cmp_loop (\<lambda>a b. a AND b \<noteq> 0) m1 m2 0 k;
     if found then Some 1
     else if bits mod 64 \<noteq> 0 then do {
       a \<leftarrow> bm_load m1 k;
       b \<leftarrow> bm_load m2 k;
       if (a AND b) AND BITMAP_LAST_WORD_MASK bits \<noteq> 0 then Some 1 else Some 0 }
     else Some 0 }"

definition c_bitmap_subset :: "bitmap \<Rightarrow> bitmap \<Rightarrow> nat \<Rightarrow> int option" where
  "c_bitmap_subset m1 m2 bits = do {
     let k = bits div 64;
     found \<leftarrow> cmp_loop (\<lambda>a b. a AND NOT b \<noteq> 0) m1 m2 0 k;
     if found then Some 0
     else if bits mod 64 \<noteq> 0 then do {
       a \<leftarrow> bm_load m1 k;
       b \<leftarrow> bm_load m2 k;
       if (a AND NOT b) AND BITMAP_LAST_WORD_MASK bits \<noteq> 0 then Some 0 else Some 1 }
     else Some 1 }"

function combine_loop ::
  "(u64 \<Rightarrow> u64 \<Rightarrow> u64) \<Rightarrow> bitmap \<Rightarrow> bitmap \<Rightarrow> bitmap \<Rightarrow> nat \<Rightarrow> nat \<Rightarrow> u64 \<Rightarrow> (u64 \<times> bitmap) option" where
  "combine_loop f dst m1 m2 k lim result =
     (if k < lim then do {
        a \<leftarrow> bm_load m1 k;
        b \<leftarrow> bm_load m2 k;
        dst \<leftarrow> bm_store dst k (f a b);
        combine_loop f dst m1 m2 (k + 1) lim (result OR f a b) }
      else Some (result, dst))"
  by pat_completeness auto
termination
  by (relation "measure (\<lambda>(f, dst, m1, m2, k, lim, result). lim - k)") auto

declare combine_loop.simps [simp del]

definition combine :: "(u64 \<Rightarrow> u64 \<Rightarrow> u64) \<Rightarrow> bitmap \<Rightarrow> bitmap \<Rightarrow> bitmap \<Rightarrow> nat \<Rightarrow> (int \<times> bitmap) option" where
  "combine f dst m1 m2 bits = do {
     let k = bits div 64;
     (result, dst) \<leftarrow> combine_loop f dst m1 m2 0 k 0;
     if bits mod 64 \<noteq> 0 then do {
       a \<leftarrow> bm_load m1 k;
       b \<leftarrow> bm_load m2 k;
       let w = f a b AND BITMAP_LAST_WORD_MASK bits;
       dst \<leftarrow> bm_store dst k w;
       Some (of_bool (result OR w \<noteq> 0), dst) }
     else Some (of_bool (result \<noteq> 0), dst) }"

definition c_bitmap_and :: "bitmap \<Rightarrow> bitmap \<Rightarrow> bitmap \<Rightarrow> nat \<Rightarrow> (int \<times> bitmap) option" where
  "c_bitmap_and dst m1 m2 bits = combine (\<lambda>a b. a AND b) dst m1 m2 bits"

definition c_bitmap_andnot :: "bitmap \<Rightarrow> bitmap \<Rightarrow> bitmap \<Rightarrow> nat \<Rightarrow> (int \<times> bitmap) option" where
  "c_bitmap_andnot dst m1 m2 bits = combine (\<lambda>a b. a AND NOT b) dst m1 m2 bits"

definition c_bitmap_or :: "bitmap \<Rightarrow> bitmap \<Rightarrow> bitmap \<Rightarrow> nat \<Rightarrow> bitmap option" where
  "c_bitmap_or dst m1 m2 bits =
     map_option snd (combine_loop (\<lambda>a b. a OR b) dst m1 m2 0 (BITS_TO_LONGS bits) 0)"

section \<open>The inline operations of the header\<close>

definition bitmap_empty :: "bitmap \<Rightarrow> nat \<Rightarrow> bool option" where
  "bitmap_empty src nbits = map_option (\<lambda>r. r = nbits) (find_first_bit src nbits)"

definition bitmap_full :: "bitmap \<Rightarrow> nat \<Rightarrow> bool option" where
  "bitmap_full src nbits = map_option (\<lambda>r. r = nbits) (find_first_zero_bit src nbits)"

definition bitmap_zero :: "bitmap \<Rightarrow> nat \<Rightarrow> bitmap option" where
  "bitmap_zero dst nbits =
     (let n = BITS_TO_LONGS nbits in
      if n \<le> length dst then Some (replicate n 0 @ drop n dst) else None)"

definition bitmap_fill :: "bitmap \<Rightarrow> nat \<Rightarrow> bitmap option" where
  "bitmap_fill dst nbits =
     (let nlongs = BITS_TO_LONGS nbits in
      if nlongs \<noteq> 0 \<and> nlongs \<le> length dst then
        bm_store (replicate (nlongs - 1) (NOT 0) @ drop (nlongs - 1) dst) (nlongs - 1) (BITMAP_LAST_WORD_MASK nbits)
      else None)"

definition bitmap_copy :: "bitmap \<Rightarrow> bitmap \<Rightarrow> nat \<Rightarrow> bitmap option" where
  "bitmap_copy dst src nbits =
     (let n = BITS_TO_LONGS nbits in
      if n \<le> length dst \<and> n \<le> length src then Some (take n src @ drop n dst) else None)"

section \<open>Aligned regions\<close>

datatype reg_op_t = REG_OP_ISFREE | REG_OP_ALLOC | REG_OP_RELEASE

primrec reg_isfree_loop :: "bitmap \<Rightarrow> nat \<Rightarrow> u64 \<Rightarrow> nat \<Rightarrow> int option" where
  "reg_isfree_loop m index msk 0 = Some 1"
| "reg_isfree_loop m index msk (Suc n) = do {
     w \<leftarrow> bm_load m index;
     if w AND msk \<noteq> 0 then Some 0 else reg_isfree_loop m (index + 1) msk n }"

primrec reg_write_loop :: "(u64 \<Rightarrow> u64) \<Rightarrow> bitmap \<Rightarrow> nat \<Rightarrow> nat \<Rightarrow> bitmap option" where
  "reg_write_loop f m index 0 = Some m"
| "reg_write_loop f m index (Suc n) = do {
     w \<leftarrow> bm_load m index;
     m \<leftarrow> bm_store m index (f w);
     reg_write_loop f m (index + 1) n }"

definition reg_mask :: "nat \<Rightarrow> nat \<Rightarrow> u64" where
  "reg_mask nbitsinlong offset =
     (let msk = push_bit (nbitsinlong - 1) 1 in push_bit offset (msk + (msk - 1)))"

definition c_reg_op :: "bitmap \<Rightarrow> nat \<Rightarrow> nat \<Rightarrow> reg_op_t \<Rightarrow> (int \<times> bitmap) option" where
  "c_reg_op m pos order reg_op =
     (let nbits_reg = 2 ^ order; index = pos div 64; offset = pos - index * 64;
          nlongs_reg = BITS_TO_LONGS nbits_reg; nbitsinlong = min nbits_reg 64;
          msk = reg_mask nbitsinlong offset
      in case reg_op of
           REG_OP_ISFREE \<Rightarrow> map_option (\<lambda>ret. (ret, m)) (reg_isfree_loop m index msk nlongs_reg)
         | REG_OP_ALLOC \<Rightarrow> map_option (Pair 0) (reg_write_loop (\<lambda>w. w OR msk) m index nlongs_reg)
         | REG_OP_RELEASE \<Rightarrow> map_option (Pair 0) (reg_write_loop (\<lambda>w. w AND NOT msk) m index nlongs_reg))"

lemma diff_pow_less: "bits - (pos + 2 ^ order) < bits - (pos :: nat)" if "pos + 2 ^ order \<le> bits"
proof -
  have "0 < (2 :: nat) ^ order" by simp
  with that show ?thesis by linarith
qed

function find_free_region_loop :: "bitmap \<Rightarrow> nat \<Rightarrow> nat \<Rightarrow> nat \<Rightarrow> (int \<times> bitmap) option" where
  "find_free_region_loop m bits order pos =
     (if pos + 2 ^ order \<le> bits then do {
        (isfree, m) \<leftarrow> c_reg_op m pos order REG_OP_ISFREE;
        if isfree = 0 then find_free_region_loop m bits order (pos + 2 ^ order)
        else do {
          (_, m) \<leftarrow> c_reg_op m pos order REG_OP_ALLOC;
          Some (int pos, m) } }
      else Some (- ENOMEM, m))"
  by pat_completeness auto
termination
  by (relation "measure (\<lambda>(m, bits, order, pos). bits - pos)") (auto simp: diff_pow_less)

declare find_free_region_loop.simps [simp del]

definition bitmap_find_free_region :: "bitmap \<Rightarrow> nat \<Rightarrow> nat \<Rightarrow> (int \<times> bitmap) option" where
  "bitmap_find_free_region m bits order = find_free_region_loop m bits order 0"

definition bitmap_release_region :: "bitmap \<Rightarrow> nat \<Rightarrow> nat \<Rightarrow> bitmap option" where
  "bitmap_release_region m pos order = map_option snd (c_reg_op m pos order REG_OP_RELEASE)"

definition bitmap_allocate_region :: "bitmap \<Rightarrow> nat \<Rightarrow> nat \<Rightarrow> (int \<times> bitmap) option" where
  "bitmap_allocate_region m pos order = do {
     (isfree, m) \<leftarrow> c_reg_op m pos order REG_OP_ISFREE;
     if isfree = 0 then Some (- EBUSY, m)
     else do {
       (_, m) \<leftarrow> c_reg_op m pos order REG_OP_ALLOC;
       Some (0, m) } }"

section \<open>Searching for an area\<close>

partial_function (option) bitmap_find_next_zero_area_off ::
  "bitmap \<Rightarrow> u64 \<Rightarrow> u64 \<Rightarrow> u32 \<Rightarrow> u64 \<Rightarrow> u64 \<Rightarrow> u64 option" where
  "bitmap_find_next_zero_area_off m sz start nr align_mask align_offset = do {
     z \<leftarrow> find_next_zero_bit m (unat sz) (unat start);
     let index = c_ALIGN_MASK (of_nat z + align_offset) align_mask - align_offset;
     let stop = index + ucast nr;
     if stop > sz then Some stop
     else do {
       i \<leftarrow> find_next_bit m (unat stop) (unat index);
       if of_nat i < stop
       then bitmap_find_next_zero_area_off m sz (of_nat i + 1) nr align_mask align_offset
       else Some index } }"

definition bitmap_find_next_zero_area :: "bitmap \<Rightarrow> u64 \<Rightarrow> u64 \<Rightarrow> u32 \<Rightarrow> u64 \<Rightarrow> u64 option" where
  "bitmap_find_next_zero_area m sz start nr align_mask =
     bitmap_find_next_zero_area_off m sz start nr align_mask 0"

section \<open>Ranges\<close>

text \<open>A write that stores \<open>v\<close> in the bits of the mask and leaves the others alone.\<close>

definition writes :: "bool \<Rightarrow> (u64 \<Rightarrow> u64 \<Rightarrow> u64) \<Rightarrow> bool" where
  "writes v f \<longleftrightarrow> (\<forall>w msk i. i < 64 \<longrightarrow> bit (f w msk) i = (if bit msk i then v else bit w i))"

lemma writes_set: "writes True (\<lambda>w msk. w OR msk)"
  by (auto simp: writes_def bit_or_iff)

lemma writes_clear: "writes False (\<lambda>w msk. w AND NOT msk)"
  by (auto simp: writes_def bit_and_iff bit_not_iff)

lemma FIRST_WORD_MASK_aligned: "s mod 64 = 0 \<Longrightarrow> BITMAP_FIRST_WORD_MASK s = NOT 0"
  by (rule bit_word_eqI) (simp add: bit_FIRST_WORD_MASK bit_not_iff)

text \<open>Writing the mask \<open>lo\<close> to \<open>hi\<close> of one word writes that part of the map.\<close>

lemma bm_bit_write:
  assumes "writes v f" "p < length m" "\<And>j. j < 64 \<Longrightarrow> bit msk j \<longleftrightarrow> lo \<le> p * 64 + j \<and> p * 64 + j < hi"
    "p * 64 \<le> lo" "hi \<le> p * 64 + 64"
  shows "bm_bit (m[p := f (m ! p) msk]) i = (if lo \<le> i \<and> i < hi then v else bm_bit m i)"
proof (cases "i div 64 = p")
  case True
  then have i: "p * 64 + i mod 64 = i" by (metis div_mult_mod_eq)
  have "bm_bit m i = bit (m ! p) (i mod 64)" using True by (simp add: bm_bit_def)
  with True i assms(1,2) assms(3) [of "i mod 64"] show ?thesis
    by (simp add: bm_bit_update writes_def)
next
  case False
  have "\<not> (lo \<le> i \<and> i < hi)"
  proof
    assume "lo \<le> i \<and> i < hi"
    then have "p * 64 \<le> i" "i < Suc p * 64" using assms(4,5) by simp_all
    then have "i div 64 = p" by (intro div_nat_eqI) (simp_all add: mult.commute)
    with False show False ..
  qed
  with False assms(2) show ?thesis by (auto simp: bm_bit_update)
qed

lemma div_mod_64E:
  obtains q r where "s div 64 = q" "s mod 64 = r" "q * 64 + r = s" "r < (64 :: nat)"
  by (rule that [OF refl refl]) simp_all

lemma range_loop_done:
  assumes "writes v f" "p = s div 64" "bits = 64 - int (s mod 64)" "msk = BITMAP_FIRST_WORD_MASK s"
    "len = int n" "s + n \<le> 64 * length m"
  shows "\<exists>m' s' n'. range_loop f m p len bits msk = Some (m', s' div 64, int n', BITMAP_FIRST_WORD_MASK s')
     \<and> s \<le> s' \<and> s' + n' = s + n \<and> n' < 64 - s' mod 64 \<and> length m' = length m
     \<and> (\<forall>i. bm_bit m' i = (if s \<le> i \<and> i < s' then v else bm_bit m i))"
  using assms
proof (induction n arbitrary: m p len bits msk s rule: less_induct)
  case (less n)
  obtain q r where qr: "s div 64 = q" "s mod 64 = r" "q * 64 + r = s" "r < 64" by (rule div_mod_64E)
  note P = less.prems [unfolded qr(1,2)]
  show ?case
  proof (cases "n < 64 - r")
    case True
    then have "\<not> 0 \<le> len - bits" using P(3,5) qr(4) by linarith
    then have "range_loop f m p len bits msk = Some (m, p, len, msk)" by (simp add: range_loop.simps)
    with less.prems True qr(2) show ?thesis by (rule_tac exI [of _ m], rule_tac exI [of _ s], rule_tac exI [of _ n]) auto
  next
    case False
    let ?n = "n - (64 - r)" and ?s = "q * 64 + 64"
    have go: "0 \<le> len - bits" "len - bits = int ?n" "s + n = ?s + ?n" "s \<le> ?s" "?n < n"
      using False P(3,5) qr(3,4) by linarith+
    have s': "?s mod 64 = 0" "?s div 64 = q + 1" by simp_all
    have l: "q < length m" using P(6) False qr(3,4) by linarith
    let ?m = "m[q := f (m ! q) msk]"
    have w: "bm_bit ?m i = (if s \<le> i \<and> i < ?s then v else bm_bit m i)" for i
    proof (rule bm_bit_write [OF P(1) l])
      fix j :: nat
      assume "j < 64"
      then show "bit msk j \<longleftrightarrow> s \<le> q * 64 + j \<and> q * 64 + j < ?s"
        unfolding P(4) bit_FIRST_WORD_MASK qr(2) using qr(3) by linarith
    qed (use qr(3) in linarith)+
    obtain m' s2 n' where R: "range_loop f ?m (p + 1) (len - bits) 64 (NOT 0) = Some (m', s2 div 64, int n', BITMAP_FIRST_WORD_MASK s2)"
      "?s \<le> s2" "s2 + n' = ?s + ?n" "n' < 64 - s2 mod 64" "length m' = length ?m"
      "\<forall>i. bm_bit m' i = (if ?s \<le> i \<and> i < s2 then v else bm_bit ?m i)"
      using less.IH [of ?n "p + 1" ?s 64 "NOT 0" "len - bits" ?m] P(1,2,6) s' go
      by (auto simp: FIRST_WORD_MASK_aligned)
    have "range_loop f m p len bits msk = range_loop f ?m (p + 1) (len - bits) 64 (NOT 0)"
      using go l P(2) by (subst range_loop.simps) simp
    with R w go(3,4) show ?thesis
      by (rule_tac exI [of _ m'], rule_tac exI [of _ s2], rule_tac exI [of _ n']) auto
  qed
qed

lemma range_op_bits:
  assumes "writes v f" "s + n \<le> 64 * length m"
  shows "\<exists>m'. range_op f m s (int n) = Some m' \<and> length m' = length m
     \<and> (\<forall>i. bm_bit m' i = (if s \<le> i \<and> i < s + n then v else bm_bit m i))"
proof -
  obtain m1 s1 n1 where R: "range_loop f m (BIT_WORD s) (int n) (64 - int (s mod 64)) (BITMAP_FIRST_WORD_MASK s)
      = Some (m1, s1 div 64, int n1, BITMAP_FIRST_WORD_MASK s1)"
    "s \<le> s1" "s1 + n1 = s + n" "n1 < 64 - s1 mod 64" "length m1 = length m"
    "\<forall>i. bm_bit m1 i = (if s \<le> i \<and> i < s1 then v else bm_bit m i)"
    using range_loop_done [OF assms(1) refl refl refl refl assms(2)] unfolding BIT_WORD_def by blast
  let ?sz = "nat ((int s + int n) mod 2 ^ 32)"
  have sz: "?sz mod 64 = (s1 + n1) mod 64"
  proof -
    have "?sz = (s1 + n1) mod 2 ^ 32" using R(3) by (simp add: nat_mod_distrib flip: of_nat_add)
    moreover have "(64 :: nat) dvd 2 ^ 32" by simp
    ultimately show ?thesis by (simp only: mod_mod_cancel)
  qed
  show ?thesis
  proof (cases "n1 = 0")
    case True
    with R show ?thesis by (simp add: range_op_def)
  next
    case False
    obtain q r where qr: "s1 div 64 = q" "s1 mod 64 = r" "q * 64 + r = s1" "r < 64" by (rule div_mod_64E)
    have l: "q < length m1" using R(3,5) assms(2) False qr(3) by linarith
    let ?msk = "BITMAP_FIRST_WORD_MASK s1 AND BITMAP_LAST_WORD_MASK ?sz"
    have e: "(s1 + n1) mod 64 = r + n1"
      using block_div_mod(2) [of "q * 64" "r + n1"] R(4) qr by (simp add: ac_simps)
    have w: "bm_bit (m1[q := f (m1 ! q) ?msk]) i = (if s1 \<le> i \<and> i < s1 + n1 then v else bm_bit m1 i)" for i
    proof (rule bm_bit_write [OF assms(1) l])
      fix j :: nat
      assume "j < 64"
      then show "bit ?msk j \<longleftrightarrow> s1 \<le> q * 64 + j \<and> q * 64 + j < s1 + n1"
        unfolding bit_and_iff bit_FIRST_WORD_MASK bit_LAST_WORD_MASK sz e qr(2) using qr(3) False by auto
    qed (use qr R(4) in linarith)+
    have "bm_bit (m1[q := f (m1 ! q) ?msk]) i = (if s \<le> i \<and> i < s + n then v else bm_bit m i)" for i
      unfolding w using R(2,3,6) by auto
    with R l False qr(1) show ?thesis by (simp add: range_op_def)
  qed
qed

text \<open>The reference: one bit after the other.\<close>

primrec each_bit :: "(nat \<Rightarrow> bitmap \<Rightarrow> bitmap option) \<Rightarrow> nat list \<Rightarrow> bitmap \<Rightarrow> bitmap option" where
  "each_bit op [] m = Some m"
| "each_bit op (i # is) m = do { m \<leftarrow> op i m; each_bit op is m }"

lemma each_bit_set:
  "\<forall>i \<in> set is. i div 64 < length m \<Longrightarrow>
   \<exists>m'. each_bit c_set_bit is m = Some m' \<and> length m' = length m \<and> (\<forall>i. bm_bit m' i \<longleftrightarrow> i \<in> set is \<or> bm_bit m i)"
proof (induction "is" arbitrary: m)
  case (Cons a "is")
  then show ?case using Cons.IH [of "bm_insert a m"] by (auto simp: single_bit_ops)
qed simp

lemma each_bit_clear:
  "\<forall>i \<in> set is. i div 64 < length m \<Longrightarrow>
   \<exists>m'. each_bit c_clear_bit is m = Some m' \<and> length m' = length m \<and> (\<forall>i. bm_bit m' i \<longleftrightarrow> i \<notin> set is \<and> bm_bit m i)"
proof (induction "is" arbitrary: m)
  case (Cons a "is")
  then show ?case using Cons.IH [of "bm_delete a m"] by (auto simp: single_bit_ops)
qed simp

lemma bitmap_eqI:
  assumes "length m = length m'" "\<And>i. i < 64 * length m \<Longrightarrow> bm_bit m i = bm_bit m' i"
  shows "m = m'"
proof (rule nth_equalityI)
  fix k
  assume k: "k < length m"
  show "m ! k = m' ! k"
  proof (rule bit_word_eqI)
    fix j
    assume "j < LENGTH(64)"
    then have j: "j < 64" by simp
    with k have "k * 64 + j < 64 * length m" by linarith
    from assms(2) [OF this] show "bit (m ! k) j = bit (m' ! k) j"
      using block_div_mod [of "k * 64" j] j by (simp add: bm_bit_def)
  qed
qed (use assms in simp)

section \<open>Comparisons and combinations\<close>

lemma words_bound: "i < bits \<Longrightarrow> BITS_TO_LONGS bits \<le> n \<Longrightarrow> i div 64 < n"
  using BITS_TO_LONGS_bound [of bits "replicate n 0" i] by simp

lemma cmp_loop_eq:
  assumes "lim \<le> length m1" "lim \<le> length m2"
  shows "cmp_loop bad m1 m2 k lim = Some (\<exists>j \<in> {k..<lim}. bad (m1 ! j) (m2 ! j))"
  using assms
proof (induction bad m1 m2 k lim rule: cmp_loop.induct)
  case (1 bad m1 m2 k lim)
  have "k < lim \<Longrightarrow> {k..<lim} = insert k {k + 1..<lim}" by auto
  with 1 show ?case by (subst cmp_loop.simps) auto
qed

text \<open>A word-wise test of a range, the last word masked, is a bit-wise one.\<close>

lemma word_test:
  assumes "\<And>a b j. j < 64 \<Longrightarrow> bit (f a b) j = g (bit a j) (bit b j)"
    and l: "BITS_TO_LONGS bits \<le> length m1" "BITS_TO_LONGS bits \<le> length m2"
  shows "(\<exists>j \<in> {0..<bits div 64}. f (m1 ! j) (m2 ! j) \<noteq> 0)
       \<or> (bits mod 64 \<noteq> 0 \<and> f (m1 ! (bits div 64)) (m2 ! (bits div 64)) AND BITMAP_LAST_WORD_MASK bits \<noteq> 0)
     \<longleftrightarrow> (\<exists>i < bits. g (bm_bit m1 i) (bm_bit m2 i))" (is "?l1 \<or> ?l2 \<longleftrightarrow> ?r")
proof
  obtain q r where qr: "bits div 64 = q" "bits mod 64 = r" "q * 64 + r = bits" "r < 64" by (rule div_mod_64E)
  have b: "bm_bit m (k * 64 + j) = bit (m ! k) j" if "j < 64" for m k j
    using block_div_mod [of "k * 64" j] that by (simp add: bm_bit_def)
  have r: ?r if "k * 64 + j < bits" "j < 64" "bit (f (m1 ! k) (m2 ! k)) j" for k j
    using that b assms(1) by (auto intro!: exI [of _ "k * 64 + j"])
  assume "?l1 \<or> ?l2"
  then show ?r
  proof
    assume ?l1
    then obtain k j where kj: "k < q" "j < 64" "bit (f (m1 ! k) (m2 ! k)) j" using qr by (auto simp: word64_nonzero_bit)
    then have "k * 64 + j < bits" using qr(3) by linarith
    then show ?r using r kj by blast
  next
    assume ?l2
    then obtain j where j: "j < r" "bit (f (m1 ! q) (m2 ! q)) j"
      using qr by (auto simp: word64_nonzero_bit bit_and_iff bit_LAST_WORD_MASK)
    then have "q * 64 + j < bits" "j < 64" using qr(3,4) by linarith+
    then show ?r using r j by blast
  qed
next
  obtain q r where qr: "bits div 64 = q" "bits mod 64 = r" "q * 64 + r = bits" "r < 64" by (rule div_mod_64E)
  assume ?r
  then obtain i where i: "i < bits" "g (bm_bit m1 i) (bm_bit m2 i)" by blast
  obtain k j where kj: "i div 64 = k" "i mod 64 = j" "k * 64 + j = i" "j < 64" by (rule div_mod_64E)
  have f: "bit (f (m1 ! k) (m2 ! k)) j" using assms(1) [OF kj(4)] i(2) kj by (simp add: bm_bit_def)
  show "?l1 \<or> ?l2"
  proof (cases "k < q")
    case True
    with f kj(4) qr(1) show ?thesis by (auto simp: word64_nonzero_bit)
  next
    case False
    then have "k = q" "j < r" using i(1) kj(3,4) qr(3,4) by linarith+
    with f kj(4) qr(1,2) show ?thesis
      by (auto simp: word64_nonzero_bit bit_and_iff bit_LAST_WORD_MASK intro!: exI [of _ j])
  qed
qed

lemma BITS_TO_LONGS_split: "BITS_TO_LONGS n = (if n mod 64 = 0 then n div 64 else Suc (n div 64))"
proof -
  obtain q r where qr: "n div 64 = q" "n mod 64 = r" "q * 64 + r = n" "r < 64" by (rule div_mod_64E)
  have "(n + 63) div 64 = (if r = 0 then q else Suc q)"
    using qr(3,4) by (auto intro!: div_nat_eqI)
  with qr(1,2) show ?thesis by (simp add: BITS_TO_LONGS_def DIV_ROUND_UP_def add.commute)
qed

lemma compare_spec:
  assumes l: "BITS_TO_LONGS bits \<le> length m1" "BITS_TO_LONGS bits \<le> length m2"
  shows "c_bitmap_equal m1 m2 bits = Some (of_bool (\<forall>i < bits. bm_bit m1 i = bm_bit m2 i))"
    and "c_bitmap_intersects m1 m2 bits = Some (of_bool (\<exists>i < bits. bm_bit m1 i \<and> bm_bit m2 i))"
    and "c_bitmap_subset m1 m2 bits = Some (of_bool (\<forall>i < bits. bm_bit m1 i \<longrightarrow> bm_bit m2 i))"
proof -
  have l': "bits div 64 \<le> length m1" "bits div 64 \<le> length m2"
    "bits mod 64 \<noteq> 0 \<Longrightarrow> bits div 64 < length m1" "bits mod 64 \<noteq> 0 \<Longrightarrow> bits div 64 < length m2"
    using l by (auto simp: BITS_TO_LONGS_split split: if_splits)
  have x: "(\<lambda>a b :: u64. a \<noteq> b) = (\<lambda>a b. a XOR b \<noteq> 0)"
    by (intro ext) (simp add: bit_eq_iff [where ?'a = "64 word"] bit_xor_iff)
  note ops = Let_def cmp_loop_eq [OF l'(1,2)]
  have W: "(\<exists>j \<in> {0..<bits div 64}. (m1 ! j) XOR (m2 ! j) \<noteq> 0)
      \<or> (bits mod 64 \<noteq> 0 \<and> (m1 ! (bits div 64) XOR m2 ! (bits div 64)) AND BITMAP_LAST_WORD_MASK bits \<noteq> 0)
      \<longleftrightarrow> (\<exists>i < bits. bm_bit m1 i \<noteq> bm_bit m2 i)" (is "?E \<longleftrightarrow> _")
    by (rule word_test [where f = "\<lambda>a b. a XOR b" and g = "\<lambda>a b. a \<noteq> b", OF _ l]) (simp add: bit_xor_iff)
  have W': "(\<forall>i < bits. bm_bit m1 i = bm_bit m2 i) \<longleftrightarrow> \<not> ?E" unfolding W by blast
  show "c_bitmap_equal m1 m2 bits = Some (of_bool (\<forall>i < bits. bm_bit m1 i = bm_bit m2 i))"
    unfolding W' by (cases "bits mod 64 = 0") (simp_all add: c_bitmap_equal_def x ops l'(3,4))
  have W: "(\<exists>j \<in> {0..<bits div 64}. (m1 ! j) AND (m2 ! j) \<noteq> 0)
      \<or> (bits mod 64 \<noteq> 0 \<and> (m1 ! (bits div 64) AND m2 ! (bits div 64)) AND BITMAP_LAST_WORD_MASK bits \<noteq> 0)
      \<longleftrightarrow> (\<exists>i < bits. bm_bit m1 i \<and> bm_bit m2 i)"
    by (rule word_test [where f = "\<lambda>a b. a AND b" and g = "\<lambda>a b. a \<and> b", OF _ l]) (simp add: bit_and_iff)
  note W' = W [symmetric]
  show "c_bitmap_intersects m1 m2 bits = Some (of_bool (\<exists>i < bits. bm_bit m1 i \<and> bm_bit m2 i))"
    unfolding W' by (cases "bits mod 64 = 0") (simp_all add: c_bitmap_intersects_def ops l'(3,4))
  have W: "(\<exists>j \<in> {0..<bits div 64}. (m1 ! j) AND NOT (m2 ! j) \<noteq> 0)
      \<or> (bits mod 64 \<noteq> 0 \<and> (m1 ! (bits div 64) AND NOT (m2 ! (bits div 64))) AND BITMAP_LAST_WORD_MASK bits \<noteq> 0)
      \<longleftrightarrow> (\<exists>i < bits. bm_bit m1 i \<and> \<not> bm_bit m2 i)" (is "?S \<longleftrightarrow> _")
    by (rule word_test [where f = "\<lambda>a b. a AND NOT b" and g = "\<lambda>a b. a \<and> \<not> b", OF _ l])
      (simp add: bit_and_iff bit_not_iff)
  have W': "(\<forall>i < bits. bm_bit m1 i \<longrightarrow> bm_bit m2 i) \<longleftrightarrow> \<not> ?S" unfolding W by blast
  show "c_bitmap_subset m1 m2 bits = Some (of_bool (\<forall>i < bits. bm_bit m1 i \<longrightarrow> bm_bit m2 i))"
    unfolding W' by (cases "bits mod 64 = 0") (simp_all add: c_bitmap_subset_def ops l'(3,4))
qed

lemma combine_loop_words:
  assumes "lim \<le> length m1" "lim \<le> length m2" "lim \<le> length dst"
  shows "\<exists>r dst'. combine_loop f dst m1 m2 k lim result = Some (r, dst') \<and> length dst' = length dst
     \<and> (\<forall>j < length dst. dst' ! j = (if k \<le> j \<and> j < lim then f (m1 ! j) (m2 ! j) else dst ! j))
     \<and> (r \<noteq> 0 \<longleftrightarrow> result \<noteq> 0 \<or> (\<exists>j \<in> {k..<lim}. f (m1 ! j) (m2 ! j) \<noteq> 0))"
  using assms
proof (induction f dst m1 m2 k lim result rule: combine_loop.induct)
  case (1 f dst m1 m2 k lim result)
  show ?case
  proof (cases "k < lim")
    case True
    then have u: "{k..<lim} = insert k {k + 1..<lim}" by auto
    let ?w = "f (m1 ! k) (m2 ! k)"
    obtain r dst' where R: "combine_loop f (dst[k := ?w]) m1 m2 (k + 1) lim (result OR ?w) = Some (r, dst')"
      "length dst' = length dst"
      "\<forall>j < length dst. dst' ! j = (if k + 1 \<le> j \<and> j < lim then f (m1 ! j) (m2 ! j) else dst[k := ?w] ! j)"
      "r \<noteq> 0 \<longleftrightarrow> result OR ?w \<noteq> 0 \<or> (\<exists>j \<in> {k + 1..<lim}. f (m1 ! j) (m2 ! j) \<noteq> 0)"
      using 1(1) [of "m1 ! k" "m2 ! k" "dst[k := ?w]"] 1(2-) True by auto
    have "combine_loop f dst m1 m2 k lim result = Some (r, dst')"
      using R(1) 1(2-) True by (subst combine_loop.simps) simp
    moreover have "\<forall>j < length dst. dst' ! j = (if k \<le> j \<and> j < lim then f (m1 ! j) (m2 ! j) else dst ! j)"
      using R(3) True by (auto simp: nth_list_update Suc_le_eq)
    moreover have "r \<noteq> 0 \<longleftrightarrow> result \<noteq> 0 \<or> (\<exists>j \<in> {k..<lim}. f (m1 ! j) (m2 ! j) \<noteq> 0)"
      unfolding R(4) u or_eq_0_iff by auto
    ultimately show ?thesis using R(2) by blast
  qed (auto simp: combine_loop.simps)
qed

lemma combine_bits:
  assumes f: "\<And>a b j. j < 64 \<Longrightarrow> bit (f a b) j = g (bit a j) (bit b j)"
    and l: "BITS_TO_LONGS bits \<le> length m1" "BITS_TO_LONGS bits \<le> length m2" "BITS_TO_LONGS bits \<le> length dst"
  shows "\<exists>dst'. combine f dst m1 m2 bits = Some (of_bool (\<exists>i < bits. g (bm_bit m1 i) (bm_bit m2 i)), dst')
     \<and> length dst' = length dst \<and> (\<forall>i < bits. bm_bit dst' i = g (bm_bit m1 i) (bm_bit m2 i))"
proof -
  obtain q r where qr: "bits div 64 = q" "bits mod 64 = r" "q * 64 + r = bits" "r < 64" by (rule div_mod_64E)
  have l': "q \<le> length m1" "q \<le> length m2" "q \<le> length dst"
    "r \<noteq> 0 \<Longrightarrow> q < length m1" "r \<noteq> 0 \<Longrightarrow> q < length m2" "r \<noteq> 0 \<Longrightarrow> q < length dst"
    using l qr(1,2) by (auto simp: BITS_TO_LONGS_split split: if_splits)
  obtain res d where R: "combine_loop f dst m1 m2 0 q 0 = Some (res, d)" "length d = length dst"
    "\<forall>j < length dst. d ! j = (if 0 \<le> j \<and> j < q then f (m1 ! j) (m2 ! j) else dst ! j)"
    "res \<noteq> 0 \<longleftrightarrow> 0 \<noteq> (0 :: u64) \<or> (\<exists>j \<in> {0..<q}. f (m1 ! j) (m2 ! j) \<noteq> 0)"
    using combine_loop_words [OF l'(1-3), of f 0 0] by blast
  let ?w = "f (m1 ! q) (m2 ! q) AND BITMAP_LAST_WORD_MASK bits"
  let ?d = "if r = 0 then d else d[q := ?w]"
  have any: "res \<noteq> 0 \<or> (r \<noteq> 0 \<and> ?w \<noteq> 0) \<longleftrightarrow> (\<exists>i < bits. g (bm_bit m1 i) (bm_bit m2 i))"
    using word_test [of f g, OF f l(1,2), unfolded qr(1,2)] R(4) by blast
  have "bm_bit ?d i = g (bm_bit m1 i) (bm_bit m2 i)" if i: "i < bits" for i
  proof -
    obtain k j where kj: "i div 64 = k" "i mod 64 = j" "k * 64 + j = i" "j < 64" by (rule div_mod_64E)
    show ?thesis
    proof (cases "k < q")
      case True
      then have "?d ! k = f (m1 ! k) (m2 ! k)" using R(3) l'(3) by auto
      with f kj show ?thesis by (simp add: bm_bit_def)
    next
      case False
      then have "k = q" "j < r" using i kj(3,4) qr(3,4) by linarith+
      moreover from this have "?d ! k = ?w" using R(2) l'(6) by auto
      ultimately show ?thesis using f kj qr(2) by (auto simp: bm_bit_def bit_and_iff bit_LAST_WORD_MASK)
    qed
  qed
  moreover have "combine f dst m1 m2 bits = Some (of_bool (res \<noteq> 0 \<or> (r \<noteq> 0 \<and> ?w \<noteq> 0)), ?d)"
    using R(1,2) l' by (simp add: combine_def Let_def qr(1,2) or_eq_0_iff)
  ultimately show ?thesis unfolding any using R(2) by (intro exI [of _ ?d]) simp
qed

lemma c_bitmap_and_bits:
  assumes l: "BITS_TO_LONGS bits \<le> length m1" "BITS_TO_LONGS bits \<le> length m2" "BITS_TO_LONGS bits \<le> length dst"
  shows "\<exists>dst'. c_bitmap_and dst m1 m2 bits = Some (of_bool (\<exists>i < bits. bm_bit m1 i \<and> bm_bit m2 i), dst')
     \<and> length dst' = length dst \<and> (\<forall>i < bits. bm_bit dst' i \<longleftrightarrow> bm_bit m1 i \<and> bm_bit m2 i)"
    "\<exists>dst'. c_bitmap_andnot dst m1 m2 bits = Some (of_bool (\<exists>i < bits. bm_bit m1 i \<and> \<not> bm_bit m2 i), dst')
     \<and> length dst' = length dst \<and> (\<forall>i < bits. bm_bit dst' i \<longleftrightarrow> bm_bit m1 i \<and> \<not> bm_bit m2 i)"
  unfolding c_bitmap_and_def c_bitmap_andnot_def
  by (rule combine_bits [where g = "\<lambda>a b. a \<and> b"]; simp add: l bit_and_iff)
    (rule combine_bits [where g = "\<lambda>a b. a \<and> \<not> b"]; simp add: l bit_and_iff bit_not_iff)

lemma c_bitmap_or_bits:
  assumes l: "BITS_TO_LONGS bits \<le> length m1" "BITS_TO_LONGS bits \<le> length m2" "BITS_TO_LONGS bits \<le> length dst"
  shows "\<exists>dst'. c_bitmap_or dst m1 m2 bits = Some dst' \<and> length dst' = length dst
     \<and> (\<forall>i < bits. bm_bit dst' i \<longleftrightarrow> bm_bit m1 i \<or> bm_bit m2 i)"
proof -
  obtain res d where R: "combine_loop (\<lambda>a b. a OR b) dst m1 m2 0 (BITS_TO_LONGS bits) 0 = Some (res, d)" "length d = length dst"
    "\<forall>j < length dst. d ! j = (if 0 \<le> j \<and> j < BITS_TO_LONGS bits then m1 ! j OR m2 ! j else dst ! j)"
    using combine_loop_words [OF l, of "\<lambda>a b. a OR b" 0 0] by blast
  have "bm_bit d i \<longleftrightarrow> bm_bit m1 i \<or> bm_bit m2 i" if "i < bits" for i
    using R(3) l(3) words_bound [OF that order.refl] by (simp add: bm_bit_def bit_or_iff)
  with R(1,2) show ?thesis by (simp add: c_bitmap_or_def)
qed

lemma bitmap_empty_full:
  assumes "BITS_TO_LONGS n \<le> length m"
  shows "bitmap_empty m n = Some (\<forall>i < n. \<not> bm_bit m i)" "bitmap_full m n = Some (\<forall>i < n. bm_bit m i)"
  using find_first_bit_first [OF assms] find_first_zero_bit_first [OF assms]
  by (simp_all add: bitmap_empty_def bitmap_full_def first_from_eq_n)

lemma bitmap_zero_fill_copy:
  assumes l: "BITS_TO_LONGS n \<le> length dst"
  shows "\<exists>dst'. bitmap_zero dst n = Some dst' \<and> length dst' = length dst \<and> (\<forall>i < n. \<not> bm_bit dst' i)"
    and "0 < n \<Longrightarrow> \<exists>dst'. bitmap_fill dst n = Some dst' \<and> length dst' = length dst \<and> (\<forall>i < n. bm_bit dst' i)"
    and "BITS_TO_LONGS n \<le> length src \<Longrightarrow>
      \<exists>dst'. bitmap_copy dst src n = Some dst' \<and> length dst' = length dst \<and> (\<forall>i < n. bm_bit dst' i = bm_bit src i)"
proof -
  let ?k = "BITS_TO_LONGS n"
  note w = words_bound [OF _ order.refl, of _ n]
  show "\<exists>dst'. bitmap_zero dst n = Some dst' \<and> length dst' = length dst \<and> (\<forall>i < n. \<not> bm_bit dst' i)"
    using l w by (auto simp: bitmap_zero_def Let_def bm_bit_def nth_append)
  show "\<exists>dst'. bitmap_copy dst src n = Some dst' \<and> length dst' = length dst \<and> (\<forall>i < n. bm_bit dst' i = bm_bit src i)"
    if "BITS_TO_LONGS n \<le> length src"
    using l w that by (auto simp: bitmap_copy_def Let_def bm_bit_def nth_append)
  show "\<exists>dst'. bitmap_fill dst n = Some dst' \<and> length dst' = length dst \<and> (\<forall>i < n. bm_bit dst' i)" if "0 < n"
  proof -
    have k: "?k \<noteq> 0" using w [OF that] by simp
    let ?d = "replicate (?k - 1) (NOT 0) @ drop (?k - 1) dst"
    let ?e = "?d[?k - 1 := BITMAP_LAST_WORD_MASK n]"
    have "bm_bit ?e i" if i: "i < n" for i
    proof (cases "i div 64 = ?k - 1")
      case True
      obtain q r where qr: "n div 64 = q" "n mod 64 = r" "q * 64 + r = n" "r < 64" by (rule div_mod_64E)
      obtain a b where ab: "i div 64 = a" "i mod 64 = b" "a * 64 + b = i" "b < 64" by (rule div_mod_64E)
      have "b < (if r = 0 then 64 else r)"
        using True i k qr ab by (auto simp: BITS_TO_LONGS_split split: if_splits)
      with True l k qr(2) ab(2) show ?thesis by (auto simp: bm_bit_def bit_LAST_WORD_MASK)
    next
      case False
      with w [OF i] have "i div 64 < ?k - 1" by linarith
      with False l k show ?thesis by (simp add: bm_bit_def nth_append bit_not_iff)
    qed
    with l k show ?thesis by (intro exI [of _ ?e]) (simp add: bitmap_fill_def Let_def)
  qed
qed

section \<open>Regions\<close>

lemma reg_mask_bit: "0 < n \<Longrightarrow> n \<le> 64 \<Longrightarrow> bit (reg_mask n off) j \<longleftrightarrow> off \<le> j \<and> j < off + n \<and> j < 64"
proof -
  assume n: "0 < n" "n \<le> 64"
  have "push_bit (n - 1) 1 + (push_bit (n - 1) 1 - 1) = (2 * 2 ^ (n - 1) - 1 :: u64)"
    by (simp add: push_bit_eq_mult)
  also have "2 * 2 ^ (n - 1) = (2 ^ n :: u64)" using n(1) by (simp flip: power_Suc)
  also have "(2 ^ n - 1 :: u64) = mask n" by (simp add: mask_eq_exp_minus_1)
  finally show ?thesis by (auto simp: reg_mask_def Let_def bit_push_bit_iff Word.bit_mask_iff)
qed

lemma reg_isfree_loop_eq:
  "index + n \<le> length m \<Longrightarrow>
   reg_isfree_loop m index msk n = Some (of_bool (\<forall>k. index \<le> k \<and> k < index + n \<longrightarrow> m ! k AND msk = 0))"
proof (induction n arbitrary: index)
  case (Suc n)
  have "(\<forall>k. index \<le> k \<and> k < index + Suc n \<longrightarrow> P k) \<longleftrightarrow> P index \<and> (\<forall>k. index + 1 \<le> k \<and> k < index + 1 + n \<longrightarrow> P k)" for P
    by (metis Suc_eq_plus1 Suc_leI add_Suc add_Suc_right le_add1 le_less_trans less_add_Suc1 nat_less_le order.refl Suc_leD)
  with Suc.IH [of "index + 1"] Suc.prems show ?case by auto
qed auto

lemma reg_write_loop_eq:
  "index + n \<le> length m \<Longrightarrow>
   \<exists>m'. reg_write_loop f m index n = Some m' \<and> length m' = length m
     \<and> (\<forall>k. m' ! k = (if index \<le> k \<and> k < index + n then f (m ! k) else m ! k))"
proof (induction n arbitrary: index m)
  case (Suc n)
  obtain m' where R: "reg_write_loop f (m[index := f (m ! index)]) (index + 1) n = Some m'" "length m' = length m"
    "\<forall>k. m' ! k = (if index + 1 \<le> k \<and> k < index + 1 + n then f (m[index := f (m ! index)] ! k) else m[index := f (m ! index)] ! k)"
    using Suc.IH [of "index + 1" "m[index := f (m ! index)]"] Suc.prems by auto
  have "m' ! k = (if index \<le> k \<and> k < index + Suc n then f (m ! k) else m ! k)" for k
    using R(3) Suc.prems by (cases "k = index") (auto simp: nth_list_update)
  with R(1,2) Suc.prems show ?case by simp
qed auto

text \<open>The words and the mask of an aligned region cover exactly its bits.\<close>

lemma region_bits:
  assumes "2 ^ order dvd pos"
  defines "n \<equiv> 2 ^ order"
  shows "(pos div 64 \<le> i div 64 \<and> i div 64 < pos div 64 + BITS_TO_LONGS n
      \<and> bit (reg_mask (min n 64) (pos - pos div 64 * 64)) (i mod 64)) \<longleftrightarrow> pos \<le> i \<and> i < pos + n"
    and "pos + n \<le> 64 * l \<Longrightarrow> pos div 64 + BITS_TO_LONGS n \<le> l"
proof -
  obtain q off where qo: "pos div 64 = q" "pos mod 64 = off" "q * 64 + off = pos" "off < 64" by (rule div_mod_64E)
  obtain a b where ab: "i div 64 = a" "i mod 64 = b" "a * 64 + b = i" "b < 64" by (rule div_mod_64E)
  have o: "pos - q * 64 = off" using qo(3) by linarith
  have n: "0 < n" by (simp add: n_def)
  have "(\<exists>k. n * k = 64 \<and> k \<noteq> 0) \<or> (\<exists>k. n = 64 * k \<and> k \<noteq> 0)"
  proof (cases "order \<le> 6")
    case True
    then have "(2 :: nat) ^ order * 2 ^ (6 - order) = 2 ^ 6" by (simp flip: power_add)
    then show ?thesis unfolding n_def by (intro disjI1 exI [of _ "2 ^ (6 - order)"]) simp
  next
    case False
    then have "(2 :: nat) ^ order = 2 ^ 6 * 2 ^ (order - 6)" by (simp only: le_add_diff_inverse flip: power_add)
    then show ?thesis unfolding n_def by (intro disjI2 exI [of _ "2 ^ (order - 6)"]) simp
  qed
  then consider (small) k where "n * k = 64" "k \<noteq> 0" | (big) k where "n = 64 * k" "k \<noteq> 0" by blast
  then have "((q \<le> a \<and> a < q + BITS_TO_LONGS n \<and> bit (reg_mask (min n 64) off) b) \<longleftrightarrow> pos \<le> i \<and> i < pos + n)
     \<and> (pos + n \<le> 64 * l \<longrightarrow> q + BITS_TO_LONGS n \<le> l)"
  proof cases
    case small
    have "n dvd pos" using assms(1) by (simp add: n_def)
    moreover have "n dvd 64" using small(1) by (metis dvd_triv_left)
    ultimately have "n dvd off" using qo(2) by (metis dvd_mod)
    then obtain c where c: "off = n * c" by blast
    have "n * c < n * k" using c qo(4) small(1) by simp
    then have "c + 1 \<le> k" using n by simp
    then have "n * (c + 1) \<le> n * k" by (rule mult_le_mono2)
    then have f: "off + n \<le> 64" "n \<le> 64" using c small(1) by simp_all
    have "BITS_TO_LONGS n = 1" using f(2) n by (cases "n = 64") (simp_all add: BITS_TO_LONGS_split)
    moreover have "a = q" if "pos \<le> i" "i < pos + n" using that f qo(3,4) ab(3,4) by linarith
    then have "q \<le> a \<and> a < q + 1 \<and> (off \<le> b \<and> b < off + n) \<longleftrightarrow> pos \<le> i \<and> i < pos + n"
      using qo(3) ab(3) by auto
    ultimately show ?thesis using n f ab(4) qo(3) by (auto simp: reg_mask_bit)
  next
    case big
    then have "64 dvd pos" using assms(1) dvd_mult_left [of 64 k pos] by (simp add: n_def)
    then have z: "off = 0" using qo(2) by auto
    have "BITS_TO_LONGS n = k" "64 \<le> n" using big by (simp_all add: BITS_TO_LONGS_split)
    then show ?thesis using z qo(3) ab(3,4) big by (auto simp: reg_mask_bit min_def)
  qed
  then show "(pos div 64 \<le> i div 64 \<and> i div 64 < pos div 64 + BITS_TO_LONGS n
      \<and> bit (reg_mask (min n 64) (pos - pos div 64 * 64)) (i mod 64)) \<longleftrightarrow> pos \<le> i \<and> i < pos + n"
    "pos + n \<le> 64 * l \<Longrightarrow> pos div 64 + BITS_TO_LONGS n \<le> l"
    unfolding qo(1) ab(1,2) o by blast+
qed

text \<open>The three operations on an aligned region inside the map.\<close>

lemma c_reg_op_eq:
  assumes "2 ^ order dvd pos" "pos + 2 ^ order \<le> 64 * length m"
  shows "c_reg_op m pos order REG_OP_ISFREE
      = Some (of_bool (\<forall>i. pos \<le> i \<and> i < pos + 2 ^ order \<longrightarrow> \<not> bm_bit m i), m)"
    and "\<exists>m'. c_reg_op m pos order REG_OP_ALLOC = Some (0, m') \<and> length m' = length m
      \<and> (\<forall>i. bm_bit m' i \<longleftrightarrow> (pos \<le> i \<and> i < pos + 2 ^ order) \<or> bm_bit m i)"
    and "\<exists>m'. c_reg_op m pos order REG_OP_RELEASE = Some (0, m') \<and> length m' = length m
      \<and> (\<forall>i. bm_bit m' i \<longleftrightarrow> \<not> (pos \<le> i \<and> i < pos + 2 ^ order) \<and> bm_bit m i)"
proof -
  let ?n = "2 ^ order :: nat"
  let ?msk = "reg_mask (min ?n 64) (pos - pos div 64 * 64)" and ?k = "pos div 64" and ?c = "BITS_TO_LONGS ?n"
  note rb = region_bits(1) [OF assms(1), symmetric] and l = region_bits(2) [OF assms]
  have "(\<forall>k. ?k \<le> k \<and> k < ?k + ?c \<longrightarrow> m ! k AND ?msk = 0) \<longleftrightarrow> (\<forall>i. pos \<le> i \<and> i < pos + ?n \<longrightarrow> \<not> bm_bit m i)" (is "?L \<longleftrightarrow> ?R")
  proof
    assume L: ?L
    show ?R
    proof (intro allI impI)
      fix i
      assume i: "pos \<le> i \<and> i < pos + ?n"
      then have "m ! (i div 64) AND ?msk = 0" "bit ?msk (i mod 64)" using L unfolding rb by blast+
      moreover have "bit (m ! (i div 64) AND ?msk) (i mod 64) \<longleftrightarrow> bm_bit m i \<and> bit ?msk (i mod 64)"
        by (simp add: bit_and_iff bm_bit_def)
      ultimately show "\<not> bm_bit m i" by simp
    qed
  next
    assume R: ?R
    show ?L
    proof (intro allI impI bit_word_eqI)
      fix k j
      assume k: "?k \<le> k \<and> k < ?k + ?c" and "j < LENGTH(64)"
      then have j: "(k * 64 + j) div 64 = k" "(k * 64 + j) mod 64 = j" using block_div_mod [of "k * 64" j] by simp_all
      have "bit (m ! k) j \<and> bit ?msk j \<Longrightarrow> False"
        using R rb [of "k * 64 + j"] k j by (auto simp: bm_bit_def)
      then show "bit (m ! k AND ?msk) j = bit 0 j" by (auto simp: bit_and_iff)
    qed
  qed
  with l show "c_reg_op m pos order REG_OP_ISFREE
      = Some (of_bool (\<forall>i. pos \<le> i \<and> i < pos + ?n \<longrightarrow> \<not> bm_bit m i), m)"
    by (simp add: c_reg_op_def Let_def reg_isfree_loop_eq)
  have W: "bit (if ?k \<le> i div 64 \<and> i div 64 < ?k + ?c then f (m ! (i div 64)) ?msk else m ! (i div 64)) (i mod 64)
      = (if pos \<le> i \<and> i < pos + ?n then v else bm_bit m i)" if "writes v f" for v f i
    using that unfolding rb writes_def bm_bit_def by simp
  obtain m' where R: "reg_write_loop (\<lambda>w. w OR ?msk) m ?k ?c = Some m'" "length m' = length m"
    "\<forall>k. m' ! k = (if ?k \<le> k \<and> k < ?k + ?c then m ! k OR ?msk else m ! k)"
    using reg_write_loop_eq [OF l, of "\<lambda>w. w OR ?msk"] by blast
  have "bm_bit m' i \<longleftrightarrow> (pos \<le> i \<and> i < pos + ?n) \<or> bm_bit m i" for i
    using W [OF writes_set, of i] unfolding bm_bit_def [of m'] R(3) [rule_format] by auto
  with R(1,2) show "\<exists>m'. c_reg_op m pos order REG_OP_ALLOC = Some (0, m') \<and> length m' = length m
      \<and> (\<forall>i. bm_bit m' i \<longleftrightarrow> (pos \<le> i \<and> i < pos + ?n) \<or> bm_bit m i)"
    by (simp add: c_reg_op_def Let_def)
  obtain m' where R: "reg_write_loop (\<lambda>w. w AND NOT ?msk) m ?k ?c = Some m'" "length m' = length m"
    "\<forall>k. m' ! k = (if ?k \<le> k \<and> k < ?k + ?c then m ! k AND NOT ?msk else m ! k)"
    using reg_write_loop_eq [OF l, of "\<lambda>w. w AND NOT ?msk"] by blast
  have "bm_bit m' i \<longleftrightarrow> \<not> (pos \<le> i \<and> i < pos + ?n) \<and> bm_bit m i" for i
    using W [OF writes_clear, of i] unfolding bm_bit_def [of m'] R(3) [rule_format] by auto
  with R(1,2) show "\<exists>m'. c_reg_op m pos order REG_OP_RELEASE = Some (0, m') \<and> length m' = length m
      \<and> (\<forall>i. bm_bit m' i \<longleftrightarrow> \<not> (pos \<le> i \<and> i < pos + ?n) \<and> bm_bit m i)"
    by (simp add: c_reg_op_def Let_def)
qed

abbreviation region_free :: "bitmap \<Rightarrow> nat \<Rightarrow> nat \<Rightarrow> bool" where
  "region_free m pos n \<equiv> \<forall>i. pos \<le> i \<and> i < pos + n \<longrightarrow> \<not> bm_bit m i"

lemma find_free_region_loop_eq:
  assumes "2 ^ order dvd pos" "bits \<le> 64 * length m"
    "\<And>p. 2 ^ order dvd p \<Longrightarrow> p < pos \<Longrightarrow> \<not> region_free m p (2 ^ order)"
  shows "(find_free_region_loop m bits order pos = Some (- ENOMEM, m)
       \<and> (\<forall>p. 2 ^ order dvd p \<and> p + 2 ^ order \<le> bits \<longrightarrow> \<not> region_free m p (2 ^ order)))
     \<or> (\<exists>p m'. find_free_region_loop m bits order pos = Some (int p, m') \<and> 2 ^ order dvd p \<and> p + 2 ^ order \<le> bits
       \<and> region_free m p (2 ^ order) \<and> (\<forall>p' < p. 2 ^ order dvd p' \<longrightarrow> \<not> region_free m p' (2 ^ order))
       \<and> length m' = length m \<and> (\<forall>i. bm_bit m' i \<longleftrightarrow> (p \<le> i \<and> i < p + 2 ^ order) \<or> bm_bit m i))"
  using assms
proof (induction m bits order pos rule: find_free_region_loop.induct)
  case (1 m bits order pos)
  let ?n = "2 ^ order :: nat"
  have step: "p \<le> pos" if "?n dvd p" "p < pos + ?n" for p
  proof -
    from that(1) 1(2) obtain a b where "p = ?n * a" "pos = ?n * b" by (meson dvdE)
    with that(2) have "?n * a < ?n * (b + 1)" by simp
    then have "a < b + 1" by (rule mult_less_cancel1 [THEN iffD1, THEN conjunct2])
    with \<open>p = _\<close> \<open>pos = _\<close> show ?thesis by simp
  qed
  show ?case
  proof (cases "pos + ?n \<le> bits")
    case True
    with 1(3) have l: "pos + ?n \<le> 64 * length m" by linarith
    note op = c_reg_op_eq [OF 1(2) l]
    show ?thesis
    proof (cases "region_free m pos ?n")
      case free: True
      obtain m' where "c_reg_op m pos order REG_OP_ALLOC = Some (0, m')" "length m' = length m"
        "\<forall>i. bm_bit m' i \<longleftrightarrow> (pos \<le> i \<and> i < pos + ?n) \<or> bm_bit m i" using op(2) by blast
      moreover from this have "find_free_region_loop m bits order pos = Some (int pos, m')"
        using True free op(1) by (subst find_free_region_loop.simps) simp
      ultimately show ?thesis using 1(2,4) True free by blast
    next
      case False
      have "find_free_region_loop m bits order pos = find_free_region_loop m bits order (pos + ?n)"
        using True False op(1) by (subst find_free_region_loop.simps) auto
      moreover have "\<not> region_free m p ?n" if "?n dvd p" "p < pos + ?n" for p
        using 1(4) that step [OF that] False by (cases "p = pos") (blast, auto)
      ultimately show ?thesis
        using 1(1) [OF True, of "(0, m)" 0 m] op(1) 1(2,3) False by simp
    qed
  next
    case False
    have "\<not> region_free m p ?n" if "?n dvd p" "p + ?n \<le> bits" for p
    proof -
      have "p < pos" using that(2) False by linarith
      with 1(4) that(1) show ?thesis by blast
    qed
    with False show ?thesis by (simp add: find_free_region_loop.simps)
  qed
qed

section \<open>Areas\<close>

lemma unat_and_not_mask: "unat (w AND NOT (mask k)) = unat w div 2 ^ k * 2 ^ k" for w :: "'a::len word"
proof -
  have "w AND NOT (mask k) = push_bit k (drop_bit k w)"
    by (rule bit_word_eqI) (auto simp: bit_and_iff bit_not_iff Word.bit_mask_iff bit_push_bit_iff bit_drop_bit_eq)
  also have "\<dots> = w - take_bit k w" using bits_ident [of k w] by (metis add_diff_cancel_right')
  finally have e: "w AND NOT (mask k) = w - take_bit k w" .
  have t: "unat (take_bit k w) = unat w mod 2 ^ k" by (simp only: unsigned_take_bit_eq) (simp add: take_bit_eq_mod)
  then have "take_bit k w \<le> w" by (simp add: word_le_nat_alt)
  then show ?thesis unfolding e using t by (simp add: unat_sub minus_mod_eq_div_mult)
qed

lemma unat_ALIGN_MASK:
  assumes "k < 64" "unat x + 2 ^ k \<le> 2 ^ 64"
  shows "unat (c_ALIGN_MASK x (2 ^ k - 1)) = (unat x + (2 ^ k - 1)) div 2 ^ k * 2 ^ k"
proof -
  have m: "(2 ^ k - 1 :: u64) = mask k" by (simp add: mask_eq_exp_minus_1)
  have "(2 :: nat) ^ k < 2 ^ 64" using assms(1) by (rule power_strict_increasing) simp
  then have "unat (2 ^ k :: u64) = 2 ^ k" using unat_of_nat [of "2 ^ k", where ?'a = 64] by simp
  then have "unat (mask k :: u64) = 2 ^ k - 1" using assms(1) by (simp add: mask_eq_exp_minus_1 unat_minus_one)
  moreover have "0 < (2 :: nat) ^ k" by simp
  ultimately have "unat (x + mask k) = unat x + (2 ^ k - 1)"
    using assms(2) by (subst unat_add_lem [THEN iffD1]) simp_all
  then show ?thesis by (simp add: c_ALIGN_MASK_def m unat_and_not_mask)
qed

lemma round_up_nat:
  fixes x d :: nat
  assumes "0 < d"
  defines "r \<equiv> (x + (d - 1)) div d * d"
  shows "x \<le> r" "r < x + d" "d dvd r" "d dvd y \<Longrightarrow> x \<le> y \<Longrightarrow> r \<le> y"
proof -
  have e: "r + (x + (d - 1)) mod d = x + (d - 1)" unfolding r_def by (rule div_mult_mod_eq)
  have m: "(x + (d - 1)) mod d < d" using assms(1) by simp
  show x: "x \<le> r" "r < x + d" using e m assms(1) by linarith+
  show d: "d dvd r" by (simp add: r_def)
  show "r \<le> y" if "d dvd y" "x \<le> y"
  proof (rule ccontr)
    assume "\<not> r \<le> y"
    with d that(1) obtain a b where ab: "r = d * a" "y = d * b" "b < a" by (auto elim!: dvdE)
    then have "d * (b + 1) \<le> d * a" by (intro mult_le_mono2) simp
    with ab(1,2) x(2) that(2) show False by simp
  qed
qed

text \<open>A free area of \<open>n\<close> bits that starts at \<open>p\<close>, with \<open>p\<close> plus the offset aligned.\<close>

definition area_at :: "bitmap \<Rightarrow> nat \<Rightarrow> nat \<Rightarrow> nat \<Rightarrow> nat \<Rightarrow> bool" where
  "area_at m k off n p \<longleftrightarrow> 2 ^ k dvd p + off \<and> region_free m p n"

text \<open>What a search from \<open>s\<close> in \<open>sz\<close> bits has to return: the first area, or a number above \<open>sz\<close> if there is none.\<close>

definition first_area :: "bitmap \<Rightarrow> nat \<Rightarrow> nat \<Rightarrow> nat \<Rightarrow> nat \<Rightarrow> nat \<Rightarrow> nat \<Rightarrow> bool" where
  "first_area m k off n sz s r \<longleftrightarrow>
     (if r \<le> sz
      then s \<le> r \<and> r + n \<le> sz \<and> area_at m k off n r \<and> (\<forall>p. s \<le> p \<and> p < r \<longrightarrow> \<not> area_at m k off n p)
      else (\<forall>p. s \<le> p \<and> p + n \<le> sz \<longrightarrow> \<not> area_at m k off n p))"

lemma first_area_later:
  assumes "first_area m k off n sz s' r" "s \<le> s'"
    "\<And>p. s \<le> p \<Longrightarrow> p < s' \<Longrightarrow> p + n \<le> sz \<Longrightarrow> \<not> area_at m k off n p"
  shows "first_area m k off n sz s r"
proof (cases "r \<le> sz")
  case True
  then have r: "s' \<le> r" "r + n \<le> sz" "area_at m k off n r" "\<forall>p. s' \<le> p \<and> p < r \<longrightarrow> \<not> area_at m k off n p"
    using assms(1) by (simp_all add: first_area_def)
  have "\<not> area_at m k off n p" if "s \<le> p" "p < r" for p
    using r(2,4) that assms(3) [of p] by (cases "p < s'") auto
  with True r assms(2) show ?thesis by (simp add: first_area_def)
next
  case False
  then have "\<not> area_at m k off n p" if "s \<le> p" "p + n \<le> sz" for p
    using assms(1) that assms(3) [of p] by (cases "p < s'") (auto simp: first_area_def)
  with False show ?thesis by (simp add: first_area_def)
qed

lemma find_next_zero_area_ok:
  assumes l: "BITS_TO_LONGS (unat sz) \<le> length m" and nr: "nr \<noteq> 0" and k: "k < 64"
    and no_wrap: "unat sz + unat nr + unat off + 2 ^ k \<le> 2 ^ 64"
  shows "\<exists>r. bitmap_find_next_zero_area_off m sz start nr (2 ^ k - 1) off = Some r
     \<and> first_area m k (unat off) (unat nr) (unat sz) (unat start) (unat r)"
proof (induction "unat sz - unat start" arbitrary: start rule: less_induct)
  case less
  let ?n = "unat nr" and ?ar = "area_at m k (unat off) (unat nr)"
  have n: "0 < ?n" "unat (ucast nr :: u64) = ?n" using nr unsigned_less [of nr, where ?'a = nat] by (simp_all add: unsigned_ucast_eq unat_gt_0 take_bit_nat_eq_self)
  define z where "z = first_from (\<lambda>i. \<not> bm_bit m i) (unat start) (unat sz)"
  have z: "z \<le> unat sz" "unat start < unat sz \<Longrightarrow> unat start \<le> z" "unat sz \<le> unat start \<Longrightarrow> z = unat sz"
  proof -
    show le: "z \<le> unat sz" by (simp add: z_def)
    show "unat start \<le> z" if "unat start < unat sz"
      using first_from_less(2) [of "\<lambda>i. \<not> bm_bit m i" "unat start" "unat sz"] le that
      by (cases "z < unat sz") (auto simp: z_def)
    show "z = unat sz" if "unat sz \<le> unat start" using that by (simp add: z_def first_from_def)
  qed
  define A where "A = (z + unat off + (2 ^ k - 1)) div 2 ^ k * 2 ^ k"
  have pw: "0 < (2 :: nat) ^ k" by simp
  note up = round_up_nat [OF pw, where x = "z + unat off", folded A_def]
  let ?index = "c_ALIGN_MASK (of_nat z + off) (2 ^ k - 1) - off"
  have "z < 2 ^ 64" "z + unat off < 2 ^ 64" using z(1) no_wrap pw by linarith+
  then have zo: "unat (of_nat z + off) = z + unat off" by (simp add: unat_word_ariths unat_of_nat)
  have "unat (c_ALIGN_MASK (of_nat z + off) (2 ^ k - 1)) = A"
    using unat_ALIGN_MASK [OF k, of "of_nat z + off"] zo z(1) no_wrap by (simp add: A_def)
  then have ix: "unat ?index = A - unat off"
    using up(1) by (subst unat_sub) (simp_all add: word_le_nat_alt)
  define x where "x = A - unat off"
  have x: "z \<le> x" "x + unat off = A" "x < z + 2 ^ k" using up(1,2) by (simp_all add: x_def)
  let ?stop = "?index + ucast nr"
  have "x + ?n < 2 ^ 64" using x(3) z(1) no_wrap by linarith
  then have stop: "unat ?stop = x + ?n" using n(2) ix by (simp add: unat_word_ariths x_def)
  have low: "x \<le> p" if "unat start \<le> p" "p + ?n \<le> unat sz" "?ar p" for p
  proof -
    have "\<not> bm_bit m p" using that(3) n(1) by (simp add: area_at_def)
    moreover have "p < unat sz" using that(2) n(1) by linarith
    ultimately have "z \<le> p"
      using first_from_none_before [of "unat start" p "\<lambda>i. \<not> bm_bit m i" "unat sz"] that(1) by (force simp: z_def not_less)
    then have "A \<le> p + unat off" using that(3) by (intro up(4)) (simp_all add: area_at_def)
    with x(2) show ?thesis by linarith
  qed
  have f0: "find_next_zero_bit m (unat sz) (unat start) = Some z" by (simp add: find_next_zero_bit_first [OF l] z_def)
  note step = bitmap_find_next_zero_area_off.simps [of m sz start nr "2 ^ k - 1" off]
  show ?case
  proof (cases "?stop > sz")
    case True
    then have "unat sz < x + ?n" using stop by (simp add: word_less_nat_alt)
    with low have "\<forall>p. unat start \<le> p \<and> p + ?n \<le> unat sz \<longrightarrow> \<not> ?ar p" by fastforce
    with True f0 show ?thesis by (intro exI [of _ ?stop]) (simp add: step Let_def word_less_nat_alt first_area_def)
  next
    case False
    then have lim: "x + ?n \<le> unat sz" using stop by (simp add: word_less_nat_alt)
    then have st: "unat start < unat sz" using z(3) x(1) n(1) by (cases "unat start < unat sz") auto
    have "BITS_TO_LONGS (x + ?n) \<le> BITS_TO_LONGS (unat sz)"
      using lim by (simp add: BITS_TO_LONGS_def DIV_ROUND_UP_def div_le_mono)
    then have l': "BITS_TO_LONGS (x + ?n) \<le> length m" using l by linarith
    define i where "i = first_from (bm_bit m) x (x + ?n)"
    have f1: "find_next_bit m (unat ?stop) (unat ?index) = Some i"
      using find_next_bit_first [OF l', of x] stop ix by (simp add: i_def x_def)
    have i: "i \<le> x + ?n" "unat (of_nat i :: u64) = i"
      using lim unsigned_less [of sz, where ?'a = nat] by (simp_all add: i_def unat_of_nat) (metis first_from_le le_trans mod_less order.strict_trans1)
    show ?thesis
    proof (cases "i < x + ?n")
      case True
      then have b: "bm_bit m i" "x \<le> i" using first_from_less [of "bm_bit m" x "x + ?n"] by (simp_all add: i_def)
      have s': "unat (of_nat i + 1 :: u64) = i + 1"
        using i(2) True lim unsigned_less [of sz, where ?'a = nat] by (simp add: unat_word_ariths)
      have "bitmap_find_next_zero_area_off m sz start nr (2 ^ k - 1) off
          = bitmap_find_next_zero_area_off m sz (of_nat i + 1) nr (2 ^ k - 1) off"
        using f0 f1 False True i(2) stop by (subst step) (simp add: Let_def word_less_nat_alt)
      moreover have "unat start < i + 1" using b(2) x(1) z(2) [OF st] by linarith
      moreover have none: "\<not> ?ar p" if "unat start \<le> p" "p + ?n \<le> unat sz" "p < i + 1" for p
      proof
        assume "?ar p"
        moreover from this have "x \<le> p" using low that by blast
        ultimately show False using b(1) True that(3) by (auto simp: area_at_def)
      qed
      moreover have "unat sz - (i + 1) < unat sz - unat start" using st calculation(2) True lim by linarith
      ultimately show ?thesis using less [of "of_nat i + 1"] first_area_later [of m k "unat off" ?n "unat sz" "i + 1"]
        unfolding s' by fastforce
    next
      case e: False
      then have "i = x + ?n" using i(1) by linarith
      then have "region_free m x ?n" by (auto simp: i_def first_from_eq_n)
      moreover have "2 ^ k dvd x + unat off" using up(3) x(2) by simp
      ultimately have a: "?ar x" by (simp add: area_at_def)
      have "bitmap_find_next_zero_area_off m sz start nr (2 ^ k - 1) off = Some ?index"
        using f0 f1 False e i(2) stop by (subst step) (simp add: Let_def word_less_nat_alt)
      moreover have "unat ?index = x" using ix by (simp add: x_def)
      moreover have "\<not> ?ar p" if "unat start \<le> p" "p < x" for p using low [of p] that lim by fastforce
      ultimately show ?thesis using a lim x(1) z(2) [OF st] by (intro exI [of _ ?index]) (simp add: first_area_def)
    qed
  qed
qed

section \<open>Properties\<close>

text \<open>C9. Setting and clearing a range word by word with masks is equivalent to setting and clearing its bits
  one at a time, on every range inside the map: both return, with the same map.\<close>

theorem bitmap_range_bitwise:
  assumes "start + n \<le> 64 * length m"
  shows "bitmap_set m start (int n) = each_bit c_set_bit [start..<start + n] m
     \<and> bitmap_clear m start (int n) = each_bit c_clear_bit [start..<start + n] m
     \<and> bitmap_set m start (int n) \<noteq> None \<and> bitmap_clear m start (int n) \<noteq> None"
proof -
  have i: "\<forall>i \<in> set [start..<start + n]. i div 64 < length m"
    using assms by (auto intro!: less_mult_imp_div_less)
  obtain s1 s2 where s1: "bitmap_set m start (int n) = Some s1" "length s1 = length m"
      "\<forall>i. bm_bit s1 i = (if start \<le> i \<and> i < start + n then True else bm_bit m i)"
    and s2: "each_bit c_set_bit [start..<start + n] m = Some s2" "length s2 = length m"
      "\<forall>i. bm_bit s2 i \<longleftrightarrow> i \<in> set [start..<start + n] \<or> bm_bit m i"
    using range_op_bits [OF writes_set assms] each_bit_set [OF i] unfolding bitmap_set_def by blast
  obtain c1 c2 where c1: "bitmap_clear m start (int n) = Some c1" "length c1 = length m"
      "\<forall>i. bm_bit c1 i = (if start \<le> i \<and> i < start + n then False else bm_bit m i)"
    and c2: "each_bit c_clear_bit [start..<start + n] m = Some c2" "length c2 = length m"
      "\<forall>i. bm_bit c2 i \<longleftrightarrow> i \<notin> set [start..<start + n] \<and> bm_bit m i"
    using range_op_bits [OF writes_clear assms] each_bit_clear [OF i] unfolding bitmap_clear_def by blast
  have "s1 = s2" by (rule bitmap_eqI) (use s1 s2 in auto)
  moreover have "c1 = c2" by (rule bitmap_eqI) (use c1 c2 in auto)
  ultimately show ?thesis using s1 s2 c1 c2 by simp
qed

theorem bitmap_range_bitwise_witness:
  "bitmap_set [0, 0xF0] 60 (int 7) = each_bit c_set_bit [60..<60 + 7] [0, 0xF0]
     \<and> bitmap_clear [0, 0xF0] 60 (int 7) = each_bit c_clear_bit [60..<60 + 7] [0, 0xF0]
     \<and> bitmap_set [0, 0xF0] 60 (int 7) \<noteq> None \<and> bitmap_clear [0, 0xF0] 60 (int 7) \<noteq> None"
  by (rule bitmap_range_bitwise) simp

text \<open>C25. The search for an aligned free area returns: its result is the first free area of the requested
  size at or after the start whose position plus the offset is aligned, and a number above the size when there
  is none. Nothing outside the map is read. The numbers involved must not wrap around.\<close>

theorem bitmap_find_next_zero_area_first:
  assumes "BITS_TO_LONGS (unat sz) \<le> length m" "nr \<noteq> 0" "k < 64"
    "unat sz + unat nr + unat off + 2 ^ k \<le> 2 ^ 64"
  shows "\<exists>r. bitmap_find_next_zero_area_off m sz start nr (2 ^ k - 1) off = Some r
     \<and> (if unat r \<le> unat sz
         then unat start \<le> unat r \<and> unat r + unat nr \<le> unat sz \<and> area_at m k (unat off) (unat nr) (unat r)
           \<and> (\<forall>p. unat start \<le> p \<and> p < unat r \<longrightarrow> \<not> area_at m k (unat off) (unat nr) p)
         else (\<forall>p. unat start \<le> p \<and> p + unat nr \<le> unat sz \<longrightarrow> \<not> area_at m k (unat off) (unat nr) p))"
  using find_next_zero_area_ok [OF assms, of start] unfolding first_area_def .

theorem bitmap_find_next_zero_area_first_witness:
  "\<exists>r. bitmap_find_next_zero_area_off [0x7F, 0] 128 3 5 (2 ^ 2 - 1) 1 = Some r
     \<and> (if unat r \<le> unat (128 :: u64)
         then unat (3 :: u64) \<le> unat r \<and> unat r + unat (5 :: u32) \<le> unat (128 :: u64)
           \<and> area_at [0x7F, 0] 2 (unat (1 :: u64)) (unat (5 :: u32)) (unat r)
           \<and> (\<forall>p. unat (3 :: u64) \<le> p \<and> p < unat r \<longrightarrow> \<not> area_at [0x7F, 0] 2 (unat (1 :: u64)) (unat (5 :: u32)) p)
         else (\<forall>p. unat (3 :: u64) \<le> p \<and> p + unat (5 :: u32) \<le> unat (128 :: u64)
           \<longrightarrow> \<not> area_at [0x7F, 0] 2 (unat (1 :: u64)) (unat (5 :: u32)) p))"
  by (rule bitmap_find_next_zero_area_first) (simp_all add: BITS_TO_LONGS_def DIV_ROUND_UP_def)



end
