(* ===== verification/Lists.thy ===== *)
theory Lists
  imports Prelude
begin

text \<open>
  The intrusive lists of \<^verbatim>\<open>include/uapi/list.h\<close>, on an explicit store.

  A store maps addresses to \<open>list_head\<close> nodes; reading or writing through an address that is not
  allocated gives \<open>None\<close>. Every operation is the sequence of field writes of the source, in its
  order. \<open>ring h head xs\<close> says that \<open>head\<close> is the head of a circular list whose entries are \<open>xs\<close>; each
  operation is shown to return and to act on \<open>xs\<close> as the list function its name suggests, and to
  leave every node outside the ring alone. The other theories therefore keep the lists of the
  code as Isabelle lists. The second half does the same for \<open>hlist\<close>, whose back link points at the
  field that holds the node rather than at a node.
\<close>

type_synonym ptr = nat

section \<open>Circular doubly linked lists\<close>

record list_head =
  lh_prev :: ptr
  lh_next :: ptr

type_synonym lheap = "ptr \<rightharpoonup> list_head"

definition LIST_POISON1 :: ptr where "LIST_POISON1 = 0x00100100"
definition LIST_POISON2 :: ptr where "LIST_POISON2 = 0x00200200"

definition get_next :: "ptr \<Rightarrow> lheap \<Rightarrow> ptr option" where
  "get_next p h = map_option lh_next (h p)"

definition get_prev :: "ptr \<Rightarrow> lheap \<Rightarrow> ptr option" where
  "get_prev p h = map_option lh_prev (h p)"

definition set_next :: "ptr \<Rightarrow> ptr \<Rightarrow> lheap \<Rightarrow> lheap option" where
  "set_next p v h = map_option (\<lambda>n. h(p \<mapsto> n\<lparr>lh_next := v\<rparr>)) (h p)"

definition set_prev :: "ptr \<Rightarrow> ptr \<Rightarrow> lheap \<Rightarrow> lheap option" where
  "set_prev p v h = map_option (\<lambda>n. h(p \<mapsto> n\<lparr>lh_prev := v\<rparr>)) (h p)"

definition INIT_LIST_HEAD :: "ptr \<Rightarrow> lheap \<Rightarrow> lheap option" where
  "INIT_LIST_HEAD l h = do { h \<leftarrow> set_next l l h; set_prev l l h }"

definition c_list_add :: "ptr \<Rightarrow> ptr \<Rightarrow> ptr \<Rightarrow> lheap \<Rightarrow> lheap option" where
  "c_list_add new prev nxt h = do {
     h \<leftarrow> set_prev nxt new h;
     h \<leftarrow> set_next new nxt h;
     h \<leftarrow> set_prev new prev h;
     set_next prev new h }"

definition list_add :: "ptr \<Rightarrow> ptr \<Rightarrow> lheap \<Rightarrow> lheap option" where
  "list_add new head h = do { n \<leftarrow> get_next head h; c_list_add new head n h }"

definition list_add_tail :: "ptr \<Rightarrow> ptr \<Rightarrow> lheap \<Rightarrow> lheap option" where
  "list_add_tail new head h = do { p \<leftarrow> get_prev head h; c_list_add new p head h }"

definition c_list_del :: "ptr \<Rightarrow> ptr \<Rightarrow> lheap \<Rightarrow> lheap option" where
  "c_list_del prev nxt h = do { h \<leftarrow> set_prev nxt prev h; set_next prev nxt h }"

definition c_list_del_entry :: "ptr \<Rightarrow> lheap \<Rightarrow> lheap option" where
  "c_list_del_entry entry h = do {
     p \<leftarrow> get_prev entry h; n \<leftarrow> get_next entry h; c_list_del p n h }"

definition list_del :: "ptr \<Rightarrow> lheap \<Rightarrow> lheap option" where
  "list_del entry h = do {
     p \<leftarrow> get_prev entry h;
     n \<leftarrow> get_next entry h;
     h \<leftarrow> c_list_del p n h;
     h \<leftarrow> set_next entry LIST_POISON1 h;
     set_prev entry LIST_POISON2 h }"

definition list_replace :: "ptr \<Rightarrow> ptr \<Rightarrow> lheap \<Rightarrow> lheap option" where
  "list_replace old new h = do {
     n \<leftarrow> get_next old h;
     h \<leftarrow> set_next new n h;
     n \<leftarrow> get_next new h;
     h \<leftarrow> set_prev n new h;
     p \<leftarrow> get_prev old h;
     h \<leftarrow> set_prev new p h;
     p \<leftarrow> get_prev new h;
     set_next p new h }"

definition list_replace_init :: "ptr \<Rightarrow> ptr \<Rightarrow> lheap \<Rightarrow> lheap option" where
  "list_replace_init old new h = do { h \<leftarrow> list_replace old new h; INIT_LIST_HEAD old h }"

definition list_del_init :: "ptr \<Rightarrow> lheap \<Rightarrow> lheap option" where
  "list_del_init entry h = do { h \<leftarrow> c_list_del_entry entry h; INIT_LIST_HEAD entry h }"

definition list_move :: "ptr \<Rightarrow> ptr \<Rightarrow> lheap \<Rightarrow> lheap option" where
  "list_move l head h = do { h \<leftarrow> c_list_del_entry l h; list_add l head h }"

definition list_move_tail :: "ptr \<Rightarrow> ptr \<Rightarrow> lheap \<Rightarrow> lheap option" where
  "list_move_tail l head h = do { h \<leftarrow> c_list_del_entry l h; list_add_tail l head h }"

definition list_is_last :: "ptr \<Rightarrow> ptr \<Rightarrow> lheap \<Rightarrow> bool option" where
  "list_is_last l head h = do { n \<leftarrow> get_next l h; Some (n = head) }"

definition list_is_first :: "ptr \<Rightarrow> ptr \<Rightarrow> lheap \<Rightarrow> bool option" where
  "list_is_first l head h = do { p \<leftarrow> get_prev l h; Some (p = head) }"

definition list_empty :: "ptr \<Rightarrow> lheap \<Rightarrow> bool option" where
  "list_empty head h = do { n \<leftarrow> get_next head h; Some (n = head) }"

definition list_empty_careful :: "ptr \<Rightarrow> lheap \<Rightarrow> bool option" where
  "list_empty_careful head h = do {
     n \<leftarrow> get_next head h; p \<leftarrow> get_prev head h; Some (n = head \<and> n = p) }"

definition list_rotate_left :: "ptr \<Rightarrow> lheap \<Rightarrow> lheap option" where
  "list_rotate_left head h = do {
     e \<leftarrow> list_empty head h;
     if \<not> e then do { first \<leftarrow> get_next head h; list_move_tail first head h } else Some h }"

definition list_is_singular :: "ptr \<Rightarrow> lheap \<Rightarrow> bool option" where
  "list_is_singular head h = do {
     e \<leftarrow> list_empty head h;
     if e then Some False
     else do { n \<leftarrow> get_next head h; p \<leftarrow> get_prev head h; Some (n = p) } }"

definition c_list_cut_position :: "ptr \<Rightarrow> ptr \<Rightarrow> ptr \<Rightarrow> lheap \<Rightarrow> lheap option" where
  "c_list_cut_position l head entry h = do {
     new_first \<leftarrow> get_next entry h;
     n \<leftarrow> get_next head h;
     h \<leftarrow> set_next l n h;
     n \<leftarrow> get_next l h;
     h \<leftarrow> set_prev n l h;
     h \<leftarrow> set_prev l entry h;
     h \<leftarrow> set_next entry l h;
     h \<leftarrow> set_next head new_first h;
     set_prev new_first head h }"

definition list_cut_position :: "ptr \<Rightarrow> ptr \<Rightarrow> ptr \<Rightarrow> lheap \<Rightarrow> lheap option" where
  "list_cut_position l head entry h = do {
     e \<leftarrow> list_empty head h;
     if e then Some h
     else do {
       s \<leftarrow> list_is_singular head h;
       n \<leftarrow> get_next head h;
       if s \<and> n \<noteq> entry \<and> head \<noteq> entry then Some h
       else if entry = head then INIT_LIST_HEAD l h
       else c_list_cut_position l head entry h } }"

definition c_list_splice :: "ptr \<Rightarrow> ptr \<Rightarrow> ptr \<Rightarrow> lheap \<Rightarrow> lheap option" where
  "c_list_splice l prev nxt h = do {
     first \<leftarrow> get_next l h;
     lst \<leftarrow> get_prev l h;
     h \<leftarrow> set_prev first prev h;
     h \<leftarrow> set_next prev first h;
     h \<leftarrow> set_next lst nxt h;
     set_prev nxt lst h }"

definition list_splice :: "ptr \<Rightarrow> ptr \<Rightarrow> lheap \<Rightarrow> lheap option" where
  "list_splice l head h = do {
     e \<leftarrow> list_empty l h;
     if \<not> e then do { n \<leftarrow> get_next head h; c_list_splice l head n h } else Some h }"

definition list_splice_tail :: "ptr \<Rightarrow> ptr \<Rightarrow> lheap \<Rightarrow> lheap option" where
  "list_splice_tail l head h = do {
     e \<leftarrow> list_empty l h;
     if \<not> e then do { p \<leftarrow> get_prev head h; c_list_splice l p head h } else Some h }"

definition list_splice_init :: "ptr \<Rightarrow> ptr \<Rightarrow> lheap \<Rightarrow> lheap option" where
  "list_splice_init l head h = do {
     e \<leftarrow> list_empty l h;
     if \<not> e then do { n \<leftarrow> get_next head h; h \<leftarrow> c_list_splice l head n h; INIT_LIST_HEAD l h }
     else Some h }"

definition list_splice_tail_init :: "ptr \<Rightarrow> ptr \<Rightarrow> lheap \<Rightarrow> lheap option" where
  "list_splice_tail_init l head h = do {
     e \<leftarrow> list_empty l h;
     if \<not> e then do { p \<leftarrow> get_prev head h; h \<leftarrow> c_list_splice l p head h; INIT_LIST_HEAD l h }
     else Some h }"

text \<open>
  The traversal macros, as the sequence of nodes the loop body sees. A list whose links never
  come back to the head is walked forever: \<open>None\<close>.
\<close>

partial_function (option) list_walk :: "lheap \<Rightarrow> ptr \<Rightarrow> ptr \<Rightarrow> ptr list option" where
  "list_walk h head pos =
     (if pos = head then Some []
      else do { n \<leftarrow> get_next pos h; r \<leftarrow> list_walk h head n; Some (pos # r) })"

partial_function (option) list_walk_prev :: "lheap \<Rightarrow> ptr \<Rightarrow> ptr \<Rightarrow> ptr list option" where
  "list_walk_prev h head pos =
     (if pos = head then Some []
      else do { n \<leftarrow> get_prev pos h; r \<leftarrow> list_walk_prev h head n; Some (pos # r) })"

definition list_for_each :: "lheap \<Rightarrow> ptr \<Rightarrow> ptr list option" where
  "list_for_each h head = do { n \<leftarrow> get_next head h; list_walk h head n }"

definition list_for_each_prev :: "lheap \<Rightarrow> ptr \<Rightarrow> ptr list option" where
  "list_for_each_prev h head = do { p \<leftarrow> get_prev head h; list_walk_prev h head p }"

definition list_first_entry_or_null :: "ptr \<Rightarrow> lheap \<Rightarrow> ptr option option" where
  "list_first_entry_or_null head h = do {
     n \<leftarrow> get_next head h; Some (if n \<noteq> head then Some n else None) }"

section \<open>The ring predicate\<close>

text \<open>\<open>link h p q\<close>: the node at \<open>p\<close> points forward to \<open>q\<close>, and \<open>q\<close> back to \<open>p\<close>.\<close>

definition link :: "lheap \<Rightarrow> ptr \<Rightarrow> ptr \<Rightarrow> bool" where
  "link h p q \<longleftrightarrow> get_next p h = Some q \<and> get_prev q h = Some p"

fun dseg :: "lheap \<Rightarrow> ptr \<Rightarrow> ptr list \<Rightarrow> ptr \<Rightarrow> bool" where
  "dseg h p [] q \<longleftrightarrow> link h p q"
| "dseg h p (x # xs) q \<longleftrightarrow> link h p x \<and> dseg h x xs q"

definition ring :: "lheap \<Rightarrow> ptr \<Rightarrow> ptr list \<Rightarrow> bool" where
  "ring h head xs \<longleftrightarrow> distinct (head # xs) \<and> dseg h head xs head"

lemma dseg_append: "dseg h p (xs @ x # ys) q \<longleftrightarrow> dseg h p xs x \<and> dseg h x ys q"
  by (induction xs arbitrary: p) auto

lemma dseg_snoc: "dseg h p (xs @ [x]) q \<longleftrightarrow> dseg h p xs x \<and> link h x q"
  by (simp add: dseg_append)

lemma dseg_cong:
  "\<forall>a \<in> set (p # xs). get_next a h' = get_next a h \<Longrightarrow> \<forall>a \<in> set (q # xs). get_prev a h' = get_prev a h
   \<Longrightarrow> dseg h' p xs q = dseg h p xs q"
  by (induction xs arbitrary: p) (auto simp: link_def)

lemma get_update [simp]:
  "get_next a (h(p \<mapsto> n)) = (if a = p then Some (lh_next n) else get_next a h)"
  "get_prev a (h(p \<mapsto> n)) = (if a = p then Some (lh_prev n) else get_prev a h)"
  by (simp_all add: get_next_def get_prev_def)

text \<open>Field writes, and what each leaves alone.\<close>

definition upd_next :: "ptr \<Rightarrow> ptr \<Rightarrow> lheap \<Rightarrow> lheap" where
  "upd_next p v h = h(p := map_option (\<lambda>n. n\<lparr>lh_next := v\<rparr>) (h p))"

definition upd_prev :: "ptr \<Rightarrow> ptr \<Rightarrow> lheap \<Rightarrow> lheap" where
  "upd_prev p v h = h(p := map_option (\<lambda>n. n\<lparr>lh_prev := v\<rparr>) (h p))"

lemma set_eq_upd [simp]:
  "p \<in> dom h \<Longrightarrow> set_next p v h = Some (upd_next p v h)"
  "p \<in> dom h \<Longrightarrow> set_prev p v h = Some (upd_prev p v h)"
  by (auto simp: set_next_def set_prev_def upd_next_def upd_prev_def)

lemma dom_upd [simp]: "dom (upd_next p v h) = dom h" "dom (upd_prev p v h) = dom h"
  by (auto simp: upd_next_def upd_prev_def split: if_splits)

lemma get_upd [simp]:
  "p \<in> dom h \<Longrightarrow> get_next a (upd_next p v h) = (if a = p then Some v else get_next a h)"
  "get_next a (upd_prev p v h) = get_next a h"
  "get_prev a (upd_next p v h) = get_prev a h"
  "p \<in> dom h \<Longrightarrow> get_prev a (upd_prev p v h) = (if a = p then Some v else get_prev a h)"
  by (auto simp: upd_next_def upd_prev_def get_next_def get_prev_def option.map_comp comp_def)

lemma upd_other [frame]:
  "a \<noteq> p \<Longrightarrow> upd_next p v h a = h a" "a \<noteq> p \<Longrightarrow> upd_prev p v h a = h a"
  by (simp_all add: upd_next_def upd_prev_def)

lemma dseg_upd [simp]:
  "a \<in> dom h \<Longrightarrow> a \<noteq> p \<Longrightarrow> a \<notin> set xs \<Longrightarrow> dseg (upd_next a v h) p xs q = dseg h p xs q"
  "a \<in> dom h \<Longrightarrow> a \<noteq> q \<Longrightarrow> a \<notin> set xs \<Longrightarrow> dseg (upd_prev a v h) p xs q = dseg h p xs q"
  by (rule dseg_cong; auto)+

lemma get_dom: "get_next a h = Some b \<Longrightarrow> a \<in> dom h" "get_prev a h = Some b \<Longrightarrow> a \<in> dom h"
  by (auto simp: get_next_def get_prev_def)

lemma dseg_dom: "dseg h p xs q \<Longrightarrow> insert p (insert q (set xs)) \<subseteq> dom h"
  by (induction xs arbitrary: p) (auto simp: link_def dest: get_dom)

lemma dseg_first: "dseg h p xs q \<Longrightarrow> get_next p h = Some (case xs of [] \<Rightarrow> q | x # _ \<Rightarrow> x)"
  by (cases xs) (auto simp: link_def)

lemma dseg_last: "dseg h p xs q \<Longrightarrow> get_prev q h = Some (if xs = [] then p else last xs)"
  by (induction xs arbitrary: p) (auto simp: link_def)

lemma ring_frame [frame]:
  assumes "ring h head xs" "\<forall>a \<in> set (head # xs). h' a = h a"
  shows "ring h' head xs"
proof -
  have "dseg h' head xs head = dseg h head xs head"
    using assms(2) by (intro dseg_cong) (auto simp: get_next_def get_prev_def)
  with assms(1) show ?thesis by (simp add: ring_def)
qed

text \<open>Changes of a store outside a set of addresses: none.\<close>

definition only_changes :: "ptr set \<Rightarrow> lheap \<Rightarrow> lheap \<Rightarrow> bool" where
  "only_changes A h h' \<longleftrightarrow> dom h' = dom h \<and> (\<forall>a. a \<notin> A \<longrightarrow> h' a = h a)"

lemma only_changes_upd [simp, intro]:
  "only_changes A h h' \<Longrightarrow> p \<in> A \<Longrightarrow> only_changes A h (upd_next p v h')"
  "only_changes A h h' \<Longrightarrow> p \<in> A \<Longrightarrow> only_changes A h (upd_prev p v h')"
  by (auto simp: only_changes_def upd_next_def upd_prev_def split: if_splits)

lemma only_changes_refl [simp, intro]: "only_changes A h h"
  by (simp add: only_changes_def)

lemma ring_dom: "ring h head xs \<Longrightarrow> insert head (set xs) \<subseteq> dom h"
  using dseg_dom [of h head xs head] by (simp add: ring_def)

lemma list_add_ring:
  assumes "ring h head xs" "new \<in> dom h" "new \<notin> set (head # xs)"
  shows "\<exists>h'. list_add new head h = Some h' \<and> ring h' head (new # xs)
           \<and> only_changes (set (head # new # xs)) h h'"
proof (cases xs)
  case Nil
  with assms show ?thesis
    using dseg_dom [of h head xs head] by (auto simp: ring_def list_add_def c_list_add_def link_def)
next
  case (Cons x ys)
  note d = ring_dom [OF assms(1)]
  from Cons assms d show ?thesis
    by (cases "ys = []") (auto simp: ring_def list_add_def c_list_add_def link_def)
qed

lemma list_add_tail_ring:
  assumes "ring h head xs" "new \<in> dom h" "new \<notin> set (head # xs)"
  shows "\<exists>h'. list_add_tail new head h = Some h' \<and> ring h' head (xs @ [new])
           \<and> only_changes (set (head # new # xs)) h h'"
proof (cases xs rule: rev_cases)
  case Nil
  with assms show ?thesis
    using dseg_dom [of h head xs head] by (auto simp: ring_def list_add_tail_def c_list_add_def link_def)
next
  case (snoc ys x)
  note d = ring_dom [OF assms(1)]
  from snoc assms d show ?thesis
    by (auto simp: ring_def list_add_tail_def c_list_add_def dseg_append link_def)
qed

lemma c_list_del_entry_ring:
  assumes "ring h head (xs @ x # ys)"
  shows "\<exists>h'. c_list_del_entry x h = Some h' \<and> ring h' head (xs @ ys)
           \<and> only_changes (set (head # xs @ ys)) h h' \<and> x \<in> dom h'"
proof -
  note d = ring_dom [OF assms]
  show ?thesis
  proof (cases xs rule: rev_cases)
    case Nil
    then show ?thesis using assms d
      by (cases ys) (auto simp: ring_def c_list_del_entry_def c_list_del_def link_def)
  next
    case (snoc zs z)
    then show ?thesis using assms d
      by (cases ys) (auto simp: ring_def c_list_del_entry_def c_list_del_def dseg_append link_def)
  qed
qed


lemma only_changes_trans:
  "only_changes A h h' \<Longrightarrow> only_changes B h' h'' \<Longrightarrow> A \<union> B \<subseteq> C \<Longrightarrow> only_changes C h h''"
  unfolding only_changes_def by (metis UnCI subset_iff)

lemma INIT_LIST_HEAD_ring:
  assumes "l \<in> dom h"
  shows "\<exists>h'. INIT_LIST_HEAD l h = Some h' \<and> ring h' l [] \<and> only_changes {l} h h'"
  using assms by (auto simp: INIT_LIST_HEAD_def ring_def link_def)

lemma list_del_ring:
  assumes "ring h head (xs @ x # ys)"
  shows "\<exists>h'. list_del x h = Some h' \<and> ring h' head (xs @ ys)
           \<and> h' x = Some \<lparr>lh_prev = LIST_POISON2, lh_next = LIST_POISON1\<rparr>
           \<and> only_changes (set (head # xs @ x # ys)) h h'"
proof -
  obtain h1 where h1: "c_list_del_entry x h = Some h1" "ring h1 head (xs @ ys)"
    "only_changes (set (head # xs @ ys)) h h1" "x \<in> dom h1"
    using c_list_del_entry_ring [OF assms] by blast
  let ?h = "upd_prev x LIST_POISON2 (upd_next x LIST_POISON1 h1)"
  have x: "x \<notin> set (head # xs @ ys)" using assms by (auto simp: ring_def)
  have "list_del x h = Some ?h"
    using h1(1,4) by (auto simp: list_del_def c_list_del_entry_def domIff split: bind_splits)
  moreover have "ring ?h head (xs @ ys)"
    using x by (intro ring_frame [OF h1(2)]) (auto simp: upd_prev_def upd_next_def)
  moreover have "only_changes (set (head # xs @ x # ys)) h ?h"
    by (rule only_changes_trans [OF h1(3), of "{x}"]) auto
  moreover have "?h x = Some \<lparr>lh_prev = LIST_POISON2, lh_next = LIST_POISON1\<rparr>"
    using h1(4) by (auto simp: upd_prev_def upd_next_def)
  ultimately show ?thesis by blast
qed

lemma list_del_init_ring:
  assumes "ring h head (xs @ x # ys)"
  shows "\<exists>h'. list_del_init x h = Some h' \<and> ring h' head (xs @ ys) \<and> ring h' x []
           \<and> only_changes (set (head # xs @ x # ys)) h h'"
proof -
  obtain h1 where h1: "c_list_del_entry x h = Some h1" "ring h1 head (xs @ ys)"
    "only_changes (set (head # xs @ ys)) h h1" "x \<in> dom h1"
    using c_list_del_entry_ring [OF assms] by blast
  obtain h2 where h2: "INIT_LIST_HEAD x h1 = Some h2" "ring h2 x []" "only_changes {x} h1 h2"
    using INIT_LIST_HEAD_ring [OF h1(4)] by blast
  have "x \<notin> set (head # xs @ ys)" using assms by (auto simp: ring_def)
  then have "ring h2 head (xs @ ys)"
    using h2(3) by (intro ring_frame [OF h1(2)]) (auto simp: only_changes_def)
  with h1 h2 show ?thesis
    by (auto simp: list_del_init_def intro: only_changes_trans [OF h1(3) h2(3)])
qed

lemma list_move_ring:
  assumes "ring h head (xs @ x # ys)"
  shows "\<exists>h'. list_move x head h = Some h' \<and> ring h' head (x # xs @ ys)
           \<and> only_changes (set (head # xs @ x # ys)) h h'"
    and "\<exists>h'. list_move_tail x head h = Some h' \<and> ring h' head (xs @ ys @ [x])
           \<and> only_changes (set (head # xs @ x # ys)) h h'"
proof -
  obtain h1 where h1: "c_list_del_entry x h = Some h1" "ring h1 head (xs @ ys)"
    "only_changes (set (head # xs @ ys)) h h1" "x \<in> dom h1"
    using c_list_del_entry_ring [OF assms] by blast
  have x: "x \<notin> set (head # xs @ ys)" using assms by (auto simp: ring_def)
  show "\<exists>h'. list_move x head h = Some h' \<and> ring h' head (x # xs @ ys)
           \<and> only_changes (set (head # xs @ x # ys)) h h'"
    using list_add_ring [OF h1(2,4) x] h1(1)
    by (auto simp: list_move_def dest: only_changes_trans [OF h1(3), where C = "insert head (insert x (set xs \<union> set ys))"])
  show "\<exists>h'. list_move_tail x head h = Some h' \<and> ring h' head (xs @ ys @ [x])
           \<and> only_changes (set (head # xs @ x # ys)) h h'"
    using list_add_tail_ring [OF h1(2,4) x] h1(1)
    by (auto simp: list_move_tail_def dest: only_changes_trans [OF h1(3), where C = "insert head (insert x (set xs \<union> set ys))"])
qed

lemma list_replace_ring:
  assumes "ring h head (xs @ x # ys)" "new \<in> dom h" "new \<notin> set (head # xs @ x # ys)"
  shows "\<exists>h'. list_replace x new h = Some h' \<and> ring h' head (xs @ new # ys)
           \<and> only_changes (set (head # new # xs @ ys)) h h'"
proof -
  note d = ring_dom [OF assms(1)]
  show ?thesis
  proof (cases xs rule: rev_cases)
    case Nil
    then show ?thesis using assms d
      by (cases ys) (auto simp: ring_def list_replace_def link_def)
  next
    case (snoc zs z)
    then show ?thesis using assms d
      by (cases ys) (auto simp: ring_def list_replace_def dseg_append link_def domIff)
  qed
qed

lemma list_empty_ring:
  assumes "ring h head xs"
  shows "list_empty head h = Some (xs = [])" "list_empty_careful head h = Some (xs = [])"
    "list_is_singular head h = Some (length xs = 1)"
    "list_first_entry_or_null head h = Some (case xs of [] \<Rightarrow> None | x # _ \<Rightarrow> Some x)"
proof -
  have n: "get_next head h = Some (case xs of [] \<Rightarrow> head | x # _ \<Rightarrow> x)"
    and p: "get_prev head h = Some (if xs = [] then head else last xs)"
    using assms dseg_first dseg_last by (auto simp: ring_def)
  have h: "head \<notin> set xs" "distinct xs" using assms by (auto simp: ring_def)
  show "list_empty head h = Some (xs = [])" "list_empty_careful head h = Some (xs = [])"
    "list_first_entry_or_null head h = Some (case xs of [] \<Rightarrow> None | x # _ \<Rightarrow> Some x)"
    using n p h by (auto simp: list_empty_def list_empty_careful_def list_first_entry_or_null_def
      split: list.splits)
  show "list_is_singular head h = Some (length xs = 1)"
    using n p h last_in_set
    by (cases xs rule: list.exhaust; cases "tl xs") (force simp: list_empty_def list_is_singular_def)+
qed

lemma list_rotate_left_ring:
  assumes "ring h head xs"
  shows "\<exists>h'. list_rotate_left head h = Some h' \<and> ring h' head (rotate1 xs)
           \<and> only_changes (set (head # xs)) h h'"
proof (cases xs)
  case Nil
  with assms list_empty_ring(1) [OF assms] show ?thesis by (auto simp: list_rotate_left_def)
next
  case (Cons x ys)
  with assms list_move_ring(2) [of h head "[]" x ys] list_empty_ring(1) [OF assms] show ?thesis
    by (auto simp: list_rotate_left_def ring_def link_def)
qed

lemma list_walk_dseg:
  "dseg h p xs head \<Longrightarrow> head \<notin> set xs \<Longrightarrow>
   list_walk h head (case xs of [] \<Rightarrow> head | x # _ \<Rightarrow> x) = Some xs"
proof (induction xs arbitrary: p)
  case (Cons x ys)
  then have "get_next x h = Some (case ys of [] \<Rightarrow> head | y # _ \<Rightarrow> y)" by (auto dest: dseg_first)
  with Cons show ?case by (subst list_walk.simps) auto
qed (simp add: list_walk.simps)

lemma list_walk_prev_dseg:
  "dseg h head xs q \<Longrightarrow> head \<notin> set xs \<Longrightarrow>
   list_walk_prev h head (if xs = [] then head else last xs) = Some (rev xs)"
proof (induction xs arbitrary: q rule: rev_induct)
  case (snoc x ys)
  then have "get_prev x h = Some (if ys = [] then head else last ys)"
    by (auto simp: dseg_append dest: dseg_last)
  with snoc show ?case by (subst list_walk_prev.simps) (auto simp: dseg_append)
qed (simp add: list_walk_prev.simps)

lemma list_for_each_ring:
  assumes "ring h head xs"
  shows "list_for_each h head = Some xs" "list_for_each_prev h head = Some (rev xs)"
  using assms list_walk_dseg [of h head xs head] list_walk_prev_dseg [of h head xs head]
    dseg_first [of h head xs head] dseg_last [of h head xs head]
  by (auto simp: ring_def list_for_each_def list_for_each_prev_def)

lemma c_list_splice_ring:
  assumes "ring h l ys" "ys \<noteq> []" "ring h head xs" "set (l # ys) \<inter> set (head # xs) = {}"
  shows "get_next head h = Some n \<Longrightarrow> \<exists>h'. c_list_splice l head n h = Some h' \<and> ring h' head (ys @ xs)
           \<and> only_changes (set (head # ys @ xs)) h h'"
    and "get_prev head h = Some p \<Longrightarrow> \<exists>h'. c_list_splice l p head h = Some h' \<and> ring h' head (xs @ ys)
           \<and> only_changes (set (head # ys @ xs)) h h'"
proof -
  note d = ring_dom [OF assms(1)] ring_dom [OF assms(3)]
  obtain y zs where ys: "ys = y # zs" using assms(2) by (cases ys) auto
  show "\<exists>h'. c_list_splice l head n h = Some h' \<and> ring h' head (ys @ xs)
           \<and> only_changes (set (head # ys @ xs)) h h'" if "get_next head h = Some n"
    using assms d ys that
    by (cases zs rule: rev_cases; cases xs)
      (auto simp: ring_def c_list_splice_def link_def dseg_append domIff)
  show "\<exists>h'. c_list_splice l p head h = Some h' \<and> ring h' head (xs @ ys)
           \<and> only_changes (set (head # ys @ xs)) h h'" if "get_prev head h = Some p"
    using assms d ys that
    by (cases zs rule: rev_cases; cases xs rule: rev_cases)
      (auto simp: ring_def c_list_splice_def link_def dseg_append domIff)
qed

lemma list_splice_ring:
  assumes "ring h l ys" "ring h head xs" "set (l # ys) \<inter> set (head # xs) = {}"
  shows "\<exists>h'. list_splice l head h = Some h' \<and> ring h' head (ys @ xs)
           \<and> only_changes (set (head # ys @ xs)) h h'"
    and "\<exists>h'. list_splice_tail l head h = Some h' \<and> ring h' head (xs @ ys)
           \<and> only_changes (set (head # ys @ xs)) h h'"
proof -
  obtain n p where np: "get_next head h = Some n" "get_prev head h = Some p"
    using assms(2) dseg_first dseg_last by (force simp: ring_def)
  note s = c_list_splice_ring [OF assms(1) _ assms(2,3)]
  show "\<exists>h'. list_splice l head h = Some h' \<and> ring h' head (ys @ xs)
           \<and> only_changes (set (head # ys @ xs)) h h'"
    using assms(2) np s(1) [OF _ np(1)]
    by (cases "ys = []") (auto simp: list_splice_def list_empty_ring(1) [OF assms(1)])
  show "\<exists>h'. list_splice_tail l head h = Some h' \<and> ring h' head (xs @ ys)
           \<and> only_changes (set (head # ys @ xs)) h h'"
    using assms(2) np s(2) [OF _ np(2)]
    by (cases "ys = []") (auto simp: list_splice_tail_def list_empty_ring(1) [OF assms(1)])
qed

text \<open>The two \<open>_init\<close> variants also leave the emptied list with a valid empty head.\<close>

lemma list_splice_init_eq:
  "ring h l ys \<Longrightarrow> list_splice_init l head h =
     (if ys = [] then Some h else list_splice l head h \<bind> INIT_LIST_HEAD l)"
  "ring h l ys \<Longrightarrow> list_splice_tail_init l head h =
     (if ys = [] then Some h else list_splice_tail l head h \<bind> INIT_LIST_HEAD l)"
  by (simp_all add: list_splice_init_def list_splice_def list_splice_tail_init_def
      list_splice_tail_def list_empty_ring(1))

lemma INIT_after_ring:
  assumes "ring h' head zs" "only_changes (set (head # zs)) h h'" "l \<in> dom h" "l \<notin> set (head # zs)"
  shows "\<exists>h''. INIT_LIST_HEAD l h' = Some h'' \<and> ring h'' head zs \<and> ring h'' l []
           \<and> only_changes (set (l # head # zs)) h h''"
proof -
  have "l \<in> dom h'" using assms by (simp add: only_changes_def)
  then obtain h2 where h2: "INIT_LIST_HEAD l h' = Some h2" "ring h2 l []" "only_changes {l} h' h2"
    using INIT_LIST_HEAD_ring by blast
  have "ring h2 head zs"
    using h2(3) assms(4) by (intro ring_frame [OF assms(1)]) (auto simp: only_changes_def)
  with h2 show ?thesis by (auto intro: only_changes_trans [OF assms(2) h2(3)])
qed

lemma list_splice_init_ring:
  assumes "ring h l ys" "ring h head xs" "set (l # ys) \<inter> set (head # xs) = {}"
  shows "\<exists>h'. list_splice_init l head h = Some h' \<and> ring h' head (ys @ xs) \<and> ring h' l []
           \<and> only_changes (set (l # head # ys @ xs)) h h'"
    and "\<exists>h'. list_splice_tail_init l head h = Some h' \<and> ring h' head (xs @ ys) \<and> ring h' l []
           \<and> only_changes (set (l # head # ys @ xs)) h h'"
proof -
  have l: "l \<in> dom h" "l \<notin> set (head # ys @ xs)" "l \<notin> set (head # xs @ ys)"
    using assms ring_dom [OF assms(1)] by (auto simp: ring_def)
  show "\<exists>h'. list_splice_init l head h = Some h' \<and> ring h' head (ys @ xs) \<and> ring h' l []
           \<and> only_changes (set (l # head # ys @ xs)) h h'"
    using list_splice_ring(1) [OF assms] assms(1,2) INIT_after_ring [of _ head "ys @ xs" h l] l
    by (cases "ys = []") (force simp: list_splice_init_eq [OF assms(1)])+
  show "\<exists>h'. list_splice_tail_init l head h = Some h' \<and> ring h' head (xs @ ys) \<and> ring h' l []
           \<and> only_changes (set (l # head # ys @ xs)) h h'"
    using list_splice_ring(2) [OF assms] assms(1,2) INIT_after_ring [of _ head "xs @ ys" h l] l
    by (cases "ys = []") (force simp: list_splice_init_eq [OF assms(1)] Un_commute)+
qed

lemma list_cut_position_ring:
  assumes "ring h head (xs @ e # ys)" "l \<in> dom h" "l \<notin> set (head # xs @ e # ys)"
  shows "\<exists>h'. list_cut_position l head e h = Some h' \<and> ring h' l (xs @ [e]) \<and> ring h' head ys
           \<and> only_changes (set (l # head # xs @ e # ys)) h h'"
proof -
  note d = ring_dom [OF assms(1)]
  note e = list_empty_ring [OF assms(1)]
  have "length (xs @ e # ys) = 1 \<Longrightarrow> get_next head h = Some e"
    using assms(1) by (auto simp: ring_def link_def)
  moreover obtain n where "get_next head h = Some n" using assms(1) dseg_first by (force simp: ring_def)
  moreover have "e \<noteq> head" using assms by (auto simp: ring_def)
  ultimately have "list_cut_position l head e h = c_list_cut_position l head e h"
    using e(1,3) by (auto simp: list_cut_position_def)
  moreover have "\<exists>h'. c_list_cut_position l head e h = Some h' \<and> ring h' l (xs @ [e]) \<and> ring h' head ys
           \<and> only_changes (set (l # head # xs @ e # ys)) h h'"
    using assms d
    by (cases xs; cases ys)
      (auto simp: ring_def c_list_cut_position_def link_def dseg_append domIff)
  ultimately show ?thesis by simp
qed

section \<open>Lists with a single-pointer head\<close>

text \<open>
  \<^verbatim>\<open>pprev\<close> is the address of the pointer that points at the node: the \<open>first\<close> field of a head or
  the \<open>next\<close> field of a node. \<open>NULL\<close> is 0, and no node lives there.
\<close>

datatype hloc = First ptr | Next ptr | Poison

record hlist_node =
  hn_next :: ptr
  hn_pprev :: "hloc option"

record hheap =
  hh_first :: "ptr \<rightharpoonup> ptr"
  hh_node :: "ptr \<rightharpoonup> hlist_node"

fun hload :: "hloc \<Rightarrow> hheap \<Rightarrow> ptr option" where
  "hload (First p) h = hh_first h p"
| "hload (Next p) h = map_option hn_next (hh_node h p)"
| "hload Poison h = None"

fun hstore :: "hloc \<Rightarrow> ptr \<Rightarrow> hheap \<Rightarrow> hheap option" where
  "hstore (First p) v h =
     (if hh_first h p = None then None else Some (h\<lparr>hh_first := (hh_first h)(p \<mapsto> v)\<rparr>))"
| "hstore (Next p) v h =
     map_option (\<lambda>n. h\<lparr>hh_node := (hh_node h)(p \<mapsto> n\<lparr>hn_next := v\<rparr>)\<rparr>) (hh_node h p)"
| "hstore Poison v h = None"

definition get_pprev :: "ptr \<Rightarrow> hheap \<Rightarrow> hloc option option" where
  "get_pprev p h = map_option hn_pprev (hh_node h p)"

definition set_pprev :: "ptr \<Rightarrow> hloc option \<Rightarrow> hheap \<Rightarrow> hheap option" where
  "set_pprev p v h =
     map_option (\<lambda>n. h\<lparr>hh_node := (hh_node h)(p \<mapsto> n\<lparr>hn_pprev := v\<rparr>)\<rparr>) (hh_node h p)"

definition INIT_HLIST_HEAD :: "ptr \<Rightarrow> hheap \<Rightarrow> hheap option" where
  "INIT_HLIST_HEAD p h = hstore (First p) 0 h"

definition INIT_HLIST_NODE :: "ptr \<Rightarrow> hheap \<Rightarrow> hheap option" where
  "INIT_HLIST_NODE n h = do { h \<leftarrow> hstore (Next n) 0 h; set_pprev n None h }"

definition hlist_unhashed :: "ptr \<Rightarrow> hheap \<Rightarrow> bool option" where
  "hlist_unhashed n h = do { pp \<leftarrow> get_pprev n h; Some (pp = None) }"

definition hlist_empty :: "ptr \<Rightarrow> hheap \<Rightarrow> bool option" where
  "hlist_empty hp h = do { f \<leftarrow> hload (First hp) h; Some (f = 0) }"

definition c_hlist_del :: "ptr \<Rightarrow> hheap \<Rightarrow> hheap option" where
  "c_hlist_del n h = do {
     nxt \<leftarrow> hload (Next n) h;
     pp \<leftarrow> get_pprev n h;
     pprev \<leftarrow> pp;
     h \<leftarrow> hstore pprev nxt h;
     if nxt \<noteq> 0 then set_pprev nxt (Some pprev) h else Some h }"

definition hlist_del :: "ptr \<Rightarrow> hheap \<Rightarrow> hheap option" where
  "hlist_del n h = do {
     h \<leftarrow> c_hlist_del n h;
     h \<leftarrow> hstore (Next n) LIST_POISON1 h;
     set_pprev n (Some Poison) h }"

definition hlist_del_init :: "ptr \<Rightarrow> hheap \<Rightarrow> hheap option" where
  "hlist_del_init n h = do {
     u \<leftarrow> hlist_unhashed n h;
     if \<not> u then do { h \<leftarrow> c_hlist_del n h; INIT_HLIST_NODE n h } else Some h }"

definition hlist_add_head :: "ptr \<Rightarrow> ptr \<Rightarrow> hheap \<Rightarrow> hheap option" where
  "hlist_add_head n hp h = do {
     first \<leftarrow> hload (First hp) h;
     h \<leftarrow> hstore (Next n) first h;
     h \<leftarrow> (if first \<noteq> 0 then set_pprev first (Some (Next n)) h else Some h);
     h \<leftarrow> hstore (First hp) n h;
     set_pprev n (Some (First hp)) h }"

definition hlist_add_before :: "ptr \<Rightarrow> ptr \<Rightarrow> hheap \<Rightarrow> hheap option" where
  "hlist_add_before n nxt h = do {
     pp \<leftarrow> get_pprev nxt h;
     h \<leftarrow> set_pprev n pp h;
     h \<leftarrow> hstore (Next n) nxt h;
     h \<leftarrow> set_pprev nxt (Some (Next n)) h;
     pprev \<leftarrow> pp;
     hstore pprev n h }"

definition hlist_add_after :: "ptr \<Rightarrow> ptr \<Rightarrow> hheap \<Rightarrow> hheap option" where
  "hlist_add_after n nxt h = do {
     nn \<leftarrow> hload (Next n) h;
     h \<leftarrow> hstore (Next nxt) nn h;
     h \<leftarrow> hstore (Next n) nxt h;
     h \<leftarrow> set_pprev nxt (Some (Next n)) h;
     nn \<leftarrow> hload (Next nxt) h;
     if nn \<noteq> 0 then set_pprev nn (Some (Next nxt)) h else Some h }"

definition hlist_add_fake :: "ptr \<Rightarrow> hheap \<Rightarrow> hheap option" where
  "hlist_add_fake n h = set_pprev n (Some (Next n)) h"

definition hlist_move_list :: "ptr \<Rightarrow> ptr \<Rightarrow> hheap \<Rightarrow> hheap option" where
  "hlist_move_list old new h = do {
     f \<leftarrow> hload (First old) h;
     h \<leftarrow> hstore (First new) f h;
     h \<leftarrow> (if f \<noteq> 0 then set_pprev f (Some (First new)) h else Some h);
     hstore (First old) 0 h }"

partial_function (option) hlist_walk :: "hheap \<Rightarrow> ptr \<Rightarrow> ptr list option" where
  "hlist_walk h pos =
     (if pos = 0 then Some []
      else do { n \<leftarrow> hload (Next pos) h; r \<leftarrow> hlist_walk h n; Some (pos # r) })"

definition hlist_for_each :: "hheap \<Rightarrow> ptr \<Rightarrow> ptr list option" where
  "hlist_for_each h hp = do { f \<leftarrow> hload (First hp) h; hlist_walk h f }"

section \<open>The chain predicate of hlists\<close>

fun hchain :: "hheap \<Rightarrow> hloc \<Rightarrow> ptr list \<Rightarrow> bool" where
  "hchain h l [] \<longleftrightarrow> hload l h = Some 0"
| "hchain h l (x # xs) \<longleftrightarrow>
     hload l h = Some x \<and> x \<noteq> 0 \<and> get_pprev x h = Some (Some l) \<and> hchain h (Next x) xs"

definition hlist :: "hheap \<Rightarrow> ptr \<Rightarrow> ptr list \<Rightarrow> bool" where
  "hlist h hp xs \<longleftrightarrow> distinct xs \<and> hchain h (First hp) xs"

definition hupd :: "hloc \<Rightarrow> ptr \<Rightarrow> hheap \<Rightarrow> hheap" where
  "hupd l v h = the (hstore l v h)"

definition pupd :: "ptr \<Rightarrow> hloc option \<Rightarrow> hheap \<Rightarrow> hheap" where
  "pupd p v h = the (set_pprev p v h)"

lemma hstore_upd [simp]: "hload l h \<noteq> None \<Longrightarrow> hstore l v h = Some (hupd l v h)"
  by (cases l) (auto simp: hupd_def)

lemma set_pprev_upd [simp]: "hh_node h p \<noteq> None \<Longrightarrow> set_pprev p v h = Some (pupd p v h)"
  by (auto simp: pupd_def set_pprev_def)

lemma hload_hupd [simp]:
  "hload l h \<noteq> None \<Longrightarrow> hload k (hupd l v h) = (if k = l then Some v else hload k h)"
  by (cases l; cases k) (auto simp: hupd_def)

lemma hload_pupd [simp]: "hh_node h p \<noteq> None \<Longrightarrow> hload k (pupd p v h) = hload k h"
  by (cases k) (auto simp: pupd_def set_pprev_def)

lemma get_pprev_upd [simp]:
  "hload l h \<noteq> None \<Longrightarrow> get_pprev p (hupd l v h) = get_pprev p h"
  "hh_node h q \<noteq> None \<Longrightarrow> get_pprev p (pupd q w h) = (if p = q then Some w else get_pprev p h)"
  by (cases l; auto simp: hupd_def get_pprev_def) (auto simp: pupd_def set_pprev_def get_pprev_def)

lemma hh_node_upd [simp]:
  "hload l h \<noteq> None \<Longrightarrow> (hh_node (hupd l v h) p = None) = (hh_node h p = None)"
  "hh_node h q \<noteq> None \<Longrightarrow> (hh_node (pupd q w h) p = None) = (hh_node h p = None)"
  by (cases l; auto simp: hupd_def split: if_splits)
    (auto simp: pupd_def set_pprev_def split: if_splits)

lemma hchain_cong:
  "hload l h' = hload l h \<Longrightarrow> \<forall>a \<in> set xs. hload (Next a) h' = hload (Next a) h \<and> get_pprev a h' = get_pprev a h
   \<Longrightarrow> hchain h' l xs = hchain h l xs"
  by (induction xs arbitrary: l) auto

lemma hload_node:
  "(hload (Next p) h = None) = (hh_node h p = None)" "(get_pprev p h = None) = (hh_node h p = None)"
  by (auto simp: get_pprev_def)

declare hload.simps [simp del] hstore.simps [simp del]

lemma hchain_nodes: "hchain h l xs \<Longrightarrow> x \<in> set xs \<Longrightarrow> hh_node h x \<noteq> None \<and> x \<noteq> 0"
  by (induction xs arbitrary: l) (auto simp: get_pprev_def)

lemma hchain_hload: "hchain h l xs \<Longrightarrow> hload l h = Some (case xs of [] \<Rightarrow> 0 | x # _ \<Rightarrow> x)"
  by (cases xs) auto

text \<open>A chain splits at any node: the links of the first part, and the chain that hangs off its end.\<close>

fun hseg :: "hheap \<Rightarrow> hloc \<Rightarrow> ptr list \<Rightarrow> bool" where
  "hseg h l [] \<longleftrightarrow> True"
| "hseg h l (x # xs) \<longleftrightarrow>
     hload l h = Some x \<and> x \<noteq> 0 \<and> get_pprev x h = Some (Some l) \<and> hseg h (Next x) xs"

abbreviation hend :: "hloc \<Rightarrow> ptr list \<Rightarrow> hloc" where
  "hend l xs \<equiv> if xs = [] then l else Next (last xs)"

lemma hchain_append: "hchain h l (xs @ ys) \<longleftrightarrow> hseg h l xs \<and> hchain h (hend l xs) ys"
  by (induction xs arbitrary: l) auto

lemma hseg_snoc: "hseg h l (xs @ [x]) \<longleftrightarrow> hseg h l xs \<and> hload (hend l xs) h = Some x \<and> x \<noteq> 0 \<and> get_pprev x h = Some (Some (hend l xs))"
  by (induction xs arbitrary: l) auto

lemma hseg_cong:
  "hseg h l xs \<Longrightarrow> (\<forall>a \<in> set xs. get_pprev a h' = get_pprev a h) \<Longrightarrow>
   (\<forall>k. k \<noteq> hend l xs \<longrightarrow> hload k h' = hload k h) \<Longrightarrow>
   distinct xs \<Longrightarrow> l \<notin> Next ` set xs \<Longrightarrow> hseg h' l xs"
proof (induction xs arbitrary: l)
  case (Cons x xs)
  have e: "hend l (x # xs) = Next (last (x # xs))" "hend (Next x) xs = Next (last (x # xs))" by auto
  have "l \<noteq> Next (last (x # xs))" using Cons.prems(5) last_in_set [of "x # xs"] by blast
  then have "hload l h' = hload l h" using Cons.prems(3) e(1) by metis
  moreover have "hseg h' (Next x) xs"
    using Cons.prems e by (intro Cons.IH) auto
  ultimately show ?case using Cons.prems by auto
qed simp

lemma hlist_for_each_hlist:
  assumes "hlist h hp xs"
  shows "hlist_for_each h hp = Some xs"
proof -
  have "hchain h l xs \<Longrightarrow> hlist_walk h (case xs of [] \<Rightarrow> 0 | x # _ \<Rightarrow> x) = Some xs" for l
  proof (induction xs arbitrary: l)
    case (Cons x ys)
    then have "hload (Next x) h = Some (case ys of [] \<Rightarrow> 0 | y # _ \<Rightarrow> y)"
      using hchain_hload [of h "Next x" ys] by simp
    with Cons show ?case by (subst hlist_walk.simps) auto
  qed (simp add: hlist_walk.simps)
  with assms hchain_hload [of h "First hp" xs] show ?thesis
    by (auto simp: hlist_def hlist_for_each_def)
qed

text \<open>What an operation may change: the \<open>first\<close> fields in \<open>H\<close> and the nodes in \<open>A\<close>.\<close>

definition honly :: "ptr set \<Rightarrow> ptr set \<Rightarrow> hheap \<Rightarrow> hheap \<Rightarrow> bool" where
  "honly H A h h' \<longleftrightarrow> (\<forall>p. p \<notin> H \<longrightarrow> hload (First p) h' = hload (First p) h) \<and>
     (\<forall>a. a \<notin> A \<longrightarrow> hload (Next a) h' = hload (Next a) h \<and> get_pprev a h' = get_pprev a h) \<and>
     (\<forall>a. (hh_node h' a = None) = (hh_node h a = None)) \<and>
     (\<forall>p. (hload (First p) h' = None) = (hload (First p) h = None))"

lemma hlist_frame [frame]:
  assumes "hlist h hp xs" "honly H A h h'" "hp \<notin> H" "set xs \<inter> A = {}"
  shows "hlist h' hp xs"
proof -
  have "hchain h' (First hp) xs = hchain h (First hp) xs"
    using assms(2-4) by (intro hchain_cong) (auto simp: honly_def)
  with assms(1) show ?thesis by (simp add: hlist_def)
qed

lemma honly_refl [simp, intro]: "honly H A h h"
  by (simp add: honly_def)

lemma honly_hupd_First [intro]:
  "honly H A h h' \<Longrightarrow> hload (First p) h' \<noteq> None \<Longrightarrow> p \<in> H \<Longrightarrow> honly H A h (hupd (First p) v h')"
  by (auto simp: honly_def)

lemma honly_hupd_Next [intro]:
  "honly H A h h' \<Longrightarrow> hh_node h' p \<noteq> None \<Longrightarrow> p \<in> A \<Longrightarrow> honly H A h (hupd (Next p) v h')"
  by (auto simp: honly_def hload_node)

lemma honly_pupd [intro]:
  "honly H A h h' \<Longrightarrow> hh_node h' p \<noteq> None \<Longrightarrow> p \<in> A \<Longrightarrow> honly H A h (pupd p v h')"
  by (auto simp: honly_def)

lemma hlist_add_head_hlist:
  assumes "hlist h hp xs" "hh_node h n \<noteq> None" "n \<noteq> 0" "n \<notin> set xs"
  shows "\<exists>h'. hlist_add_head n hp h = Some h' \<and> hlist h' hp (n # xs) \<and> honly {hp} (set (n # xs)) h h'"
proof -
  have f: "hload (First hp) h = Some (case xs of [] \<Rightarrow> 0 | x # _ \<Rightarrow> x)"
    using assms(1) by (simp add: hlist_def hchain_hload)
  show ?thesis
  proof (cases xs)
    case Nil
    let ?h = "pupd n (Some (First hp)) (hupd (First hp) n (hupd (Next n) 0 h))"
    have "hlist_add_head n hp h = Some ?h" using Nil assms f
      by (simp add: hlist_add_head_def hload_node)
    moreover have "hlist ?h hp [n]" using Nil assms f by (simp add: hlist_def hload_node)
    moreover have "honly {hp} (set (n # xs)) h ?h" using assms f Nil
      by (intro honly_pupd honly_hupd_First honly_hupd_Next) (auto simp: hload_node)
    ultimately show ?thesis using Nil by blast
  next
    case (Cons y ys)
    then have y: "hh_node h y \<noteq> None" "y \<noteq> 0" "y \<noteq> n"
      using assms hchain_nodes [of h "First hp" xs y] by (auto simp: hlist_def)
    let ?h = "pupd n (Some (First hp)) (hupd (First hp) n (pupd y (Some (Next n)) (hupd (Next n) y h)))"
    have "hlist_add_head n hp h = Some ?h" using Cons assms f y
      by (simp add: hlist_add_head_def hload_node)
    moreover have "hchain ?h (Next y) ys = hchain h (Next y) ys"
      using assms f y Cons by (intro hchain_cong) (auto simp: hload_node hlist_def)
    then have "hlist ?h hp (n # xs)" using assms f y Cons by (simp add: hlist_def hload_node)
    moreover have "honly {hp} (set (n # xs)) h ?h" using assms f Cons y
      by (intro honly_pupd honly_hupd_First honly_hupd_Next) (auto simp: hload_node)
    ultimately show ?thesis by blast
  qed
qed

lemma c_hlist_del_hlist:
  assumes "hlist h hp (xs @ x # ys)"
  shows "\<exists>h'. c_hlist_del x h = Some h' \<and> hlist h' hp (xs @ ys) \<and> hh_node h' x \<noteq> None
           \<and> honly {hp} (set (xs @ ys)) h h'"
proof -
  let ?l = "First hp" and ?k = "hend (First hp) xs"
  have s: "hseg h ?l xs" "hload ?k h = Some x" "x \<noteq> 0" "get_pprev x h = Some (Some ?k)"
    "hchain h (Next x) ys" "distinct (xs @ x # ys)"
    using assms by (simp_all add: hlist_def hchain_append)
  have x: "hh_node h x \<noteq> None" using s(4) by (auto simp: get_pprev_def)
  have nx: "hload (Next x) h = Some (case ys of [] \<Rightarrow> 0 | y # _ \<Rightarrow> y)" using s(5) by (rule hchain_hload)
  have seg: "hseg h' ?l xs" if "\<forall>a \<in> set xs. get_pprev a h' = get_pprev a h"
    "\<forall>k. k \<noteq> ?k \<longrightarrow> hload k h' = hload k h" for h'
    by (rule hseg_cong [OF s(1) that]) (use s(6) in auto)
  have o: "honly {hp} (set (xs @ ys)) h (hupd ?k v h)" for v
  proof (cases "xs = []")
    case True
    with s(2) have "hload (First hp) h \<noteq> None" by simp
    then have "honly {hp} (set (xs @ ys)) h (hupd (First hp) v h)"
      by (intro honly_hupd_First honly_refl) simp_all
    with True show ?thesis by simp
  next
    case False
    with s(2) have "hh_node h (last xs) \<noteq> None" using hload_node(1) [of "last xs" h] by simp
    then have "honly {hp} (set (xs @ ys)) h (hupd (Next (last xs)) v h)"
      using False by (intro honly_hupd_Next honly_refl) simp_all
    with False show ?thesis by simp
  qed
  show ?thesis
  proof (cases ys)
    case Nil
    let ?h = "hupd ?k 0 h"
    have h: "c_hlist_del x h = Some ?h" using Nil s nx by (simp add: c_hlist_del_def)
    have "hseg ?h ?l xs" "hload ?k ?h = Some 0" using s by (simp_all add: seg)
    then have "hlist ?h hp (xs @ ys)"
      using Nil s(6) hchain_append [of ?h ?l xs "[]"] by (simp add: hlist_def)
    moreover have "hh_node ?h x \<noteq> None" using x s(2) by simp
    ultimately show ?thesis using h o by blast
  next
    case (Cons y zs)
    then have y: "hh_node h y \<noteq> None" "y \<noteq> 0" "y \<noteq> x" "y \<notin> set xs" "y \<notin> set zs" "hchain h (Next y) zs"
      using s(5,6) hchain_nodes [of h "Next x" ys y] by auto
    have ky: "hh_node (hupd ?k y h) y \<noteq> None" "hload ?k h \<noteq> None" using y(1) s(2) by simp_all
    let ?h = "pupd y (Some ?k) (hupd ?k y h)"
    have h: "c_hlist_del x h = Some ?h" using Cons s nx y ky by (simp add: c_hlist_del_def)
    have kz: "?k \<notin> Next ` set (y # zs)" using s(6) Cons by (cases xs rule: rev_cases) auto
    have "hchain ?h (Next y) zs = hchain h (Next y) zs"
      by (rule hchain_cong) (use ky kz y in \<open>auto simp del: if_split_asm\<close>)
    moreover have "hseg ?h ?l xs" by (rule seg) (use ky y in auto)
    moreover have "hload ?k ?h = Some y" "get_pprev y ?h = Some (Some ?k)" using ky by simp_all
    ultimately have "hlist ?h hp (xs @ ys)"
      using Cons s(6) y hchain_append [of ?h ?l xs "y # zs"] by (simp add: hlist_def)
    moreover have "honly {hp} (set (xs @ ys)) h ?h"
      using ky Cons by (intro honly_pupd o) simp_all
    moreover have "hh_node ?h x \<noteq> None" using x ky by simp
    ultimately show ?thesis using h by blast
  qed
qed

lemma hlist_del_init_hlist:
  assumes "hlist h hp (xs @ x # ys)"
  shows "\<exists>h'. hlist_del_init x h = Some h' \<and> hlist h' hp (xs @ ys) \<and> hlist_unhashed x h' = Some True
           \<and> honly {hp} (set (xs @ x # ys)) h h'"
proof -
  obtain h1 where h1: "c_hlist_del x h = Some h1" "hlist h1 hp (xs @ ys)" "hh_node h1 x \<noteq> None"
    "honly {hp} (set (xs @ ys)) h h1"
    using c_hlist_del_hlist [OF assms] by blast
  let ?h = "pupd x None (hupd (Next x) 0 h1)"
  obtain l where p: "get_pprev x h = Some (Some l)"
    using assms by (auto simp: hlist_def hchain_append)
  have "hlist_del_init x h = Some ?h"
    using h1 p by (auto simp: hlist_del_init_def hlist_unhashed_def INIT_HLIST_NODE_def hload_node)
  moreover have o: "honly {} {x} h1 ?h" using h1(3) by (intro honly_pupd honly_hupd_Next) (simp_all add: hload_node)
  moreover have "hlist ?h hp (xs @ ys)"
    using assms by (intro hlist_frame [OF h1(2) o]) (auto simp: hlist_def)
  moreover have "honly {hp} (set (xs @ x # ys)) h ?h"
    using h1(4) o by (auto simp: honly_def)
  ultimately show ?thesis using h1(3) by (auto simp: hlist_unhashed_def hload_node)
qed

section \<open>Properties\<close>

text \<open>C20. Cutting a ring after the entry \<open>e\<close> moves the entries up to \<open>e\<close> to a fresh head, and splicing
  that list back at the front of the ring restores the ring as it was, with the fresh head empty;
  nodes outside the two lists are untouched.\<close>

theorem list_cut_splice_roundtrip:
  assumes "ring h head (xs @ e # ys)" "l \<in> dom h" "l \<notin> set (head # xs @ e # ys)"
  shows "\<exists>h1 h2. list_cut_position l head e h = Some h1 \<and> ring h1 l (xs @ [e]) \<and> ring h1 head ys
           \<and> list_splice_init l head h1 = Some h2 \<and> ring h2 head (xs @ e # ys) \<and> ring h2 l []
           \<and> only_changes (set (l # head # xs @ e # ys)) h h2"
proof -
  obtain h1 where h1: "list_cut_position l head e h = Some h1" "ring h1 l (xs @ [e])" "ring h1 head ys"
    "only_changes (set (l # head # xs @ e # ys)) h h1"
    using list_cut_position_ring [OF assms] by blast
  have "set (l # xs @ [e]) \<inter> set (head # ys) = {}"
    using assms(1,3) by (auto simp: ring_def)
  then obtain h2 where "list_splice_init l head h1 = Some h2" "ring h2 head ((xs @ [e]) @ ys)" "ring h2 l []"
    "only_changes (set (l # head # (xs @ [e]) @ ys)) h1 h2"
    using list_splice_init_ring(1) [OF h1(2,3)] by blast
  with h1 show ?thesis by (auto intro!: exI [of _ h1] exI [of _ h2] elim: only_changes_trans)
qed

theorem list_cut_splice_roundtrip_witness:
  "\<exists>h1 h2. list_cut_position 9 1 2 [1 \<mapsto> \<lparr>lh_prev = 3, lh_next = 2\<rparr>, 2 \<mapsto> \<lparr>lh_prev = 1, lh_next = 3\<rparr>,
       3 \<mapsto> \<lparr>lh_prev = 2, lh_next = 1\<rparr>, 9 \<mapsto> \<lparr>lh_prev = 0, lh_next = 0\<rparr>] = Some h1
     \<and> ring h1 9 [2] \<and> ring h1 1 [3] \<and> list_splice_init 9 1 h1 = Some h2 \<and> ring h2 1 [2, 3] \<and> ring h2 9 []"
proof -
  let ?h = "[1 \<mapsto> \<lparr>lh_prev = 3, lh_next = 2\<rparr>, 2 \<mapsto> \<lparr>lh_prev = 1, lh_next = 3\<rparr>,
       3 \<mapsto> \<lparr>lh_prev = 2, lh_next = 1\<rparr>, 9 \<mapsto> \<lparr>lh_prev = 0, lh_next = 0\<rparr>] :: lheap"
  have "ring ?h 1 ([] @ 2 # [3])" by (simp add: ring_def link_def get_next_def get_prev_def)
  from list_cut_splice_roundtrip [OF this, of 9] show ?thesis by auto
qed

text \<open>C21. Walking a ring visits its entries in order, and backwards in reverse order; both walks end.
  The walk after \<open>list_move_tail\<close> of an entry sees that entry last and the others in their order.\<close>

theorem list_for_each_move_tail:
  assumes "ring h head (xs @ x # ys)"
  shows "list_for_each h head = Some (xs @ x # ys) \<and> list_for_each_prev h head = Some (rev (xs @ x # ys))
     \<and> (\<exists>h'. list_move_tail x head h = Some h' \<and> list_for_each h' head = Some (xs @ ys @ [x]))"
  using list_for_each_ring [OF assms] list_move_ring(2) [OF assms] list_for_each_ring(1) by blast

theorem list_for_each_move_tail_witness:
  "\<exists>h'. list_move_tail 2 1 [1 \<mapsto> \<lparr>lh_prev = 3, lh_next = 2\<rparr>, 2 \<mapsto> \<lparr>lh_prev = 1, lh_next = 3\<rparr>,
       3 \<mapsto> \<lparr>lh_prev = 2, lh_next = 1\<rparr>] = Some h' \<and> list_for_each h' 1 = Some [3, 2]"
proof -
  have "ring [1 \<mapsto> \<lparr>lh_prev = 3, lh_next = 2\<rparr>, 2 \<mapsto> \<lparr>lh_prev = 1, lh_next = 3\<rparr>,
       3 \<mapsto> \<lparr>lh_prev = 2, lh_next = 1\<rparr>] 1 ([] @ 2 # [3])"
    by (simp add: ring_def link_def get_next_def get_prev_def)
  from list_for_each_move_tail [OF this] show ?thesis by auto
qed

text \<open>C22. Adding a node at the head of a hash chain and deleting it again with \<open>hlist_del_init\<close> gives the
  chain back, leaves the node unhashed, and touches nothing but that chain.\<close>

theorem hlist_add_del_roundtrip:
  assumes "hlist h hp xs" "hh_node h n \<noteq> None" "n \<noteq> 0" "n \<notin> set xs"
  shows "\<exists>h1 h2. hlist_add_head n hp h = Some h1 \<and> hlist_for_each h1 hp = Some (n # xs)
     \<and> hlist_del_init n h1 = Some h2 \<and> hlist_for_each h2 hp = Some xs \<and> hlist_unhashed n h2 = Some True
     \<and> honly {hp} (set (n # xs)) h h2"
proof -
  obtain h1 where h1: "hlist_add_head n hp h = Some h1" "hlist h1 hp ([] @ n # xs)" "honly {hp} (set (n # xs)) h h1"
    using hlist_add_head_hlist [OF assms] by auto
  obtain h2 where h2: "hlist_del_init n h1 = Some h2" "hlist h2 hp xs" "hlist_unhashed n h2 = Some True"
    "honly {hp} (set (n # xs)) h1 h2"
    using hlist_del_init_hlist [OF h1(2)] by auto
  have "honly {hp} (set (n # xs)) h h2" using h1(3) h2(4) by (simp add: honly_def)
  with h1 h2 hlist_for_each_hlist [OF h1(2)] hlist_for_each_hlist [OF h2(2)] show ?thesis by auto
qed

theorem hlist_add_del_roundtrip_witness:
  "\<exists>h1 h2. hlist_add_head 8 1 \<lparr>hh_first = [1 \<mapsto> 5], hh_node = [5 \<mapsto> \<lparr>hn_next = 0, hn_pprev = Some (First 1)\<rparr>,
       8 \<mapsto> \<lparr>hn_next = 0, hn_pprev = None\<rparr>]\<rparr> = Some h1 \<and> hlist_for_each h1 1 = Some [8, 5]
     \<and> hlist_del_init 8 h1 = Some h2 \<and> hlist_for_each h2 1 = Some [5]"
proof -
  let ?h = "\<lparr>hh_first = [1 \<mapsto> 5], hh_node = [5 \<mapsto> \<lparr>hn_next = 0, hn_pprev = Some (First 1)\<rparr>,
       8 \<mapsto> \<lparr>hn_next = 0, hn_pprev = None\<rparr>]\<rparr>"
  have "hlist ?h 1 [5]" by (simp add: hlist_def hload.simps get_pprev_def)
  from hlist_add_del_roundtrip [OF this, of 8] show ?thesis by auto
qed

end
