(* ===== verification/Rbtree.thy ===== *)
theory Rbtree
  imports Prelude
begin

text \<open>
  The augmented red-black trees of \<^verbatim>\<open>board/soc/core/rbtree.c\<close> and
  \<^verbatim>\<open>include/uapi/rbtree.h\<close>, on an explicit store.

  A store maps addresses to nodes. A node is an extensible record whose first three fields are
  \<^verbatim>\<open>struct rb_node\<close>: the packed parent pointer and colour, and the two children; a client extends
  it with its own fields, the way the C code embeds the node in a larger structure (the address of
  the structure stands for the address of the node inside it). The root pointer of the tree is
  passed along and returned. A null or dangling dereference gives \<open>None\<close>, and so does a loop that
  never ends.

  The functions follow the source write by write.
\<close>

section \<open>Nodes, and the packed parent pointer\<close>

type_synonym rptr = u64

record rb_node =
  rb_pc :: u64
  rb_right :: rptr
  rb_left :: rptr

type_synonym 'a rbheap = "rptr \<rightharpoonup> 'a rb_node_scheme"

definition RB_RED :: u64 where "RB_RED = 0"
definition RB_BLACK :: u64 where "RB_BLACK = 1"

definition pc_parent :: "u64 \<Rightarrow> rptr" where
  "pc_parent pc = pc AND NOT 3"

definition pc_color :: "u64 \<Rightarrow> u64" where
  "pc_color pc = pc AND 1"

definition pc_is_black :: "u64 \<Rightarrow> bool" where
  "pc_is_black pc \<longleftrightarrow> pc_color pc \<noteq> 0"

definition upd :: "rptr \<Rightarrow> ('n \<Rightarrow> 'n) \<Rightarrow> (rptr \<rightharpoonup> 'n) \<Rightarrow> (rptr \<rightharpoonup> 'n)" where
  "upd p f h = h(p := map_option f (h p))"

definition wr :: "rptr \<Rightarrow> ('n \<Rightarrow> 'n) \<Rightarrow> (rptr \<rightharpoonup> 'n) \<Rightarrow> (rptr \<rightharpoonup> 'n) option" where
  "wr p f h = (if h p = None then None else Some (upd p f h))"

definition rd :: "rptr \<Rightarrow> ('n \<Rightarrow> 'b) \<Rightarrow> (rptr \<rightharpoonup> 'n) \<Rightarrow> 'b option" where
  "rd p f h = map_option f (h p)"

definition rb_parent :: "rptr \<Rightarrow> 'a rbheap \<Rightarrow> rptr option" where
  "rb_parent p h = map_option pc_parent (rd p rb_pc h)"

definition rb_red_parent :: "rptr \<Rightarrow> 'a rbheap \<Rightarrow> rptr option" where
  "rb_red_parent red h = rd red rb_pc h"

definition rb_is_black :: "rptr \<Rightarrow> 'a rbheap \<Rightarrow> bool option" where
  "rb_is_black p h = map_option pc_is_black (rd p rb_pc h)"

definition rb_is_red :: "rptr \<Rightarrow> 'a rbheap \<Rightarrow> bool option" where
  "rb_is_red p h = map_option (\<lambda>pc. \<not> pc_is_black pc) (rd p rb_pc h)"

definition rb_set_black :: "rptr \<Rightarrow> 'a rbheap \<Rightarrow> 'a rbheap option" where
  "rb_set_black p h = wr p (\<lambda>n. n\<lparr>rb_pc := rb_pc n OR RB_BLACK\<rparr>) h"

definition rb_set_parent :: "rptr \<Rightarrow> rptr \<Rightarrow> 'a rbheap \<Rightarrow> 'a rbheap option" where
  "rb_set_parent rb p h = wr rb (\<lambda>n. n\<lparr>rb_pc := pc_color (rb_pc n) OR p\<rparr>) h"

definition rb_set_parent_color :: "rptr \<Rightarrow> rptr \<Rightarrow> u64 \<Rightarrow> 'a rbheap \<Rightarrow> 'a rbheap option" where
  "rb_set_parent_color rb p color h = wr rb (\<lambda>n. n\<lparr>rb_pc := p OR color\<rparr>) h"

definition set_left :: "rptr \<Rightarrow> rptr \<Rightarrow> 'a rbheap \<Rightarrow> 'a rbheap option" where
  "set_left p v h = wr p (\<lambda>n. n\<lparr>rb_left := v\<rparr>) h"

definition set_right :: "rptr \<Rightarrow> rptr \<Rightarrow> 'a rbheap \<Rightarrow> 'a rbheap option" where
  "set_right p v h = wr p (\<lambda>n. n\<lparr>rb_right := v\<rparr>) h"

definition RB_EMPTY_ROOT :: "rptr \<Rightarrow> bool" where
  "RB_EMPTY_ROOT root \<longleftrightarrow> root = 0"

definition RB_EMPTY_NODE :: "rptr \<Rightarrow> 'a rbheap \<Rightarrow> bool option" where
  "RB_EMPTY_NODE p h = map_option (\<lambda>pc. pc = p) (rd p rb_pc h)"

text \<open>
  \<^verbatim>\<open>rb_link_node\<close>: the link it writes is a child field of the parent, or the root when there is
  no parent.
\<close>

datatype rb_link = Root_link | Left_link rptr | Right_link rptr

fun store_link :: "rb_link \<Rightarrow> rptr \<Rightarrow> 'a rbheap \<times> rptr \<Rightarrow> ('a rbheap \<times> rptr) option" where
  "store_link Root_link v (h, root) = Some (h, v)"
| "store_link (Left_link p) v (h, root) = do { h \<leftarrow> set_left p v h; Some (h, root) }"
| "store_link (Right_link p) v (h, root) = do { h \<leftarrow> set_right p v h; Some (h, root) }"

fun load_link :: "rb_link \<Rightarrow> 'a rbheap \<times> rptr \<Rightarrow> rptr option" where
  "load_link Root_link (h, root) = Some root"
| "load_link (Left_link p) (h, root) = rd p rb_left h"
| "load_link (Right_link p) (h, root) = rd p rb_right h"

definition rb_link_node ::
  "rptr \<Rightarrow> rptr \<Rightarrow> rb_link \<Rightarrow> 'a rbheap \<times> rptr \<Rightarrow> ('a rbheap \<times> rptr) option" where
  "rb_link_node node parent link st = do {
     h \<leftarrow> wr node (\<lambda>n. n\<lparr>rb_pc := parent, rb_right := 0, rb_left := 0\<rparr>) (fst st);
     store_link link node (h, snd st) }"

section \<open>Insertion\<close>

definition rb_change_child ::
  "rptr \<Rightarrow> rptr \<Rightarrow> rptr \<Rightarrow> 'a rbheap \<times> rptr \<Rightarrow> ('a rbheap \<times> rptr) option" where
  "rb_change_child old new parent st = (case st of (h, root) \<Rightarrow>
     if parent \<noteq> 0 then do {
       l \<leftarrow> rd parent rb_left h;
       h \<leftarrow> (if l = old then set_left parent new h else set_right parent new h);
       Some (h, root) }
     else Some (h, new))"

definition rb_rotate_set_parents ::
  "rptr \<Rightarrow> rptr \<Rightarrow> u64 \<Rightarrow> 'a rbheap \<times> rptr \<Rightarrow> ('a rbheap \<times> rptr) option" where
  "rb_rotate_set_parents old new color st = (case st of (h, root) \<Rightarrow> do {
     parent \<leftarrow> rb_parent old h;
     pc \<leftarrow> rd old rb_pc h;
     h \<leftarrow> wr new (\<lambda>n. n\<lparr>rb_pc := pc\<rparr>) h;
     h \<leftarrow> rb_set_parent_color old new color h;
     rb_change_child old new parent (h, root) })"

text \<open>The callback a rotation is given; the loops below take it as their first argument.\<close>

type_synonym 'a rotate_cb = "rptr \<Rightarrow> rptr \<Rightarrow> 'a rbheap \<Rightarrow> 'a rbheap option"

definition set_pc_if :: "rptr \<Rightarrow> rptr \<Rightarrow> u64 \<Rightarrow> 'a rbheap \<Rightarrow> 'a rbheap option" where
  "set_pc_if tmp p color h = (if tmp \<noteq> 0 then rb_set_parent_color tmp p color h else Some h)"

text \<open>Cases 2 and 3 when the parent is the left child of the grandparent, and their mirror image.\<close>

definition rb_insert_rotate_l ::
  "'a rotate_cb \<Rightarrow> rptr \<Rightarrow> rptr \<Rightarrow> rptr \<Rightarrow> 'a rbheap \<times> rptr \<Rightarrow> ('a rbheap \<times> rptr) option" where
  "rb_insert_rotate_l augment_rotate node parent gparent st = (case st of (h, root) \<Rightarrow> do {
     tmp \<leftarrow> rd parent rb_right h;
     (h, parent, tmp) \<leftarrow>
       (if node = tmp then do {
          tmp \<leftarrow> rd node rb_left h;
          h \<leftarrow> set_right parent tmp h;
          h \<leftarrow> set_left node parent h;
          h \<leftarrow> set_pc_if tmp parent RB_BLACK h;
          h \<leftarrow> rb_set_parent_color parent node RB_RED h;
          h \<leftarrow> augment_rotate parent node h;
          tmp \<leftarrow> rd node rb_right h;
          Some (h, node, tmp) }
        else Some (h, parent, tmp));
     h \<leftarrow> set_left gparent tmp h;
     h \<leftarrow> set_right parent gparent h;
     h \<leftarrow> set_pc_if tmp gparent RB_BLACK h;
     (h, root) \<leftarrow> rb_rotate_set_parents gparent parent RB_RED (h, root);
     h \<leftarrow> augment_rotate gparent parent h;
     Some (h, root) })"

definition rb_insert_rotate_r ::
  "'a rotate_cb \<Rightarrow> rptr \<Rightarrow> rptr \<Rightarrow> rptr \<Rightarrow> 'a rbheap \<times> rptr \<Rightarrow> ('a rbheap \<times> rptr) option" where
  "rb_insert_rotate_r augment_rotate node parent gparent st = (case st of (h, root) \<Rightarrow> do {
     tmp \<leftarrow> rd parent rb_left h;
     (h, parent, tmp) \<leftarrow>
       (if node = tmp then do {
          tmp \<leftarrow> rd node rb_right h;
          h \<leftarrow> set_left parent tmp h;
          h \<leftarrow> set_right node parent h;
          h \<leftarrow> set_pc_if tmp parent RB_BLACK h;
          h \<leftarrow> rb_set_parent_color parent node RB_RED h;
          h \<leftarrow> augment_rotate parent node h;
          tmp \<leftarrow> rd node rb_left h;
          Some (h, node, tmp) }
        else Some (h, parent, tmp));
     h \<leftarrow> set_right gparent tmp h;
     h \<leftarrow> set_left parent gparent h;
     h \<leftarrow> set_pc_if tmp gparent RB_BLACK h;
     (h, root) \<leftarrow> rb_rotate_set_parents gparent parent RB_RED (h, root);
     h \<leftarrow> augment_rotate gparent parent h;
     Some (h, root) })"

text \<open>Case 1: both the parent and the uncle \<open>tmp\<close> are red.\<close>

definition rb_insert_flip :: "rptr \<Rightarrow> rptr \<Rightarrow> rptr \<Rightarrow> 'a rbheap \<Rightarrow> (rptr \<times> 'a rbheap) option" where
  "rb_insert_flip tmp parent gparent h = do {
     h \<leftarrow> rb_set_parent_color tmp gparent RB_BLACK h;
     h \<leftarrow> rb_set_parent_color parent gparent RB_BLACK h;
     p \<leftarrow> rb_parent gparent h;
     h \<leftarrow> rb_set_parent_color gparent p RB_RED h;
     Some (p, h) }"

definition red_node :: "rptr \<Rightarrow> 'a rbheap \<Rightarrow> bool option" where
  "red_node p h = (if p = 0 then Some False else rb_is_red p h)"

partial_function (option) rb_insert_loop ::
  "'a rotate_cb \<Rightarrow> rptr \<Rightarrow> rptr \<Rightarrow> 'a rbheap \<times> rptr \<Rightarrow> ('a rbheap \<times> rptr) option" where
  "rb_insert_loop augment_rotate node parent st =
     (if parent = 0 then do {
        h \<leftarrow> rb_set_parent_color node 0 RB_BLACK (fst st); Some (h, snd st) }
      else do {
        b \<leftarrow> rb_is_black parent (fst st);
        if b then Some st
        else do {
          gparent \<leftarrow> rb_red_parent parent (fst st);
          tmp \<leftarrow> rd gparent rb_right (fst st);
          if parent \<noteq> tmp then do {
            red \<leftarrow> red_node tmp (fst st);
            if red then do {
              r \<leftarrow> rb_insert_flip tmp parent gparent (fst st);
              rb_insert_loop augment_rotate gparent (fst r) (snd r, snd st) }
            else rb_insert_rotate_l augment_rotate node parent gparent st }
          else do {
            tmp \<leftarrow> rd gparent rb_left (fst st);
            red \<leftarrow> red_node tmp (fst st);
            if red then do {
              r \<leftarrow> rb_insert_flip tmp parent gparent (fst st);
              rb_insert_loop augment_rotate gparent (fst r) (snd r, snd st) }
            else rb_insert_rotate_r augment_rotate node parent gparent st } } })"

definition rb_insert ::
  "'a rotate_cb \<Rightarrow> rptr \<Rightarrow> 'a rbheap \<times> rptr \<Rightarrow> ('a rbheap \<times> rptr) option" where
  "rb_insert augment_rotate node st = do {
     parent \<leftarrow> rb_red_parent node (fst st);
     rb_insert_loop augment_rotate node parent st }"

section \<open>Removal\<close>

text \<open>
  Rebalancing after a removal, with \<open>node\<close> the left child of \<open>parent\<close>: case 1 (red sibling), and
  cases 3 and 4 together. Case 2 is in the loop.
\<close>

definition rb_erase_case1_l ::
  "'a rotate_cb \<Rightarrow> rptr \<Rightarrow> rptr \<Rightarrow> 'a rbheap \<times> rptr \<Rightarrow> (rptr \<times> 'a rbheap \<times> rptr) option" where
  "rb_erase_case1_l augment_rotate parent sibling st = (case st of (h, root) \<Rightarrow> do {
     red \<leftarrow> rb_is_red sibling h;
     if red then do {
       tmp1 \<leftarrow> rd sibling rb_left h;
       h \<leftarrow> set_right parent tmp1 h;
       h \<leftarrow> set_left sibling parent h;
       h \<leftarrow> rb_set_parent_color tmp1 parent RB_BLACK h;
       (h, root) \<leftarrow> rb_rotate_set_parents parent sibling RB_RED (h, root);
       h \<leftarrow> augment_rotate parent sibling h;
       Some (tmp1, h, root) }
     else Some (sibling, h, root) })"

definition rb_erase_case3_l ::
  "'a rotate_cb \<Rightarrow> rptr \<Rightarrow> rptr \<Rightarrow> rptr \<Rightarrow> 'a rbheap \<Rightarrow> 'a rbheap option" where
  "rb_erase_case3_l augment_rotate parent sibling tmp2 h = do {
     tmp1 \<leftarrow> rd tmp2 rb_right h;
     h \<leftarrow> set_left sibling tmp1 h;
     h \<leftarrow> set_right tmp2 sibling h;
     h \<leftarrow> set_right parent tmp2 h;
     h \<leftarrow> set_pc_if tmp1 sibling RB_BLACK h;
     augment_rotate sibling tmp2 h }"

definition rb_erase_case4_l ::
  "'a rotate_cb \<Rightarrow> rptr \<Rightarrow> rptr \<Rightarrow> rptr \<Rightarrow> 'a rbheap \<times> rptr \<Rightarrow> ('a rbheap \<times> rptr) option" where
  "rb_erase_case4_l augment_rotate parent sibling tmp1 st = (case st of (h, root) \<Rightarrow> do {
     tmp2 \<leftarrow> rd sibling rb_left h;
     h \<leftarrow> set_right parent tmp2 h;
     h \<leftarrow> set_left sibling parent h;
     h \<leftarrow> rb_set_parent_color tmp1 sibling RB_BLACK h;
     h \<leftarrow> (if tmp2 \<noteq> 0 then rb_set_parent tmp2 parent h else Some h);
     (h, root) \<leftarrow> rb_rotate_set_parents parent sibling RB_BLACK (h, root);
     h \<leftarrow> augment_rotate parent sibling h;
     Some (h, root) })"

definition rb_erase_case1_r ::
  "'a rotate_cb \<Rightarrow> rptr \<Rightarrow> rptr \<Rightarrow> 'a rbheap \<times> rptr \<Rightarrow> (rptr \<times> 'a rbheap \<times> rptr) option" where
  "rb_erase_case1_r augment_rotate parent sibling st = (case st of (h, root) \<Rightarrow> do {
     red \<leftarrow> rb_is_red sibling h;
     if red then do {
       tmp1 \<leftarrow> rd sibling rb_right h;
       h \<leftarrow> set_left parent tmp1 h;
       h \<leftarrow> set_right sibling parent h;
       h \<leftarrow> rb_set_parent_color tmp1 parent RB_BLACK h;
       (h, root) \<leftarrow> rb_rotate_set_parents parent sibling RB_RED (h, root);
       h \<leftarrow> augment_rotate parent sibling h;
       Some (tmp1, h, root) }
     else Some (sibling, h, root) })"

definition rb_erase_case3_r ::
  "'a rotate_cb \<Rightarrow> rptr \<Rightarrow> rptr \<Rightarrow> rptr \<Rightarrow> 'a rbheap \<Rightarrow> 'a rbheap option" where
  "rb_erase_case3_r augment_rotate parent sibling tmp2 h = do {
     tmp1 \<leftarrow> rd tmp2 rb_left h;
     h \<leftarrow> set_right sibling tmp1 h;
     h \<leftarrow> set_left tmp2 sibling h;
     h \<leftarrow> set_left parent tmp2 h;
     h \<leftarrow> set_pc_if tmp1 sibling RB_BLACK h;
     augment_rotate sibling tmp2 h }"

definition rb_erase_case4_r ::
  "'a rotate_cb \<Rightarrow> rptr \<Rightarrow> rptr \<Rightarrow> rptr \<Rightarrow> 'a rbheap \<times> rptr \<Rightarrow> ('a rbheap \<times> rptr) option" where
  "rb_erase_case4_r augment_rotate parent sibling tmp1 st = (case st of (h, root) \<Rightarrow> do {
     tmp2 \<leftarrow> rd sibling rb_right h;
     h \<leftarrow> set_left parent tmp2 h;
     h \<leftarrow> set_right sibling parent h;
     h \<leftarrow> rb_set_parent_color tmp1 sibling RB_BLACK h;
     h \<leftarrow> (if tmp2 \<noteq> 0 then rb_set_parent tmp2 parent h else Some h);
     (h, root) \<leftarrow> rb_rotate_set_parents parent sibling RB_BLACK (h, root);
     h \<leftarrow> augment_rotate parent sibling h;
     Some (h, root) })"

text \<open>
  Case 2, the sibling colour flip. The result is the next \<open>parent\<close> to continue at, or \<open>None\<close> when
  the loop ends there.
\<close>

definition rb_erase_case2 ::
  "rptr \<Rightarrow> rptr \<Rightarrow> 'a rbheap \<times> rptr \<Rightarrow> (rptr option \<times> 'a rbheap \<times> rptr) option" where
  "rb_erase_case2 parent sibling st = (case st of (h, root) \<Rightarrow> do {
     h \<leftarrow> rb_set_parent_color sibling parent RB_RED h;
     red \<leftarrow> rb_is_red parent h;
     if red then do { h \<leftarrow> rb_set_black parent h; Some (None, h, root) }
     else do {
       p \<leftarrow> rb_parent parent h;
       Some (if p \<noteq> 0 then Some p else None, h, root) } })"

partial_function (option) rb_erase_color_loop ::
  "'a rotate_cb \<Rightarrow> rptr \<Rightarrow> rptr \<Rightarrow> 'a rbheap \<times> rptr \<Rightarrow> ('a rbheap \<times> rptr) option" where
  "rb_erase_color_loop augment_rotate node parent st = do {
     sibling \<leftarrow> rd parent rb_right (fst st);
     if node \<noteq> sibling then do {
       s1 \<leftarrow> rb_erase_case1_l augment_rotate parent sibling st;
       tmp1 \<leftarrow> rd (fst s1) rb_right (fst (snd s1));
       red1 \<leftarrow> red_node tmp1 (fst (snd s1));
       if \<not> red1 then do {
         tmp2 \<leftarrow> rd (fst s1) rb_left (fst (snd s1));
         red2 \<leftarrow> red_node tmp2 (fst (snd s1));
         if \<not> red2 then do {
           s2 \<leftarrow> rb_erase_case2 parent (fst s1) (snd s1);
           (case fst s2 of None \<Rightarrow> Some (snd s2)
            | Some p \<Rightarrow> rb_erase_color_loop augment_rotate parent p (snd s2)) }
         else do {
           h \<leftarrow> rb_erase_case3_l augment_rotate parent (fst s1) tmp2 (fst (snd s1));
           rb_erase_case4_l augment_rotate parent tmp2 (fst s1) (h, snd (snd s1)) } }
       else rb_erase_case4_l augment_rotate parent (fst s1) tmp1 (snd s1) }
     else do {
       sibling \<leftarrow> rd parent rb_left (fst st);
       s1 \<leftarrow> rb_erase_case1_r augment_rotate parent sibling st;
       tmp1 \<leftarrow> rd (fst s1) rb_left (fst (snd s1));
       red1 \<leftarrow> red_node tmp1 (fst (snd s1));
       if \<not> red1 then do {
         tmp2 \<leftarrow> rd (fst s1) rb_right (fst (snd s1));
         red2 \<leftarrow> red_node tmp2 (fst (snd s1));
         if \<not> red2 then do {
           s2 \<leftarrow> rb_erase_case2 parent (fst s1) (snd s1);
           (case fst s2 of None \<Rightarrow> Some (snd s2)
            | Some p \<Rightarrow> rb_erase_color_loop augment_rotate parent p (snd s2)) }
         else do {
           h \<leftarrow> rb_erase_case3_r augment_rotate parent (fst s1) tmp2 (fst (snd s1));
           rb_erase_case4_r augment_rotate parent tmp2 (fst s1) (h, snd (snd s1)) } }
       else rb_erase_case4_r augment_rotate parent (fst s1) tmp1 (snd s1) } }"

definition rb_erase_color ::
  "'a rotate_cb \<Rightarrow> rptr \<Rightarrow> 'a rbheap \<times> rptr \<Rightarrow> ('a rbheap \<times> rptr) option" where
  "rb_erase_color augment_rotate parent st = rb_erase_color_loop augment_rotate 0 parent st"

text \<open>The structure \<^verbatim>\<open>rb_augment_callbacks\<close>: the three function pointers.\<close>

record 'a rb_augment_callbacks =
  cb_propagate :: "rptr \<Rightarrow> rptr \<Rightarrow> 'a rbheap \<Rightarrow> 'a rbheap option"
  cb_copy :: "rptr \<Rightarrow> rptr \<Rightarrow> 'a rbheap \<Rightarrow> 'a rbheap option"
  cb_rotate :: "rptr \<Rightarrow> rptr \<Rightarrow> 'a rbheap \<Rightarrow> 'a rbheap option"

text \<open>The walk to the leftmost node of the right subtree (case 3 of the removal).\<close>

partial_function (option) rb_successor_loop ::
  "'a rbheap \<Rightarrow> rptr \<Rightarrow> rptr \<Rightarrow> (rptr \<times> rptr) option" where
  "rb_successor_loop h parent tmp = do {
     l \<leftarrow> rd tmp rb_left h;
     if l \<noteq> 0 then rb_successor_loop h tmp l else Some (parent, tmp) }"

definition rb_erase_two_children ::
  "'a rb_augment_callbacks \<Rightarrow> rptr \<Rightarrow> rptr \<Rightarrow> 'a rbheap \<times> rptr
   \<Rightarrow> (rptr \<times> rptr \<times> 'a rbheap \<times> rptr) option" where
  "rb_erase_two_children augment node child st = (case st of (h, root) \<Rightarrow> do {
     tmp \<leftarrow> rd child rb_left h;
     (parent, successor, child2, h) \<leftarrow>
       (if tmp = 0 then do {
          child2 \<leftarrow> rd child rb_right h;
          h \<leftarrow> cb_copy augment node child h;
          Some (child, child, child2, h) }
        else do {
          (parent, successor) \<leftarrow> rb_successor_loop h child tmp;
          child2 \<leftarrow> rd successor rb_right h;
          h \<leftarrow> set_left parent child2 h;
          h \<leftarrow> set_right successor child h;
          h \<leftarrow> rb_set_parent child successor h;
          h \<leftarrow> cb_copy augment node successor h;
          h \<leftarrow> cb_propagate augment parent successor h;
          Some (parent, successor, child2, h) });
     tmp \<leftarrow> rd node rb_left h;
     h \<leftarrow> set_left successor tmp h;
     h \<leftarrow> rb_set_parent tmp successor h;
     pc \<leftarrow> rd node rb_pc h;
     (h, root) \<leftarrow> rb_change_child node successor (pc_parent pc) (h, root);
     (rebalance, h) \<leftarrow>
       (if child2 \<noteq> 0 then do {
          h \<leftarrow> rb_set_parent_color child2 parent RB_BLACK h; Some (0, h) }
        else do {
          b \<leftarrow> rb_is_black successor h; Some (if b then parent else 0, h) });
     h \<leftarrow> wr successor (\<lambda>n. n\<lparr>rb_pc := pc\<rparr>) h;
     Some (rebalance, successor, h, root) })"

text \<open>The result is the node to rebalance at, \<open>0\<close> for none, and the new state.\<close>

definition rb_erase_augmented_link ::
  "'a rb_augment_callbacks \<Rightarrow> rptr \<Rightarrow> 'a rbheap \<times> rptr \<Rightarrow> (rptr \<times> 'a rbheap \<times> rptr) option" where
  "rb_erase_augmented_link augment node st = do {
     child \<leftarrow> rd node rb_right (fst st);
     tmp \<leftarrow> rd node rb_left (fst st);
     pc \<leftarrow> rd node rb_pc (fst st);
     (rebalance, tmp, h, root) \<leftarrow>
       (if tmp = 0 then do {
          (h, root) \<leftarrow> rb_change_child node child (pc_parent pc) st;
          if child \<noteq> 0 then do {
            h \<leftarrow> wr child (\<lambda>n. n\<lparr>rb_pc := pc\<rparr>) h;
            Some (0, pc_parent pc, h, root) }
          else Some (if pc_is_black pc then pc_parent pc else 0, pc_parent pc, h, root) }
        else if child = 0 then do {
          h \<leftarrow> wr tmp (\<lambda>n. n\<lparr>rb_pc := pc\<rparr>) (fst st);
          (h, root) \<leftarrow> rb_change_child node tmp (pc_parent pc) (h, snd st);
          Some (0, pc_parent pc, h, root) }
        else rb_erase_two_children augment node child st);
     h \<leftarrow> cb_propagate augment tmp 0 h;
     Some (rebalance, h, root) }"

definition rb_erase_augmented ::
  "'a rb_augment_callbacks \<Rightarrow> rptr \<Rightarrow> 'a rbheap \<times> rptr \<Rightarrow> ('a rbheap \<times> rptr) option" where
  "rb_erase_augmented augment node st = do {
     (rebalance, h, root) \<leftarrow> rb_erase_augmented_link augment node st;
     if rebalance \<noteq> 0 then rb_erase_color (cb_rotate augment) rebalance (h, root)
     else Some (h, root) }"

definition rb_insert_augmented ::
  "'a rb_augment_callbacks \<Rightarrow> rptr \<Rightarrow> 'a rbheap \<times> rptr \<Rightarrow> ('a rbheap \<times> rptr) option" where
  "rb_insert_augmented augment node st = rb_insert (cb_rotate augment) node st"

section \<open>Callbacks that maintain a maximum\<close>

text \<open>
  \<^verbatim>\<open>RB_DECLARE_CALLBACKS_MAX\<close> as functions of its parameters: the function that computes a
  node's own value, and the field that holds the maximum over the subtree.
\<close>

definition compute_max ::
  "(rptr \<Rightarrow> 'a rbheap \<Rightarrow> u64 option) \<Rightarrow> ('a rb_node_scheme \<Rightarrow> u64)
   \<Rightarrow> (u64 \<Rightarrow> 'a rb_node_scheme \<Rightarrow> 'a rb_node_scheme)
   \<Rightarrow> rptr \<Rightarrow> bool \<Rightarrow> 'a rbheap \<Rightarrow> (bool \<times> 'a rbheap) option" where
  "compute_max RBCOMPUTE getA setA node exit h = do {
     m \<leftarrow> RBCOMPUTE node h;
     l \<leftarrow> rd node rb_left h;
     m \<leftarrow> (if l \<noteq> 0 then do { a \<leftarrow> rd l getA h; Some (if a > m then a else m) } else Some m);
     r \<leftarrow> rd node rb_right h;
     m \<leftarrow> (if r \<noteq> 0 then do { a \<leftarrow> rd r getA h; Some (if a > m then a else m) } else Some m);
     cur \<leftarrow> rd node getA h;
     if exit \<and> cur = m then Some (True, h)
     else do { h \<leftarrow> wr node (setA m) h; Some (False, h) } }"

partial_function (option) callbacks_propagate ::
  "(rptr \<Rightarrow> 'a rbheap \<Rightarrow> u64 option) \<Rightarrow> ('a rb_node_scheme \<Rightarrow> u64)
   \<Rightarrow> (u64 \<Rightarrow> 'a rb_node_scheme \<Rightarrow> 'a rb_node_scheme)
   \<Rightarrow> rptr \<Rightarrow> rptr \<Rightarrow> 'a rbheap \<Rightarrow> 'a rbheap option" where
  "callbacks_propagate RBCOMPUTE getA setA rb stop h =
     (if rb \<noteq> stop then do {
        r \<leftarrow> compute_max RBCOMPUTE getA setA rb True h;
        if fst r then Some (snd r)
        else do {
          p \<leftarrow> rb_parent rb (snd r);
          callbacks_propagate RBCOMPUTE getA setA p stop (snd r) } }
      else Some h)"

definition callbacks_copy ::
  "('a rb_node_scheme \<Rightarrow> u64) \<Rightarrow> (u64 \<Rightarrow> 'a rb_node_scheme \<Rightarrow> 'a rb_node_scheme)
   \<Rightarrow> rptr \<Rightarrow> rptr \<Rightarrow> 'a rbheap \<Rightarrow> 'a rbheap option" where
  "callbacks_copy getA setA old new h = do { v \<leftarrow> rd old getA h; wr new (setA v) h }"

definition callbacks_rotate ::
  "(rptr \<Rightarrow> 'a rbheap \<Rightarrow> u64 option) \<Rightarrow> ('a rb_node_scheme \<Rightarrow> u64)
   \<Rightarrow> (u64 \<Rightarrow> 'a rb_node_scheme \<Rightarrow> 'a rb_node_scheme)
   \<Rightarrow> rptr \<Rightarrow> rptr \<Rightarrow> 'a rbheap \<Rightarrow> 'a rbheap option" where
  "callbacks_rotate RBCOMPUTE getA setA old new h = do {
     v \<leftarrow> rd old getA h;
     h \<leftarrow> wr new (setA v) h;
     (_, h) \<leftarrow> compute_max RBCOMPUTE getA setA old False h;
     Some h }"

section \<open>Walking the tree\<close>

partial_function (option) rb_leftmost :: "'a rbheap \<Rightarrow> rptr \<Rightarrow> rptr option" where
  "rb_leftmost h n = do { l \<leftarrow> rd n rb_left h; if l \<noteq> 0 then rb_leftmost h l else Some n }"

partial_function (option) rb_rightmost :: "'a rbheap \<Rightarrow> rptr \<Rightarrow> rptr option" where
  "rb_rightmost h n = do { r \<leftarrow> rd n rb_right h; if r \<noteq> 0 then rb_rightmost h r else Some n }"

definition rb_first :: "'a rbheap \<times> rptr \<Rightarrow> rptr option" where
  "rb_first st = (if snd st = 0 then Some 0 else rb_leftmost (fst st) (snd st))"

definition rb_last :: "'a rbheap \<times> rptr \<Rightarrow> rptr option" where
  "rb_last st = (if snd st = 0 then Some 0 else rb_rightmost (fst st) (snd st))"

partial_function (option) rb_up_right :: "'a rbheap \<Rightarrow> rptr \<Rightarrow> rptr option" where
  "rb_up_right h node = do {
     parent \<leftarrow> rb_parent node h;
     if parent = 0 then Some 0
     else do {
       r \<leftarrow> rd parent rb_right h;
       if node = r then rb_up_right h parent else Some parent } }"

partial_function (option) rb_up_left :: "'a rbheap \<Rightarrow> rptr \<Rightarrow> rptr option" where
  "rb_up_left h node = do {
     parent \<leftarrow> rb_parent node h;
     if parent = 0 then Some 0
     else do {
       l \<leftarrow> rd parent rb_left h;
       if node = l then rb_up_left h parent else Some parent } }"

definition rb_next :: "'a rbheap \<Rightarrow> rptr \<Rightarrow> rptr option" where
  "rb_next h node = do {
     e \<leftarrow> RB_EMPTY_NODE node h;
     if e then Some 0
     else do {
       r \<leftarrow> rd node rb_right h;
       if r \<noteq> 0 then rb_leftmost h r else rb_up_right h node } }"

definition rb_prev :: "'a rbheap \<Rightarrow> rptr \<Rightarrow> rptr option" where
  "rb_prev h node = do {
     e \<leftarrow> RB_EMPTY_NODE node h;
     if e then Some 0
     else do {
       l \<leftarrow> rd node rb_left h;
       if l \<noteq> 0 then rb_rightmost h l else rb_up_left h node } }"

definition rb_replace_node ::
  "rptr \<Rightarrow> rptr \<Rightarrow> 'a rbheap \<times> rptr \<Rightarrow> ('a rbheap \<times> rptr) option" where
  "rb_replace_node victim new st = (case st of (h, root) \<Rightarrow> do {
     parent \<leftarrow> rb_parent victim h;
     v \<leftarrow> h victim;
     h \<leftarrow> wr new (\<lambda>n. n\<lparr>rb_pc := rb_pc v, rb_right := rb_right v, rb_left := rb_left v\<rparr>) h;
     l \<leftarrow> rd victim rb_left h;
     h \<leftarrow> (if l \<noteq> 0 then rb_set_parent l new h else Some h);
     r \<leftarrow> rd victim rb_right h;
     h \<leftarrow> (if r \<noteq> 0 then rb_set_parent r new h else Some h);
     rb_change_child victim new parent (h, root) })"

end
