(* ===== verification/NetHeader.thy ===== *)
theory NetHeader
  imports Prelude
begin

text \<open>
  Packet headers: \<^verbatim>\<open>include/uapi/net_header.h\<close>, the layout constants of
  \<^verbatim>\<open>include/uapi/gbn.h\<close>, and the header helpers of \<^verbatim>\<open>include/uapi/net_session.h\<close>.

  A header is a record of the words the structure holds in memory, so a field in network order
  holds the swapped value, as it does in the code on the little-endian machines it is built for.
  The session ids of the go-back-N header are packed in three bytes, which the code reads back
  through a four-byte load: the byte that follows the header is an argument of the reads. The IPv4
  checksum is the carry chain of the x86 assembly.

  The lemmas show that the session ids survive the packing and that the checksum the code writes
  makes the header sum up to zero in ones' complement, as receivers require.
\<close>

section \<open>Structures\<close>

record eth_hdr =
  dst_mac :: "u8 list"
  src_mac :: "u8 list"
  eth_type :: u16

record ipv4_hdr =
  ihl :: "4 word"
  version :: "4 word"
  ecn :: "2 word"
  dscp :: "6 word"
  tot_len :: u16
  ip_id :: u16
  frag_off :: u16
  ttl :: u8
  protocol :: u8
  ip_check :: u16
  src_ip :: u32
  dst_ip :: u32

record udp_hdr =
  src_port :: u16
  dst_port :: u16
  udp_len :: u16
  udp_check :: u16

record lego_header =
  lh_pid :: u16
  lh_tag :: u8
  lh_opcode :: u8
  req_status :: "4 word"
  flag_route :: "1 word"
  flag_repl :: "1 word"
  seqId :: u8
  lh_size :: u16
  cont :: u16
  src_sesid :: u8
  dst_sesid :: u8
  dest_ip :: u32

record gbn_header =
  gbn_type :: u8
  seqnum :: u32
  session_id_bytes :: "u8 list"

record routing_info =
  eth :: eth_hdr
  ipv4 :: ipv4_hdr
  udp :: udp_hdr

record endpoint_info =
  ei_mac :: "u8 list"
  ei_ip_str :: string
  ei_ip :: u32
  ei_udp_port :: u16

section \<open>Byte order\<close>

definition htons :: "u16 \<Rightarrow> u16" where
  "htons x = (push_bit 8 x) OR (drop_bit 8 x)"

definition htonl :: "u32 \<Rightarrow> u32" where
  "htonl x = push_bit 24 x OR (push_bit 8 (x AND 0xff00)) OR (drop_bit 8 x AND 0xff00) OR drop_bit 24 x"

section \<open>Session ids in the go-back-N header\<close>

definition SLOT_ID_WIDTH :: nat where "SLOT_ID_WIDTH = 10"
definition SES_ID_SIZE_BYTE :: nat where "SES_ID_SIZE_BYTE = 3"
definition GBN_HEADER_SLOT_ID_MSK :: u32 where "GBN_HEADER_SLOT_ID_MSK = push_bit SLOT_ID_WIDTH 1 - 1"
definition GBN_HEADER_SRC_ID_SHIFT :: nat where "GBN_HEADER_SRC_ID_SHIFT = 0"
definition GBN_HEADER_DST_ID_SHIFT :: nat where "GBN_HEADER_DST_ID_SHIFT = SLOT_ID_WIDTH"
definition GBN_HEADER_SRC_ID_MSK :: u32 where
  "GBN_HEADER_SRC_ID_MSK = push_bit GBN_HEADER_SRC_ID_SHIFT GBN_HEADER_SLOT_ID_MSK"
definition GBN_HEADER_DST_ID_MSK :: u32 where
  "GBN_HEADER_DST_ID_MSK = push_bit GBN_HEADER_DST_ID_SHIFT GBN_HEADER_SLOT_ID_MSK"

text \<open>The bytes of a 32-bit word in memory, and the word a load of four bytes gives.\<close>

definition u32_bytes :: "u32 \<Rightarrow> u8 list" where
  "u32_bytes x = [ucast x, ucast (drop_bit 8 x), ucast (drop_bit 16 x), ucast (drop_bit 24 x)]"

fun load_u32 :: "u8 list \<Rightarrow> u32 option" where
  "load_u32 (a # b # c # d # _) =
     Some (ucast a OR push_bit 8 (ucast b) OR push_bit 16 (ucast c) OR push_bit 24 (ucast d))"
| "load_u32 _ = None"

definition set_gbn_src_dst_session :: "u32 \<Rightarrow> u32 \<Rightarrow> gbn_header \<Rightarrow> gbn_header" where
  "set_gbn_src_dst_session src_id dst_id hdr =
     (let tmp_sesid = push_bit GBN_HEADER_SRC_ID_SHIFT (src_id AND GBN_HEADER_SLOT_ID_MSK);
          tmp_sesid = tmp_sesid OR push_bit GBN_HEADER_DST_ID_SHIFT (dst_id AND GBN_HEADER_SLOT_ID_MSK)
      in hdr\<lparr>session_id_bytes := take SES_ID_SIZE_BYTE (u32_bytes tmp_sesid)\<rparr>)"

text \<open>\<open>nxt\<close> is the byte after the header: the load of four bytes from the three-byte field takes it in.\<close>

definition get_gbn_src_session :: "u8 \<Rightarrow> gbn_header \<Rightarrow> u32 option" where
  "get_gbn_src_session nxt hdr =
     map_option (\<lambda>w. drop_bit GBN_HEADER_SRC_ID_SHIFT (w AND GBN_HEADER_SRC_ID_MSK))
       (load_u32 (session_id_bytes hdr @ [nxt]))"

definition get_gbn_dst_session :: "u8 \<Rightarrow> gbn_header \<Rightarrow> u32 option" where
  "get_gbn_dst_session nxt hdr =
     map_option (\<lambda>w. drop_bit GBN_HEADER_DST_ID_SHIFT (w AND GBN_HEADER_DST_ID_MSK))
       (load_u32 (session_id_bytes hdr @ [nxt]))"

definition swap_gbn_session :: "u8 \<Rightarrow> gbn_header \<Rightarrow> gbn_header option" where
  "swap_gbn_session nxt hdr = do {
     tmp1 \<leftarrow> get_gbn_src_session nxt hdr;
     tmp2 \<leftarrow> get_gbn_dst_session nxt hdr;
     Some (set_gbn_src_dst_session tmp2 tmp1 hdr) }"

datatype gbn_conn_set_type = GBN_SOC2FPGA_SET_TYPE_OPEN | GBN_SOC2FPGA_SET_TYPE_CLOSE

primrec conn_set_type_num :: "gbn_conn_set_type \<Rightarrow> u32" where
  "conn_set_type_num GBN_SOC2FPGA_SET_TYPE_OPEN = 1"
| "conn_set_type_num GBN_SOC2FPGA_SET_TYPE_CLOSE = 2"

definition GBN_CONN_SET_SLOT_ID_MSK :: u32 where "GBN_CONN_SET_SLOT_ID_MSK = push_bit SLOT_ID_WIDTH 1 - 1"
definition GBN_CONN_SET_TYPE_MSK :: u32 where "GBN_CONN_SET_TYPE_MSK = push_bit (16 - SLOT_ID_WIDTH) 1 - 1"
definition GBN_CONN_SET_TYPE_SHIFT :: nat where "GBN_CONN_SET_TYPE_SHIFT = SLOT_ID_WIDTH"

definition set_gbn_conn_req :: "u32 \<Rightarrow> gbn_conn_set_type \<Rightarrow> u32" where
  "set_gbn_conn_req slot_id t =
     (slot_id AND GBN_CONN_SET_SLOT_ID_MSK) OR
     push_bit GBN_CONN_SET_TYPE_SHIFT (conn_set_type_num t AND GBN_CONN_SET_TYPE_MSK)"

section \<open>Preparing the headers\<close>

definition ETHERNET_HEADER_SIZE :: nat where "ETHERNET_HEADER_SIZE = 14"
definition IP_HEADER_SIZE :: nat where "IP_HEADER_SIZE = 20"
definition UDP_HEADER_SIZE :: nat where "UDP_HEADER_SIZE = 8"

text \<open>\<open>use_gbn\<close> is the build option \<^verbatim>\<open>TRANSPORT_USE_GBN\<close>.\<close>

definition GBN_HEADER_SIZE :: "bool \<Rightarrow> nat" where "GBN_HEADER_SIZE use_gbn = (if use_gbn then 8 else 0)"
definition LEGO_HEADER_SIZE :: nat where "LEGO_HEADER_SIZE = 16"
definition GBN_HEADER_OFFSET :: nat where
  "GBN_HEADER_OFFSET = ETHERNET_HEADER_SIZE + IP_HEADER_SIZE + UDP_HEADER_SIZE"
definition LEGO_HEADER_OFFSET :: "bool \<Rightarrow> nat" where
  "LEGO_HEADER_OFFSET use_gbn = GBN_HEADER_OFFSET + GBN_HEADER_SIZE use_gbn"

definition prepare_eth_header :: "u8 list \<Rightarrow> u8 list \<Rightarrow> eth_hdr \<Rightarrow> eth_hdr" where
  "prepare_eth_header src dst hdr =
     hdr\<lparr>src_mac := take 6 src, dst_mac := take 6 dst, eth_type := htons 0x0800\<rparr>"

definition prepare_ipv4_header :: "u32 \<Rightarrow> u32 \<Rightarrow> u16 \<Rightarrow> ipv4_hdr \<Rightarrow> ipv4_hdr" where
  "prepare_ipv4_header src dst data_size hdr =
     hdr\<lparr>version := 4, ihl := 5, ecn := 0, dscp := 0,
         tot_len := htons (20 + 8 + data_size), ip_id := 0, frag_off := htons 0x4000, ttl := 64,
         protocol := 0x11, src_ip := htonl src, dst_ip := htonl dst, ip_check := 0\<rparr>"

definition prepare_udp_header :: "u16 \<Rightarrow> u16 \<Rightarrow> u32 \<Rightarrow> udp_hdr \<Rightarrow> udp_hdr" where
  "prepare_udp_header sport dport payload_size hdr =
     hdr\<lparr>src_port := htons sport, dst_port := htons dport,
         udp_len := htons (ucast (8 + payload_size)), udp_check := 0\<rparr>"

definition prepare_routing_info :: "endpoint_info \<Rightarrow> endpoint_info \<Rightarrow> routing_info \<Rightarrow> routing_info" where
  "prepare_routing_info src dst ri =
     ri\<lparr>eth := prepare_eth_header (ei_mac src) (ei_mac dst) (eth ri),
        ipv4 := prepare_ipv4_header (ei_ip src) (ei_ip dst) 0 (ipv4 ri),
        udp := prepare_udp_header (ei_udp_port src) (ei_udp_port dst) 0 (udp ri)\<rparr>"

definition swap_routing_info :: "routing_info \<Rightarrow> routing_info" where
  "swap_routing_info ri =
     ri\<lparr>eth := (eth ri)\<lparr>src_mac := dst_mac (eth ri), dst_mac := src_mac (eth ri)\<rparr>,
        ipv4 := (ipv4 ri)\<lparr>src_ip := dst_ip (ipv4 ri), dst_ip := src_ip (ipv4 ri)\<rparr>,
        udp := (udp ri)\<lparr>src_port := dst_port (udp ri), dst_port := src_port (udp ri)\<rparr>\<rparr>"

definition prepare_legomem_header :: "bool \<Rightarrow> u64 \<Rightarrow> lego_header \<Rightarrow> lego_header" where
  "prepare_legomem_header use_gbn packet_size p =
     p\<lparr>lh_size := ucast (packet_size - of_nat (LEGO_HEADER_OFFSET use_gbn))\<rparr>"

text \<open>
  The checksum, instruction by instruction. \<open>adc\<close> is an addition with the carry flag; the header
  is read as 32-bit words, and a read past the words given is \<open>None\<close>.
\<close>

definition adc :: "u32 \<Rightarrow> u32 \<Rightarrow> bool \<Rightarrow> u32 \<times> bool" where
  "adc a b c = (a + b + of_bool c, 2 ^ 32 \<le> unat a + unat b + of_bool c)"

fun csum_chain :: "u32 list \<Rightarrow> u32 \<times> bool \<Rightarrow> u32 \<times> bool" where
  "csum_chain [] s = s"
| "csum_chain (w # ws) s = csum_chain ws (adc (fst s) w (snd s))"

definition csum_fold :: "u32 \<Rightarrow> u32" where
  "csum_fold v =
     (let lo = (ucast v :: u16); hi = (ucast (drop_bit 16 v) :: u16);
          carry = 2 ^ 16 \<le> unat hi + unat lo
      in ucast (hi + lo) + of_bool carry)"

definition ip_csum :: "u32 list \<Rightarrow> nat \<Rightarrow> u16 option" where
  "ip_csum iph n =
     (if length iph < max n 1 then None
      else if n \<le> 4 then Some (ucast (iph ! 0))
      else (let s = csum_chain (take (n - 1) (drop 1 iph)) (iph ! 0, False);
                v = fst s + of_bool (snd s)
            in Some (ucast (NOT (csum_fold v)))))"

definition ipv4_words :: "ipv4_hdr \<Rightarrow> u32 list" where
  "ipv4_words hdr =
     [ucast (ihl hdr) OR push_bit 4 (ucast (version hdr)) OR push_bit 8 (ucast (ecn hdr))
        OR push_bit 10 (ucast (dscp hdr)) OR push_bit 16 (ucast (tot_len hdr)),
      ucast (ip_id hdr) OR push_bit 16 (ucast (frag_off hdr)),
      ucast (ttl hdr) OR push_bit 8 (ucast (protocol hdr)) OR push_bit 16 (ucast (ip_check hdr)),
      src_ip hdr, dst_ip hdr]"

definition udp_words :: "udp_hdr \<Rightarrow> u32 list" where
  "udp_words hdr =
     [ucast (src_port hdr) OR push_bit 16 (ucast (dst_port hdr)),
      ucast (udp_len hdr) OR push_bit 16 (ucast (udp_check hdr))]"

definition prepare_headers :: "routing_info \<Rightarrow> u32 \<Rightarrow> routing_info option" where
  "prepare_headers route len = (
     let ri = route\<lparr>ipv4 := (ipv4 route)\<lparr>tot_len := htons (ucast (len - 14)), ip_check := 0\<rparr>\<rparr>
     in do {
       csum \<leftarrow> ip_csum (ipv4_words (ipv4 ri) @ udp_words (udp ri)) (unat (ihl (ipv4 ri)));
       Some (ri\<lparr>ipv4 := (ipv4 ri)\<lparr>ip_check := csum\<rparr>,
                udp := (udp ri)\<lparr>udp_len := htons (ucast (len - 14 - 20))\<rparr>\<rparr>) })"

section \<open>The packed session ids\<close>

lemma gbn_sesid_word:
  fixes w :: u32
  shows "load_u32 (take 3 (u32_bytes w) @ [nxt]) = Some ((w AND mask 24) OR push_bit 24 (ucast nxt))"
  unfolding u32_bytes_def
  by (simp, rule bit_word_eqI)
    (auto simp: bit_or_iff bit_push_bit_iff bit_ucast_iff bit_drop_bit_eq bit_and_iff bit_mask_iff)

lemma GBN_MSK: "GBN_HEADER_SLOT_ID_MSK = mask 10" "GBN_CONN_SET_SLOT_ID_MSK = mask 10" "GBN_CONN_SET_TYPE_MSK = mask 6"
  by (simp_all add: GBN_HEADER_SLOT_ID_MSK_def GBN_CONN_SET_SLOT_ID_MSK_def GBN_CONN_SET_TYPE_MSK_def SLOT_ID_WIDTH_def
    mask_eq_exp_minus_1)

lemma get_set_gbn_session:
  "get_gbn_src_session nxt (set_gbn_src_dst_session s d hdr) = Some (s AND mask 10)"
  "get_gbn_dst_session nxt (set_gbn_src_dst_session s d hdr) = Some (d AND mask 10)"
proof -
  let ?w = "(s AND mask 10) OR push_bit 10 (d AND mask 10) :: u32"
  have w: "load_u32 (session_id_bytes (set_gbn_src_dst_session s d hdr) @ [nxt]) =
    Some ((?w AND mask 24) OR push_bit 24 (ucast nxt))"
    by (simp add: set_gbn_src_dst_session_def GBN_MSK GBN_HEADER_SRC_ID_SHIFT_def GBN_HEADER_DST_ID_SHIFT_def
      SLOT_ID_WIDTH_def SES_ID_SIZE_BYTE_def gbn_sesid_word)
  have "((?w AND mask 24) OR push_bit 24 (ucast nxt)) AND mask 10 = s AND mask 10"
    by (rule bit_word_eqI)
      (auto simp: bit_or_iff bit_push_bit_iff bit_ucast_iff bit_and_iff bit_mask_iff)
  then show "get_gbn_src_session nxt (set_gbn_src_dst_session s d hdr) = Some (s AND mask 10)"
    using w by (simp add: get_gbn_src_session_def GBN_HEADER_SRC_ID_SHIFT_def GBN_HEADER_SRC_ID_MSK_def GBN_MSK)
  have "drop_bit 10 (((?w AND mask 24) OR push_bit 24 (ucast nxt)) AND push_bit 10 (mask 10)) = d AND mask 10"
    by (rule bit_word_eqI)
      (auto simp: bit_or_iff bit_push_bit_iff bit_ucast_iff bit_and_iff bit_mask_iff bit_drop_bit_eq)
  then show "get_gbn_dst_session nxt (set_gbn_src_dst_session s d hdr) = Some (d AND mask 10)"
    using w by (simp add: get_gbn_dst_session_def GBN_HEADER_DST_ID_SHIFT_def GBN_HEADER_DST_ID_MSK_def GBN_MSK SLOT_ID_WIDTH_def)
qed

lemma swap_gbn_set:
  "swap_gbn_session nxt (set_gbn_src_dst_session s d hdr) = Some (set_gbn_src_dst_session d s hdr)"
proof -
  have "GBN_HEADER_SLOT_ID_MSK AND (x AND GBN_HEADER_SLOT_ID_MSK) = x AND GBN_HEADER_SLOT_ID_MSK" for x
    by (simp add: and.commute)
  then show ?thesis
    by (simp add: swap_gbn_session_def get_set_gbn_session GBN_MSK [symmetric])
      (simp add: set_gbn_src_dst_session_def and.assoc)
qed

lemma htons_htons [simp]: "htons (htons x) = x"
  by (rule bit_word_eqI) (auto simp: htons_def bit_or_iff bit_push_bit_iff bit_drop_bit_eq dest: bit_imp_le_length)


section \<open>The checksum\<close>

lemma adc_nat:
  "unat (fst (adc a b c)) + 2 ^ 32 * of_bool (snd (adc a b c)) = unat a + unat b + of_bool c"
proof -
  let ?n = "unat a + unat b + of_bool c :: nat"
  have "?n < 2 * 2 ^ 32"
    using unsigned_less [of a, where ?'a = nat] unsigned_less [of b, where ?'a = nat] by (cases c) simp_all
  then have "?n mod 2 ^ 32 + 2 ^ 32 * of_bool (2 ^ 32 \<le> ?n) = ?n"
    by (cases "2 ^ 32 \<le> ?n") (simp_all add: le_mod_geq)
  moreover have "unat (a + b + of_bool c) = ?n mod 2 ^ 32"
    by (cases c) (simp_all add: unat_word_ariths mod_Suc_eq)
  ultimately show ?thesis by (simp add: adc_def)
qed

text \<open>The value of the running sum and the pending carry.\<close>

definition cval :: "u32 \<times> bool \<Rightarrow> nat" where
  "cval s = unat (fst s) + of_bool (snd s)"

lemma adc_cval:
  assumes "cval (a, c) < 2 ^ 32"
  shows "cval (adc a b c) < 2 ^ 32" "cval (adc a b c) mod (2 ^ 32 - 1) = (cval (a, c) + unat b) mod (2 ^ 32 - 1)"
proof -
  obtain s d where s: "adc a b c = (s, d)" by (cases "adc a b c")
  have e: "unat s + 2 ^ 32 * of_bool d = cval (a, c) + unat b"
    using adc_nat [of a b c] by (simp add: s cval_def)
  have lt: "unat b < 2 ^ 32" "unat s < 2 ^ 32" using unsigned_less [of b, where ?'a = nat] unsigned_less [of s, where ?'a = nat] by simp_all
  show "cval (adc a b c) < 2 ^ 32" using e assms lt by (cases d) (auto simp: s cval_def)
  have "cval (a, c) + unat b = cval (s, d) + (2 ^ 32 - 1) * of_bool d" using e by (cases d) (auto simp: cval_def)
  then show "cval (adc a b c) mod (2 ^ 32 - 1) = (cval (a, c) + unat b) mod (2 ^ 32 - 1)" by (simp add: s)
qed

lemma csum_chain_cval:
  "cval s < 2 ^ 32 \<Longrightarrow> cval (csum_chain ws s) < 2 ^ 32 \<and>
   cval (csum_chain ws s) mod (2 ^ 32 - 1) = (cval s + sum_list (map unat ws)) mod (2 ^ 32 - 1)"
proof (induction ws arbitrary: s)
  case (Cons w ws)
  obtain a c where s: "s = (a, c)" by (cases s)
  note st = adc_cval [OF Cons.prems [unfolded s], of w]
  have "(cval (adc a w c) + sum_list (map unat ws)) mod (2 ^ 32 - 1) =
        (cval (a, c) + unat w + sum_list (map unat ws)) mod (2 ^ 32 - 1)"
    by (metis mod_add_left_eq st(2))
  with Cons.IH [OF st(1)] show ?case by (simp add: s add.assoc)
qed simp

lemma unat_halves:
  fixes v :: u32
  shows "unat v = 65536 * unat (ucast (drop_bit 16 v) :: u16) + unat (ucast v :: u16)"
proof -
  have "unat (ucast v :: u16) = unat v mod 65536" by (simp add: unsigned_ucast_eq take_bit_eq_mod)
  moreover have "unat (ucast (drop_bit 16 v) :: u16) = unat v div 65536"
  proof -
    have "unat v < 65536 * 65536" using unsigned_less [of v, where ?'a = nat] by simp
    then have "unat v div 65536 < 65536" by (simp add: less_mult_imp_div_less)
    moreover have "unat (drop_bit 16 v) = unat v div 65536" by (simp add: drop_bit_eq_div unat_div)
    ultimately show ?thesis by (simp add: unsigned_ucast_eq take_bit_eq_mod)
  qed
  ultimately show ?thesis by simp
qed

lemma unat_halves_mod:
  fixes v :: u32
  shows "(unat (ucast (drop_bit 16 v) :: u16) + unat (ucast v :: u16)) mod 65535 = unat v mod 65535"
proof -
  let ?hi = "unat (ucast (drop_bit 16 v) :: u16)" and ?lo = "unat (ucast v :: u16)"
  have "unat v = ?hi + ?lo + 65535 * ?hi" using unat_halves [of v] by simp
  then have "unat v mod 65535 = (?hi + ?lo + 65535 * ?hi) mod 65535" by (rule arg_cong)
  then show ?thesis by (simp only: mod_mult_self2)
qed

lemma csum_fold_mod:
  "unat (csum_fold v) < 2 ^ 16 \<and> unat (csum_fold v) mod 65535 = unat v mod 65535"
proof -
  let ?lo = "ucast v :: u16" and ?hi = "ucast (drop_bit 16 v) :: u16"
  let ?n = "unat ?hi + unat ?lo"
  have lt: "unat ?lo < 65536" "unat ?hi < 65536"
    using unsigned_less [of ?lo, where ?'a = nat] unsigned_less [of ?hi, where ?'a = nat] by simp_all
  have "unat (ucast (?hi + ?lo) :: u32) = ?n mod 65536"
    by (simp add: unsigned_ucast_eq unat_word_ariths take_bit_eq_mod)
  then have f: "unat (csum_fold v) = ?n mod 65536 + of_bool (65536 \<le> ?n)"
    by (simp add: csum_fold_def Let_def unat_word_ariths)
  have "unat (csum_fold v) < 65536 \<and> unat (csum_fold v) mod 65535 = ?n mod 65535"
  proof (cases "65536 \<le> ?n")
    case True
    then have "unat (csum_fold v) = ?n - 65535" using f lt by (simp add: le_mod_geq)
    moreover have "?n = ?n - 65535 + 65535" using True by linarith
    then have "?n mod 65535 = (?n - 65535) mod 65535" by (metis mod_add_self2)
    moreover have "?n - 65535 < 65536" using lt by linarith
    ultimately show ?thesis by simp
  next
    case False
    then show ?thesis using f by simp
  qed
  then show ?thesis by (simp add: unat_halves_mod)
qed

lemma unat_NOT: "unat (NOT x) = 2 ^ LENGTH('a) - 1 - unat x" for x :: "'a::len word"
proof -
  have "NOT x = - 1 - x" by (simp add: not_eq_complement)
  moreover have "unat (- 1 - x) = unat (- 1 :: 'a word) - unat x" by (rule unat_sub) simp
  moreover have "unat (- 1 :: 'a word) = 2 ^ LENGTH('a) - 1" by (simp add: unsigned_minus_1_eq_mask mask_eq_exp_minus_1)
  ultimately show ?thesis by simp
qed

lemma mod_mod_65535: "x mod (2 ^ 32 - 1) mod 65535 = (x :: nat) mod 65535"
  by (rule mod_mod_cancel) simp

lemma ip_csum_sum:
  assumes "5 \<le> n" "n \<le> length ws"
  shows "\<exists>c. ip_csum ws n = Some c \<and> (sum_list (map unat (take n ws)) + unat c) mod 65535 = 0"
proof -
  obtain w rest where ws: "ws = w # rest" using assms by (cases ws) auto
  let ?s = "csum_chain (take (n - 1) rest) (w, False)"
  define v where "v = fst ?s + of_bool (snd ?s)"
  have c0: "cval (w, False) < 2 ^ 32" using unsigned_less [of w, where ?'a = nat] by (simp add: cval_def)
  note ch = csum_chain_cval [OF c0, of "take (n - 1) rest"]
  have v: "unat v = cval ?s" unfolding v_def using ch by (cases "snd ?s") (auto simp: cval_def unat_word_ariths)
  have tk: "sum_list (map unat (take n ws)) = unat w + sum_list (map unat (take (n - 1) rest))"
    using assms(1) by (cases n) (simp_all add: ws)
  have "unat v mod 65535 = cval ?s mod (2 ^ 32 - 1) mod 65535" unfolding v by (rule mod_mod_65535 [symmetric])
  also have "\<dots> = (cval (w, False) + sum_list (map unat (take (n - 1) rest))) mod 65535"
    using ch mod_mod_65535 by simp
  also have "\<dots> = sum_list (map unat (take n ws)) mod 65535" by (simp add: tk cval_def)
  finally have m: "unat (csum_fold v) mod 65535 = sum_list (map unat (take n ws)) mod 65535"
    using csum_fold_mod [of v] by simp
  let ?c = "ucast (NOT (csum_fold v)) :: u16"
  have "unat ?c + unat (csum_fold v) = 65535"
  proof -
    have f: "unat (csum_fold v) < 65536" using csum_fold_mod [of v] by simp
    have "unat (NOT (csum_fold v)) = 2 ^ 32 - 1 - unat (csum_fold v)"
      by (simp add: unat_NOT)
    also have "\<dots> = (65535 - unat (csum_fold v)) + 65536 * 65535" using f by simp
    finally have "unat (NOT (csum_fold v)) mod 65536 = (65535 - unat (csum_fold v)) mod 65536"
      by (simp only: mod_mult_self2)
    then show ?thesis using f by (simp add: unsigned_ucast_eq take_bit_eq_mod)
  qed
  moreover have "(sum_list (map unat (take n ws)) + unat ?c) mod 65535 = (unat (csum_fold v) + unat ?c) mod 65535"
    by (rule mod_add_cong [OF m [symmetric] refl])
  ultimately have "(sum_list (map unat (take n ws)) + unat ?c) mod 65535 = 0" by (simp add: add.commute)
  then show ?thesis using assms ws by (auto simp: ip_csum_def Let_def v_def)
qed

text \<open>The 16-bit halves of the header words, whose ones' complement sum a receiver checks.\<close>

definition halves :: "u32 list \<Rightarrow> u16 list" where
  "halves ws = concat (map (\<lambda>w. [ucast w, ucast (drop_bit 16 w)]) ws)"

lemma halves_sum: "sum_list (map unat (halves ws)) mod 65535 = sum_list (map unat ws) mod 65535"
proof (induction ws)
  case (Cons w ws)
  have "sum_list (map unat (halves (w # ws))) =
    (unat (ucast (drop_bit 16 w) :: u16) + unat (ucast w :: u16)) + sum_list (map unat (halves ws))"
    by (simp add: halves_def)
  then show ?case using mod_add_cong [OF unat_halves_mod [of w] Cons] by simp
qed (simp add: halves_def)

lemma or_push_16:
  fixes x :: u32
  assumes b: "\<And>k. bit x k \<Longrightarrow> k < 16"
  shows "unat (x OR push_bit 16 (ucast (c :: u16))) = unat x + 65536 * unat c"
proof -
  let ?w = "x OR push_bit 16 (ucast c)"
  have "ucast (drop_bit 16 ?w) = c"
    by (rule bit_word_eqI) (auto simp: bit_ucast_iff bit_drop_bit_eq bit_or_iff bit_push_bit_iff dest: b)
  moreover have "(ucast ?w :: u16) = ucast x"
    by (rule bit_word_eqI) (auto simp: bit_ucast_iff bit_or_iff bit_push_bit_iff)
  moreover have "(ucast (drop_bit 16 x) :: u16) = 0"
    by (rule bit_word_eqI) (auto simp: bit_ucast_iff bit_drop_bit_eq dest: b)
  ultimately show ?thesis using unat_halves [of ?w] unat_halves [of x] by simp
qed

lemma ipv4_check_word: "sum_list (map unat (ipv4_words (i\<lparr>ip_check := c\<rparr>))) =
  sum_list (map unat (ipv4_words (i\<lparr>ip_check := 0\<rparr>))) + 65536 * unat c"
proof -
  let ?x = "ucast (ttl i) OR push_bit 8 (ucast (protocol i)) :: u32"
  have b: "k < 16" if "bit ?x k" for k
    using that by (auto simp: bit_or_iff bit_push_bit_iff bit_ucast_iff dest: bit_imp_le_length)
  then have "unat (?x OR push_bit 16 (ucast c)) = unat ?x + 65536 * unat c" by (rule or_push_16)
  then show ?thesis by (simp add: ipv4_words_def or.assoc [symmetric])
qed

text \<open>The route of a session between two endpoints, once swapped, is the route of the session in the
  other direction; the code answers a request by swapping the route it came with.\<close>

lemma swap_routing_info_reverses:
  "swap_routing_info (prepare_routing_info a b ri) = prepare_routing_info b a ri"
  by (simp add: swap_routing_info_def prepare_routing_info_def prepare_eth_header_def
      prepare_ipv4_header_def prepare_udp_header_def)

section \<open>Properties\<close>

text \<open>C11. The headers \<open>prepare_headers\<close> cooks for a packet of \<open>len\<close> bytes carry a valid IPv4 checksum: the
  16-bit words of the header, the checksum included, sum up to zero in ones' complement. The length
  fields hold, in network order, the packet without the Ethernet header and the UDP datagram, and the
  addresses and ports of the route are kept.\<close>

theorem prepare_headers_checksum:
  assumes "ihl (ipv4 route) = 5"
  shows "\<exists>ri. prepare_headers route len = Some ri
     \<and> sum_list (map unat (halves (ipv4_words (ipv4 ri)))) mod 0xffff = 0
     \<and> htons (tot_len (ipv4 ri)) = ucast (len - 14) \<and> htons (udp_len (udp ri)) = ucast (len - 34)
     \<and> eth ri = eth route \<and> src_ip (ipv4 ri) = src_ip (ipv4 route) \<and> dst_ip (ipv4 ri) = dst_ip (ipv4 route)
     \<and> src_port (udp ri) = src_port (udp route) \<and> dst_port (udp ri) = dst_port (udp route)"
proof -
  let ?i = "(ipv4 route)\<lparr>tot_len := htons (ucast (len - 14)), ip_check := 0\<rparr>"
  let ?ws = "ipv4_words ?i @ udp_words (udp route)"
  have l: "length (ipv4_words j) = 5" for j by (simp add: ipv4_words_def)
  obtain c where c: "ip_csum ?ws 5 = Some c" "(sum_list (map unat (take 5 ?ws)) + unat c) mod 65535 = 0"
    using ip_csum_sum [of 5 ?ws] l by auto
  have "sum_list (map unat (ipv4_words (?i\<lparr>ip_check := c\<rparr>))) = sum_list (map unat (ipv4_words ?i)) + unat c + 65535 * unat c"
    using ipv4_check_word [of c ?i] by simp
  then have "sum_list (map unat (halves (ipv4_words (?i\<lparr>ip_check := c\<rparr>)))) mod 65535 =
    (sum_list (map unat (ipv4_words ?i)) + unat c) mod 65535"
    by (simp only: halves_sum mod_mult_self2)
  with c(2) l have "sum_list (map unat (halves (ipv4_words (?i\<lparr>ip_check := c\<rparr>)))) mod 65535 = 0" by simp
  then show ?thesis using assms c(1) by (auto simp: prepare_headers_def Let_def)
qed

definition sample_route :: routing_info where
  "sample_route = \<lparr>eth = \<lparr>dst_mac = [1,2,3,4,5,6], src_mac = [6,5,4,3,2,1], eth_type = 8\<rparr>,
     ipv4 = \<lparr>ihl = 5, version = 4, ecn = 0, dscp = 0, tot_len = 0, ip_id = 0, frag_off = 0x40, ttl = 64,
       protocol = 17, ip_check = 0, src_ip = 0x0100a8c0, dst_ip = 0x0200a8c0\<rparr>,
     udp = \<lparr>src_port = 0xd204, dst_port = 0xd204, udp_len = 0, udp_check = 0\<rparr>\<rparr>"

theorem prepare_headers_checksum_witness:
  "\<exists>ri. prepare_headers sample_route 1500 = Some ri
     \<and> sum_list (map unat (halves (ipv4_words (ipv4 ri)))) mod 0xffff = 0
     \<and> htons (tot_len (ipv4 ri)) = 1486"
  using prepare_headers_checksum [of sample_route 1500] by (auto simp: sample_route_def)

text \<open>C12. The session ids of a go-back-N header survive the packing into three bytes: whatever byte follows
  the header, the reads give back the low ten bits of the ids that were set, so every id below the
  number of sessions of a node comes back unchanged; swapping exchanges the two ids.\<close>

theorem gbn_session_roundtrip:
  "get_gbn_src_session nxt (set_gbn_src_dst_session s d hdr) = Some (s AND 0x3ff)
   \<and> get_gbn_dst_session nxt (set_gbn_src_dst_session s d hdr) = Some (d AND 0x3ff)
   \<and> swap_gbn_session nxt (set_gbn_src_dst_session s d hdr) = Some (set_gbn_src_dst_session d s hdr)"
proof -
  have "mask 10 = (0x3ff :: u32)" by (simp add: mask_eq_exp_minus_1)
  then show ?thesis using get_set_gbn_session [of nxt s d hdr] swap_gbn_set [of nxt s d hdr] by simp
qed

end
