(* ===== verification/Net.thy ===== *)
theory Net
  imports NetHeader
begin

text \<open>
  Network sessions and the interface of the raw network layer: \<^verbatim>\<open>include/uapi/net_session.h\<close>.

  A packet is its headers and its payload. The raw network layer is a table of function pointers in
  the code; here it is a record of functions on an arbitrary world \<open>'w\<close>, so the transport layers
  are verified for every raw layer. \<open>wire_ops\<close> is the simplest one: it logs what is sent and
  delivers the packets of a queue.
\<close>

section \<open>Packets and sessions\<close>

record packet =
  p_route :: routing_info
  p_gbn :: gbn_header
  p_lego :: lego_header
  p_payload :: "u8 list"

definition LEGOMEM_MGMT_SESSION_ID :: u32 where "LEGOMEM_MGMT_SESSION_ID = 0"

record session_net =
  sn_board_ip :: u32
  sn_udp_port :: u32
  session_id :: u32
  remote_session_id :: u32
  sn_flags :: u64
  sn_tid :: int
  sn_local_ei :: endpoint_info
  sn_remote_ei :: endpoint_info
  sn_route :: routing_info
  outstanding_reads :: int
  outstanding_writes :: int

definition set_local_session_id :: "session_net \<Rightarrow> u32 \<Rightarrow> session_net" where
  "set_local_session_id ses i = ses\<lparr>session_id := i\<rparr>"

definition set_remote_session_id :: "session_net \<Rightarrow> u32 \<Rightarrow> session_net" where
  "set_remote_session_id ses i = ses\<lparr>remote_session_id := i\<rparr>"

definition get_local_session_id :: "session_net \<Rightarrow> u32" where
  "get_local_session_id ses = session_id ses"

definition get_remote_session_id :: "session_net \<Rightarrow> u32" where
  "get_remote_session_id ses = remote_session_id ses"

definition test_management_session :: "session_net \<Rightarrow> bool" where
  "test_management_session ses \<longleftrightarrow>
     (if get_local_session_id ses = LEGOMEM_MGMT_SESSION_ID then True
      else if get_remote_session_id ses = LEGOMEM_MGMT_SESSION_ID then True
      else False)"

section \<open>The raw network layer\<close>

text \<open>
  \<open>raw_send\<close> covers \<^verbatim>\<open>send_one\<close> and \<^verbatim>\<open>send_one_msg_buf\<close> (a buffer that may be null, its size, an
  optional route) and \<open>raw_receive\<close> covers \<^verbatim>\<open>receive_one_zerocopy\<close>: a return code, and the buffer
  and size it hands over when the code is positive.
\<close>

record 'w raw_net_ops =
  raw_send :: "session_net \<Rightarrow> packet option \<Rightarrow> u64 \<Rightarrow> packet option \<Rightarrow> 'w \<Rightarrow> int \<times> 'w"
  raw_receive :: "session_net \<Rightarrow> 'w \<Rightarrow> (int \<times> packet \<times> u64) \<times> 'w"

text \<open>A wire that logs the packets sent and delivers from a queue, with no packet when it is empty.\<close>

record wire =
  w_sent :: "packet option list"
  w_queue :: "(packet \<times> u64) list"

definition empty_packet :: packet where
  "empty_packet =
     \<lparr>p_route = \<lparr>eth = \<lparr>dst_mac = replicate 6 0, src_mac = replicate 6 0, eth_type = 0\<rparr>,
        ipv4 = \<lparr>ihl = 0, version = 0, ecn = 0, dscp = 0, tot_len = 0, ip_id = 0, frag_off = 0, ttl = 0,
          protocol = 0, ip_check = 0, src_ip = 0, dst_ip = 0\<rparr>,
        udp = \<lparr>src_port = 0, dst_port = 0, udp_len = 0, udp_check = 0\<rparr>\<rparr>,
      p_gbn = \<lparr>gbn_type = 0, seqnum = 0, session_id_bytes = [0, 0, 0]\<rparr>,
      p_lego = \<lparr>lh_pid = 0, lh_tag = 0, lh_opcode = 0, req_status = 0, flag_route = 0, flag_repl = 0,
        seqId = 0, lh_size = 0, cont = 0, src_sesid = 0, dst_sesid = 0, dest_ip = 0\<rparr>,
      p_payload = []\<rparr>"

definition wire_ops :: "wire raw_net_ops" where
  "wire_ops = \<lparr>raw_send = (\<lambda>ses b n route w. (0, w\<lparr>w_sent := w_sent w @ [b]\<rparr>)),
     raw_receive = (\<lambda>ses w. case w_queue w of
        [] \<Rightarrow> ((0, empty_packet, 0), w)
      | (p, n) # q \<Rightarrow> ((1, p, n), w\<lparr>w_queue := q\<rparr>))\<rparr>"

lemma wire_ops_simps [simp]:
  "raw_send wire_ops ses b n route w = (0, w\<lparr>w_sent := w_sent w @ [b]\<rparr>)"
  "raw_receive wire_ops ses w = (case w_queue w of [] \<Rightarrow> ((0, empty_packet, 0), w)
     | (p, n) # q \<Rightarrow> ((1, p, n), w\<lparr>w_queue := q\<rparr>))"
  by (simp_all add: wire_ops_def)

end
