(* ===== verification/Gbn.thy ===== *)
theory Gbn
  imports Net
begin

text \<open>
  The go-back-N transport layer of the host, \<^verbatim>\<open>host/net/transport_gbn.c\<close>.

  \<open>session_gbn\<close> is the private state of a session; sequence numbers are 32-bit words, as in the code
  (an atomic int compared as unsigned). Each function follows the source, with the calls into the
  raw network layer going through its operations. Memory that \<^verbatim>\<open>malloc\<close> returns and the code does
  not initialise is an argument. The data ring of the session, which no function of the file uses
  any more, has its fields here and nothing else.

  The lemmas describe the cumulative acknowledgement, the receiver's numbering and what
  \<open>gbn_receive\<close> hands to its caller; the last part composes a sender, a receiver and a network that
  loses, repeats and reorders, and shows the invariant of the protocol.
\<close>

section \<open>State\<close>

definition NR_BUFFER_INFO_SLOTS :: nat where "NR_BUFFER_INFO_SLOTS = 256"

definition GBN_PKT_ACK :: u8 where "GBN_PKT_ACK = 1"
definition GBN_PKT_NACK :: u8 where "GBN_PKT_NACK = 2"
definition GBN_PKT_DATA :: u8 where "GBN_PKT_DATA = 3"

record buffer_info =
  bi_buf :: "packet option"
  bi_buf_size :: u32
  bi_flags :: u32

record session_gbn =
  unack_buffer_info_ring :: "buffer_info list"
  seqnum_cur :: u32
  seqnum_last :: u32
  seqnum_expect :: u32
  ack_enable :: bool
  mb_ack_reply :: packet
  data_buffer_info_ring :: "buffer_info list"
  data_buffer_info_HEAD :: u64
  data_buffer_info_TAIL :: u64

text \<open>The counters of \<^verbatim>\<open>inc_stat\<close> that this file touches.\<close>

datatype gbn_stat = TX_ACK | TX_NACK | TX_DATA | RX_ACK | RX_NACK | RX_DATA | RX_ERROR_UNKNOWN_TYPE

record 'w gbn_env =
  g_ses :: session_gbn
  g_stat :: "gbn_stat \<Rightarrow> nat"
  g_net :: 'w

definition inc_stat :: "gbn_stat \<Rightarrow> 'w gbn_env \<Rightarrow> 'w gbn_env" where
  "inc_stat k e = e\<lparr>g_stat := (g_stat e)(k := g_stat e k + 1)\<rparr>"

definition index_to_unack_buffer_info :: "u32 \<Rightarrow> nat" where
  "index_to_unack_buffer_info index = unat (index mod of_nat NR_BUFFER_INFO_SLOTS)"

definition nr_unack_buffer :: "session_gbn \<Rightarrow> int" where
  "nr_unack_buffer ses = sint (seqnum_cur ses - seqnum_last ses)"

text \<open>The branch that records the slot is compiled out: only a sequence number is taken.\<close>

definition alloc_unack_buffer_info :: "session_gbn \<Rightarrow> u32 \<times> session_gbn" where
  "alloc_unack_buffer_info ses =
     (let index = seqnum_cur ses in (index + 1, ses\<lparr>seqnum_cur := index + 1\<rparr>))"

definition free_unack_buffer_info :: "nat \<Rightarrow> session_gbn \<Rightarrow> session_gbn" where
  "free_unack_buffer_info k ses =
     ses\<lparr>unack_buffer_info_ring :=
       (unack_buffer_info_ring ses)[k := (unack_buffer_info_ring ses ! k)\<lparr>bi_flags := 0\<rparr>]\<rparr>"

section \<open>Acknowledgements\<close>

function free_unack_range :: "u32 \<Rightarrow> u32 \<Rightarrow> session_gbn \<Rightarrow> session_gbn" where
  "free_unack_range i seq ses =
     (if i < seq then free_unack_range (i + 1) seq (free_unack_buffer_info (index_to_unack_buffer_info i) ses)
      else ses)"
  by pat_completeness auto
termination
  by (relation "measure (\<lambda>(i, seq, ses). unat seq - unat i)")
    (auto intro: unat_decrease)

declare free_unack_range.simps [simp del]

definition handle_ack_nack_dequeue :: "gbn_header \<Rightarrow> session_gbn \<Rightarrow> bool \<times> session_gbn" where
  "handle_ack_nack_dequeue hdr ses =
     (let last = seqnum_last ses; seq = seqnum hdr in
      if seq > last then
        (let ses = free_unack_range last seq ses in (True, ses\<lparr>seqnum_last := seq\<rparr>))
      else if seq = last then (True, ses)
      else (False, ses))"

text \<open>The retransmission loop stops at the first send that fails.\<close>

function retrans_loop ::
  "'w raw_net_ops \<Rightarrow> session_net \<Rightarrow> session_gbn \<Rightarrow> u32 \<Rightarrow> u32 \<Rightarrow> 'w \<Rightarrow> 'w" where
  "retrans_loop ops ses_net ses i stop w =
     (if i < stop then
        (let info = unack_buffer_info_ring ses ! index_to_unack_buffer_info i;
             (ret, w) = raw_send ops ses_net (bi_buf info) (ucast (bi_buf_size info)) None w
         in if ret < 0 then w else retrans_loop ops ses_net ses (i + 1) stop w)
      else w)"
  by pat_completeness auto
termination
  by (relation "measure (\<lambda>(ops, ses_net, ses, i, stop, w). unat stop - unat i)")
    (auto intro: unat_decrease)

declare retrans_loop.simps [simp del]

definition retrans_unack_buffer_info ::
  "'w raw_net_ops \<Rightarrow> session_net \<Rightarrow> session_gbn \<Rightarrow> 'w \<Rightarrow> 'w" where
  "retrans_unack_buffer_info ops ses_net ses w =
     retrans_loop ops ses_net ses (seqnum_last ses) (seqnum_cur ses) w"

definition handle_ack_packet :: "packet \<Rightarrow> 'w gbn_env \<Rightarrow> 'w gbn_env" where
  "handle_ack_packet pkt e = e\<lparr>g_ses := snd (handle_ack_nack_dequeue (p_gbn pkt) (g_ses e))\<rparr>"

definition handle_nack_packet ::
  "'w raw_net_ops \<Rightarrow> session_net \<Rightarrow> packet \<Rightarrow> 'w gbn_env \<Rightarrow> 'w gbn_env" where
  "handle_nack_packet ops ses_net pkt e =
     (let (ok, ses) = handle_ack_nack_dequeue (p_gbn pkt) (g_ses e); e = e\<lparr>g_ses := ses\<rparr> in
      if ok then e\<lparr>g_net := retrans_unack_buffer_info ops ses_net ses (g_net e)\<rparr> else e)"

section \<open>Data packets\<close>

text \<open>
  The acknowledgement is built in the session's registered buffer, with the ids of the packet
  exchanged. The reads of the ids take in the first byte of the next header.
\<close>

definition ack_session_ids :: "packet \<Rightarrow> gbn_header \<Rightarrow> gbn_header option" where
  "ack_session_ids pkt ack = (
     let nxt = ucast (lh_pid (p_lego pkt)) in do {
       d \<leftarrow> get_gbn_dst_session nxt (p_gbn pkt);
       s \<leftarrow> get_gbn_src_session nxt (p_gbn pkt);
       Some (set_gbn_src_dst_session d s ack) })"

definition set_ack_header :: "gbn_header \<Rightarrow> session_gbn \<Rightarrow> session_gbn" where
  "set_ack_header ack ses = ses\<lparr>mb_ack_reply := (mb_ack_reply ses)\<lparr>p_gbn := ack\<rparr>\<rparr>"

definition send_ack_buf ::
  "'w raw_net_ops \<Rightarrow> session_net \<Rightarrow> 'w gbn_env \<Rightarrow> int \<times> 'w gbn_env" where
  "send_ack_buf ops ses_net e =
     (let (ret, w) = raw_send ops ses_net (Some (mb_ack_reply (g_ses e)))
                       (of_nat (GBN_HEADER_OFFSET + 8)) None (g_net e)
      in (ret, e\<lparr>g_net := w\<rparr>))"

definition handle_data_packet ::
  "'w raw_net_ops \<Rightarrow> session_net \<Rightarrow> packet \<Rightarrow> 'w gbn_env \<Rightarrow> 'w gbn_env option" where
  "handle_data_packet ops ses_net pkt e = (
     if test_management_session ses_net then Some e
     else
       let seq = seqnum (p_gbn pkt); ses = g_ses e in
       if seq = seqnum_expect ses then
         (let out_seqnum = seqnum_expect ses; e = e\<lparr>g_ses := ses\<lparr>seqnum_expect := out_seqnum + 1\<rparr>\<rparr> in
          if out_seqnum mod 100 = 0 then do {
            ack \<leftarrow> ack_session_ids pkt (p_gbn (mb_ack_reply (g_ses e)));
            let e = e\<lparr>g_ses := set_ack_header (ack\<lparr>seqnum := out_seqnum, gbn_type := GBN_PKT_ACK\<rparr>) (g_ses e)\<rparr>;
                (ret, e) = send_ack_buf ops ses_net e
            in Some (if ret < 0 then e else inc_stat TX_ACK e) }
          else Some e)
       else if ack_enable ses then do {
         ack \<leftarrow> ack_session_ids pkt (p_gbn (mb_ack_reply ses));
         let e = e\<lparr>g_ses := set_ack_header ack ses\<rparr> in
         if seq > seqnum_expect ses then
           (let e = e\<lparr>g_ses := (set_ack_header (ack\<lparr>gbn_type := GBN_PKT_NACK, seqnum := seqnum_expect ses - 1\<rparr>)
                       (g_ses e))\<lparr>ack_enable := False\<rparr>\<rparr>;
                e = inc_stat TX_NACK e
            in Some (snd (send_ack_buf ops ses_net e)))
         else if seq < seqnum_expect ses then
           (let e = e\<lparr>g_ses := set_ack_header (ack\<lparr>gbn_type := GBN_PKT_ACK, seqnum := seqnum_expect ses - 1\<rparr>) (g_ses e)\<rparr>;
                e = inc_stat TX_ACK e
            in Some (snd (send_ack_buf ops ses_net e)))
         else Some e }
       else Some e)"

section \<open>Sending\<close>

definition prepare_gbn_headers :: "session_net \<Rightarrow> gbn_header \<Rightarrow> gbn_header" where
  "prepare_gbn_headers net hdr =
     set_gbn_src_dst_session (get_local_session_id net) (get_remote_session_id net) hdr"

text \<open>
  \<open>ses\<close> is the private state, \<open>None\<close> for a null pointer. The result is the return code, the packet
  as it stands in the caller's buffer, and the new environment.
\<close>

definition gbn_send_one ::
  "'w raw_net_ops \<Rightarrow> session_net \<Rightarrow> packet \<Rightarrow> u64 \<Rightarrow> packet option \<Rightarrow> bool \<Rightarrow> 'w gbn_env
   \<Rightarrow> (int \<times> packet \<times> 'w gbn_env) option" where
  "gbn_send_one ops net buf buf_size route has_ses e = (
     let buf = buf\<lparr>p_lego := prepare_legomem_header True buf_size (p_lego buf)\<rparr>;
         hdr = (case route of
                  Some r \<Rightarrow> p_gbn r
                | None \<Rightarrow> prepare_gbn_headers net ((p_gbn buf)\<lparr>gbn_type := GBN_PKT_DATA\<rparr>));
         buf = buf\<lparr>p_gbn := hdr\<rparr>
     in do {
       (buf, e) \<leftarrow>
         (if test_management_session net then Some (buf, e)
          else if \<not> has_ses then None
          else
            let (seq, ses) = alloc_unack_buffer_info (g_ses e)
            in Some (buf\<lparr>p_gbn := (p_gbn buf)\<lparr>seqnum := seq\<rparr>\<rparr>, e\<lparr>g_ses := ses\<rparr>));
       let e = inc_stat TX_DATA e;
           (ret, w) = raw_send ops net (Some buf) buf_size route (g_net e)
       in Some (ret, buf, e\<lparr>g_net := w\<rparr>) })"

text \<open>The variant that is given a message buffer runs the same steps on the buffer of the message.\<close>

definition gbn_send_one_msg_buf ::
  "'w raw_net_ops \<Rightarrow> session_net \<Rightarrow> packet \<Rightarrow> u64 \<Rightarrow> packet option \<Rightarrow> bool \<Rightarrow> 'w gbn_env
   \<Rightarrow> (int \<times> packet \<times> 'w gbn_env) option" where
  "gbn_send_one_msg_buf ops net mb_buf buf_size route has_ses e = (
     let buf = mb_buf\<lparr>p_lego := prepare_legomem_header True buf_size (p_lego mb_buf)\<rparr>;
         hdr = (case route of
                  Some r \<Rightarrow> p_gbn r
                | None \<Rightarrow> prepare_gbn_headers net ((p_gbn buf)\<lparr>gbn_type := GBN_PKT_DATA\<rparr>));
         buf = buf\<lparr>p_gbn := hdr\<rparr>
     in do {
       (buf, e) \<leftarrow>
         (if test_management_session net then Some (buf, e)
          else if \<not> has_ses then None
          else
            let (seq, ses) = alloc_unack_buffer_info (g_ses e)
            in Some (buf\<lparr>p_gbn := (p_gbn buf)\<lparr>seqnum := seq\<rparr>\<rparr>, e\<lparr>g_ses := ses\<rparr>));
       let e = inc_stat TX_DATA e;
           (ret, w) = raw_send ops net (Some buf) buf_size route (g_net e)
       in Some (ret, buf, e\<lparr>g_net := w\<rparr>) })"

section \<open>Receiving\<close>

text \<open>
  \<open>gbn_receive\<close> is \<^verbatim>\<open>__gbn_receive_one\<close>: it polls the raw layer, consumes acknowledgements, and
  returns with the first packet of another kind. The value is the return code, the packet and size
  it hands over, and the new environment. The check of the session a packet names only prints.
\<close>

partial_function (option) gbn_receive ::
  "'w raw_net_ops \<Rightarrow> session_net \<Rightarrow> bool \<Rightarrow> 'w gbn_env
   \<Rightarrow> (int \<times> (packet \<times> u64) option \<times> 'w gbn_env) option" where
  "gbn_receive ops ses_net non_blocking e =
     (case raw_receive ops ses_net (g_net e) of ((ret, pkt, sz), w) \<Rightarrow>
      let e = e\<lparr>g_net := w\<rparr> in
      if ret < 0 then Some (ret, None, e)
      else if ret = 0 then
        (if non_blocking then Some (0, None, e) else gbn_receive ops ses_net non_blocking e)
      else if gbn_type (p_gbn pkt) = GBN_PKT_ACK then
        gbn_receive ops ses_net non_blocking (handle_ack_packet pkt (inc_stat RX_ACK e))
      else if gbn_type (p_gbn pkt) = GBN_PKT_NACK then
        gbn_receive ops ses_net non_blocking (handle_nack_packet ops ses_net pkt (inc_stat RX_NACK e))
      else if gbn_type (p_gbn pkt) = GBN_PKT_DATA then do {
        e \<leftarrow> handle_data_packet ops ses_net pkt (inc_stat RX_DATA e);
        Some (sint (ucast sz :: u32), Some (pkt, sz), e) }
      else Some (- EIO, None, inc_stat RX_ERROR_UNKNOWN_TYPE e))"

text \<open>The four receive calls of the interface differ in the blocking flag and in whether they copy.\<close>

definition gbn_receive_one ::
  "'w raw_net_ops \<Rightarrow> session_net \<Rightarrow> 'w gbn_env \<Rightarrow> (int \<times> (packet \<times> u64) option \<times> 'w gbn_env) option" where
  "gbn_receive_one ops net e = gbn_receive ops net False e"

definition gbn_receive_one_nb ::
  "'w raw_net_ops \<Rightarrow> session_net \<Rightarrow> 'w gbn_env \<Rightarrow> (int \<times> (packet \<times> u64) option \<times> 'w gbn_env) option" where
  "gbn_receive_one_nb ops net e = gbn_receive ops net True e"

definition gbn_receive_one_zerocopy ::
  "'w raw_net_ops \<Rightarrow> session_net \<Rightarrow> 'w gbn_env \<Rightarrow> (int \<times> (packet \<times> u64) option \<times> 'w gbn_env) option" where
  "gbn_receive_one_zerocopy ops net e = gbn_receive ops net False e"

definition gbn_receive_one_zerocopy_nb ::
  "'w raw_net_ops \<Rightarrow> session_net \<Rightarrow> 'w gbn_env \<Rightarrow> (int \<times> (packet \<times> u64) option \<times> 'w gbn_env) option" where
  "gbn_receive_one_zerocopy_nb ops net e = gbn_receive ops net True e"

section \<open>Opening a session\<close>

definition zero_buffer_info :: buffer_info where
  "zero_buffer_info = \<lparr>bi_buf = None, bi_buf_size = 0, bi_flags = 0\<rparr>"

definition init_session_gbn :: "session_gbn \<Rightarrow> session_gbn" where
  "init_session_gbn gbn =
     gbn\<lparr>unack_buffer_info_ring := replicate NR_BUFFER_INFO_SLOTS zero_buffer_info,
         seqnum_cur := 0, seqnum_last := 0, seqnum_expect := 1\<rparr>"

text \<open>
  \<open>mem\<close> is the memory the first \<^verbatim>\<open>malloc\<close> returns, \<open>None\<close> when it fails; \<open>buf_ok\<close> says whether the
  second one succeeds and \<open>mb\<close> is what registering the buffer gives.
\<close>

definition gbn_open_session ::
  "session_gbn option \<Rightarrow> bool \<Rightarrow> packet option \<Rightarrow> int \<times> session_gbn option" where
  "gbn_open_session mem buf_ok mb = (
     case mem of None \<Rightarrow> (- ENOMEM, None)
     | Some ses_gbn \<Rightarrow>
       let ses_gbn = init_session_gbn ses_gbn in
       if \<not> buf_ok then (- ENOMEM, None)
       else (case mb of None \<Rightarrow> (- ENOMEM, None)
             | Some m \<Rightarrow> (0, Some (ses_gbn\<lparr>mb_ack_reply := m\<rparr>))))"

text \<open>Closing frees the private state; the registered buffer stays.\<close>

definition gbn_close_session :: "session_gbn option \<Rightarrow> int \<times> session_gbn option" where
  "gbn_close_session ses_gbn = (0, None)"

section \<open>Acknowledgements are cumulative\<close>

lemma free_unack_fields [simp]:
  "seqnum_cur (free_unack_buffer_info k ses) = seqnum_cur ses"
  "seqnum_last (free_unack_buffer_info k ses) = seqnum_last ses"
  "seqnum_expect (free_unack_buffer_info k ses) = seqnum_expect ses"
  "ack_enable (free_unack_buffer_info k ses) = ack_enable ses"
  "mb_ack_reply (free_unack_buffer_info k ses) = mb_ack_reply ses"
  "length (unack_buffer_info_ring (free_unack_buffer_info k ses)) = length (unack_buffer_info_ring ses)"
  "map bi_buf (unack_buffer_info_ring (free_unack_buffer_info k ses)) = map bi_buf (unack_buffer_info_ring ses)"
  by (simp_all add: free_unack_buffer_info_def map_update) (metis list_update_id map_update)

lemma free_unack_range_fields [simp]:
  "seqnum_cur (free_unack_range i seq ses) = seqnum_cur ses"
  "seqnum_last (free_unack_range i seq ses) = seqnum_last ses"
  "seqnum_expect (free_unack_range i seq ses) = seqnum_expect ses"
  "ack_enable (free_unack_range i seq ses) = ack_enable ses"
  "mb_ack_reply (free_unack_range i seq ses) = mb_ack_reply ses"
  "length (unack_buffer_info_ring (free_unack_range i seq ses)) = length (unack_buffer_info_ring ses)"
  "map bi_buf (unack_buffer_info_ring (free_unack_range i seq ses)) = map bi_buf (unack_buffer_info_ring ses)"
  by (induction i seq ses rule: free_unack_range.induct; subst free_unack_range.simps; simp)+

lemma index_lt: "index_to_unack_buffer_info i < 256"
  by (simp add: index_to_unack_buffer_info_def NR_BUFFER_INFO_SLOTS_def unat_mod)

lemma free_unack_flags:
  "k < length (unack_buffer_info_ring ses) \<Longrightarrow>
   unack_buffer_info_ring (free_unack_buffer_info j ses) ! k =
     (if k = j then (unack_buffer_info_ring ses ! k)\<lparr>bi_flags := 0\<rparr> else unack_buffer_info_ring ses ! k)"
  by (auto simp: free_unack_buffer_info_def nth_list_update)

lemma free_unack_range_slot:
  assumes "k < length (unack_buffer_info_ring ses)"
  shows "unack_buffer_info_ring (free_unack_range i seq ses) ! k =
     (if \<exists>j. i \<le> j \<and> j < seq \<and> index_to_unack_buffer_info j = k
      then (unack_buffer_info_ring ses ! k)\<lparr>bi_flags := 0\<rparr> else unack_buffer_info_ring ses ! k)"
  using assms
proof (induction i seq ses rule: free_unack_range.induct)
  case (1 i seq ses)
  show ?case
  proof (cases "i < seq")
    case True
    have split: "(\<exists>j. i \<le> j \<and> j < seq \<and> index_to_unack_buffer_info j = k) \<longleftrightarrow>
      index_to_unack_buffer_info i = k \<or> (\<exists>j. i + 1 \<le> j \<and> j < seq \<and> index_to_unack_buffer_info j = k)"
    proof -
      have "i \<le> j \<longleftrightarrow> j = i \<or> i + 1 \<le> j" for j
        using unat_plus_1_less [OF True] by (auto simp: word_le_nat_alt word_unat_eq_iff)
      with True show ?thesis by (metis order_refl)
    qed
    show ?thesis using True 1 unfolding split
      by (subst free_unack_range.simps) (auto simp: free_unack_flags)
  next
    case False
    then show ?thesis by (subst free_unack_range.simps) auto
  qed
qed

lemma dequeue_fields [simp]:
  "seqnum_cur (snd (handle_ack_nack_dequeue hdr ses)) = seqnum_cur ses"
  "seqnum_expect (snd (handle_ack_nack_dequeue hdr ses)) = seqnum_expect ses"
  "ack_enable (snd (handle_ack_nack_dequeue hdr ses)) = ack_enable ses"
  "mb_ack_reply (snd (handle_ack_nack_dequeue hdr ses)) = mb_ack_reply ses"
  "length (unack_buffer_info_ring (snd (handle_ack_nack_dequeue hdr ses))) = length (unack_buffer_info_ring ses)"
  "map bi_buf (unack_buffer_info_ring (snd (handle_ack_nack_dequeue hdr ses))) = map bi_buf (unack_buffer_info_ring ses)"
  "seqnum_last (snd (handle_ack_nack_dequeue hdr ses)) = max (seqnum_last ses) (seqnum hdr)"
  by (auto simp: handle_ack_nack_dequeue_def Let_def max_def not_less)

section \<open>A sender, a receiver and an unreliable network\<close>

text \<open>
  \<open>tx\<close> and \<open>rx\<close> are the two ends of one session. What an end hands to its raw layer stays in its
  log, and any packet of the log may reach the other end at any time, any number of times, or
  never. The packets the receiver numbered are collected in \<open>accepted\<close>, those its caller was given
  in \<open>delivered\<close>.
\<close>

record gbn_sys =
  tx :: "wire gbn_env"
  rx :: "wire gbn_env"
  accepted :: "packet list"
  delivered :: "packet list"

definition arrive :: "packet \<Rightarrow> u64 \<Rightarrow> wire gbn_env \<Rightarrow> wire gbn_env" where
  "arrive p n e = e\<lparr>g_net := (g_net e)\<lparr>w_queue := [(p, n)]\<rparr>\<rparr>"

definition sent_by :: "wire gbn_env \<Rightarrow> packet set" where
  "sent_by e = {p. Some p \<in> set (w_sent (g_net e))}"

abbreviation seq_of :: "packet \<Rightarrow> nat" where
  "seq_of p \<equiv> unat (seqnum (p_gbn p))"

text \<open>The sender stops before its 32-bit sequence number runs out.\<close>

inductive gbn_step :: "session_net \<Rightarrow> session_net \<Rightarrow> gbn_sys \<Rightarrow> gbn_sys \<Rightarrow> bool"
  for a :: session_net and b :: session_net where
  send: "gbn_send_one wire_ops a buf n None True (tx s) = Some (ret, buf', e) \<Longrightarrow>
     unat (seqnum_cur (g_ses (tx s))) < 2 ^ 32 - 2 \<Longrightarrow>
     gbn_step a b s (s\<lparr>tx := e\<rparr>)"
| receive: "p \<in> sent_by (tx s) \<Longrightarrow>
     gbn_receive wire_ops b True (arrive p n (rx s)) = Some (ret, got, e) \<Longrightarrow>
     gbn_step a b s (s\<lparr>rx := e,
       accepted := accepted s @ (if seqnum_expect (g_ses e) = seqnum_expect (g_ses (rx s)) then [] else [p]),
       delivered := delivered s @ (case got of None \<Rightarrow> [] | Some (q, _) \<Rightarrow> [q])\<rparr>)"
| reply: "p \<in> sent_by (rx s) \<Longrightarrow>
     gbn_receive wire_ops a True (arrive p n (tx s)) = Some (ret, got, e) \<Longrightarrow>
     gbn_step a b s (s\<lparr>tx := e\<rparr>)"

definition gbn_start :: "gbn_sys \<Rightarrow> bool" where
  "gbn_start s \<longleftrightarrow>
     (\<exists>m mb m' mb'. gbn_open_session (Some m) True (Some mb) = (0, Some (g_ses (tx s)))
        \<and> gbn_open_session (Some m') True (Some mb') = (0, Some (g_ses (rx s))))
     \<and> w_sent (g_net (tx s)) = [] \<and> w_sent (g_net (rx s)) = [] \<and> accepted s = [] \<and> delivered s = []"

inductive gbn_reach :: "session_net \<Rightarrow> session_net \<Rightarrow> gbn_sys \<Rightarrow> bool"
  for a :: session_net and b :: session_net where
  start: "gbn_start s \<Longrightarrow> gbn_reach a b s"
| step: "gbn_reach a b s \<Longrightarrow> gbn_step a b s s' \<Longrightarrow> gbn_reach a b s'"

text \<open>What one arriving packet does, by its type.\<close>

definition drained :: "wire gbn_env \<Rightarrow> wire gbn_env" where
  "drained e = e\<lparr>g_net := (g_net e)\<lparr>w_queue := []\<rparr>\<rparr>"

lemma raw_send_queue: "w_queue (retrans_unack_buffer_info wire_ops ses_net ses w) = w_queue w"
proof -
  have "w_queue (retrans_loop wire_ops ses_net ses i stop w) = w_queue w" for i stop
    by (induction wire_ops ses_net ses i stop w rule: retrans_loop.induct)
      (subst retrans_loop.simps, simp add: Let_def)
  then show ?thesis by (simp add: retrans_unack_buffer_info_def)
qed

lemma receive_empty: "w_queue (g_net e) = [] \<Longrightarrow> gbn_receive wire_ops ses True e = Some (0, None, e)"
  by (subst gbn_receive.simps) (simp add: Let_def)

lemma receive_ack:
  assumes "gbn_type (p_gbn p) = GBN_PKT_ACK"
  shows "gbn_receive wire_ops ses True (arrive p n e) =
    Some (0, None, handle_ack_packet p (inc_stat RX_ACK (drained e)))"
  using assms
  by (subst gbn_receive.simps)
    (simp add: arrive_def drained_def Let_def receive_empty handle_ack_packet_def inc_stat_def)

lemma receive_nack:
  assumes "gbn_type (p_gbn p) = GBN_PKT_NACK"
  shows "gbn_receive wire_ops ses True (arrive p n e) =
    Some (0, None, handle_nack_packet wire_ops ses p (inc_stat RX_NACK (drained e)))"
proof -
  have "gbn_receive wire_ops ses True (handle_nack_packet wire_ops ses p (inc_stat RX_NACK (drained e)))
    = Some (0, None, handle_nack_packet wire_ops ses p (inc_stat RX_NACK (drained e)))"
    by (rule receive_empty)
      (simp add: handle_nack_packet_def inc_stat_def drained_def Let_def raw_send_queue split: prod.splits)
  then show ?thesis using assms
    by (subst gbn_receive.simps) (simp add: arrive_def drained_def Let_def GBN_PKT_ACK_def GBN_PKT_NACK_def)
qed

lemma receive_data:
  assumes "gbn_type (p_gbn p) = GBN_PKT_DATA"
  shows "gbn_receive wire_ops ses True (arrive p n e) =
    map_option (\<lambda>e'. (sint (ucast n :: u32), Some (p, n), e'))
      (handle_data_packet wire_ops ses p (inc_stat RX_DATA (drained e)))"
  using assms
  by (subst gbn_receive.simps)
    (cases "handle_data_packet wire_ops ses p (inc_stat RX_DATA (drained e))";
     simp add: arrive_def drained_def Let_def GBN_PKT_ACK_def GBN_PKT_NACK_def GBN_PKT_DATA_def)

lemma sent_by_simps [simp]:
  "sent_by (e\<lparr>g_ses := x\<rparr>) = sent_by e" "sent_by (inc_stat k e) = sent_by e"
  "sent_by (drained e) = sent_by e"
  "sent_by (e\<lparr>g_net := w\<lparr>w_sent := ws @ [Some p]\<rparr>\<rparr>) = insert p (sent_by (e\<lparr>g_net := w\<lparr>w_sent := ws\<rparr>\<rparr>))"
  by (auto simp: sent_by_def inc_stat_def drained_def)

lemma env_simps [simp]:
  "g_ses (inc_stat k e) = g_ses e" "g_net (inc_stat k e) = g_net e" "g_ses (drained e) = g_ses e"
  by (simp_all add: inc_stat_def drained_def)

lemma set_ack_header_fields [simp]:
  "seqnum_expect (set_ack_header h ses) = seqnum_expect ses"
  "ack_enable (set_ack_header h ses) = ack_enable ses"
  "p_gbn (mb_ack_reply (set_ack_header h ses)) = h"
  by (simp_all add: set_ack_header_def)

lemma send_ack_buf_fields [simp]:
  "g_ses (snd (send_ack_buf wire_ops net e)) = g_ses e"
  "sent_by (snd (send_ack_buf wire_ops net e)) = insert (mb_ack_reply (g_ses e)) (sent_by e)"
  by (auto simp: send_ack_buf_def sent_by_def)

lemma send_ack_buf_ret [simp]: "fst (send_ack_buf wire_ops net e) = 0"
  by (simp add: send_ack_buf_def)

text \<open>The receiver moves on exactly at the packet it expects, and whatever it answers carries the number
  of the last packet it moved past.\<close>

definition ack_of :: "u32 \<Rightarrow> packet \<Rightarrow> bool" where
  "ack_of k q \<longleftrightarrow> gbn_type (p_gbn q) \<in> {GBN_PKT_ACK, GBN_PKT_NACK} \<and> seqnum (p_gbn q) + 1 = k"

lemma handle_data_effect:
  assumes "handle_data_packet wire_ops b p e = Some e'" "\<not> test_management_session b"
  shows "seqnum_expect (g_ses e') = (if seqnum (p_gbn p) = seqnum_expect (g_ses e)
           then seqnum_expect (g_ses e) + 1 else seqnum_expect (g_ses e))"
    and "q \<in> sent_by e' \<Longrightarrow> q \<in> sent_by e \<or> ack_of (seqnum_expect (g_ses e')) q"
  using assms
  by (auto simp: handle_data_packet_def Let_def ack_of_def case_prod_beta split: if_splits Option.bind_splits)


lemma retrans_null:
  assumes "map bi_buf (unack_buffer_info_ring ses) = replicate 256 None"
  shows "w_sent (retrans_unack_buffer_info wire_ops net ses w) =
    w_sent w @ replicate (unat (seqnum_cur ses) - unat (seqnum_last ses)) None"
proof -
  have n: "bi_buf (unack_buffer_info_ring ses ! index_to_unack_buffer_info i) = None" for i
    using assms index_lt [of i] by (metis length_map length_replicate nth_map nth_replicate)
  have "w_sent (retrans_loop wire_ops net ses i stop w) = w_sent w @ replicate (unat stop - unat i) None" for i stop
  proof (induction "unat stop - unat i" arbitrary: i w rule: less_induct)
    case less
    show ?case
    proof (cases "i < stop")
      case True
      let ?w = "w\<lparr>w_sent := w_sent w @ [None]\<rparr>"
      have "unat stop - unat i = Suc (unat stop - unat (i + 1))"
        using True unat_plus_1_less [OF True] by (simp add: word_less_nat_alt)
      moreover have "w_sent (retrans_loop wire_ops net ses (i + 1) stop ?w) = w_sent ?w @ replicate (unat stop - unat (i + 1)) None"
        by (rule less [OF unat_decrease [OF True]])
      ultimately show ?thesis
        using True n [of i] by (subst retrans_loop.simps) (simp add: Let_def)
    next
      case False
      then show ?thesis by (subst retrans_loop.simps) (simp add: word_less_nat_alt)
    qed
  qed
  then show ?thesis by (simp add: retrans_unack_buffer_info_def)
qed

lemma handle_nack_effect:
  assumes "map bi_buf (unack_buffer_info_ring (g_ses e)) = replicate 256 None"
  shows "g_ses (handle_nack_packet wire_ops a p e) = snd (handle_ack_nack_dequeue (p_gbn p) (g_ses e))"
    "sent_by (handle_nack_packet wire_ops a p e) = sent_by e"
proof -
  let ?d = "handle_ack_nack_dequeue (p_gbn p) (g_ses e)"
  have "\<exists>k. w_sent (retrans_unack_buffer_info wire_ops a (snd ?d) (g_net e)) = w_sent (g_net e) @ replicate k None"
    using retrans_null [of "snd ?d"] assms by (metis dequeue_fields(6))
  then show "g_ses (handle_nack_packet wire_ops a p e) = snd ?d" "sent_by (handle_nack_packet wire_ops a p e) = sent_by e"
    by (auto simp: handle_nack_packet_def Let_def case_prod_beta sent_by_def)
qed

lemma send_effect:
  assumes "gbn_send_one wire_ops a buf n None True e = Some (ret, buf', e')" "\<not> test_management_session a"
  shows "sent_by e' = insert buf' (sent_by e)" "seqnum (p_gbn buf') = seqnum_cur (g_ses e) + 1"
    "gbn_type (p_gbn buf') = GBN_PKT_DATA" "g_ses e' = (g_ses e)\<lparr>seqnum_cur := seqnum_cur (g_ses e) + 1\<rparr>"
    "length (session_id_bytes (p_gbn buf')) = 3"
  using assms
  by (auto simp: gbn_send_one_def Let_def alloc_unack_buffer_info_def sent_by_def inc_stat_def
      prepare_gbn_headers_def set_gbn_src_dst_session_def u32_bytes_def SES_ID_SIZE_BYTE_def)

text \<open>The invariant of the composed system.\<close>

definition gbn_inv :: "gbn_sys \<Rightarrow> bool" where
  "gbn_inv s \<longleftrightarrow> (let k = length (accepted s); n = unat (seqnum_cur (g_ses (tx s))) in
     unat (seqnum_expect (g_ses (rx s))) = Suc k \<and> map seq_of (accepted s) = [1..<Suc k]
     \<and> set (accepted s) \<subseteq> sent_by (tx s)
     \<and> (\<forall>p \<in> sent_by (tx s). gbn_type (p_gbn p) = GBN_PKT_DATA \<and> 1 \<le> seq_of p \<and> seq_of p \<le> n
          \<and> length (session_id_bytes (p_gbn p)) = 3)
     \<and> (\<forall>p \<in> sent_by (rx s). gbn_type (p_gbn p) \<in> {GBN_PKT_ACK, GBN_PKT_NACK} \<and> seq_of p \<le> k)
     \<and> unat (seqnum_last (g_ses (tx s))) \<le> k \<and> k \<le> n \<and> n < 2 ^ 32 - 1
     \<and> {1..n} \<subseteq> seq_of ` sent_by (tx s)
     \<and> map bi_buf (unack_buffer_info_ring (g_ses (tx s))) = replicate 256 None)"

lemma open_fields:
  "gbn_open_session (Some m) True (Some mb) = (0, Some ses) \<Longrightarrow>
   seqnum_cur ses = 0 \<and> seqnum_last ses = 0 \<and> seqnum_expect ses = 1 \<and>
   map bi_buf (unack_buffer_info_ring ses) = replicate 256 None"
  by (auto simp: gbn_open_session_def init_session_gbn_def Let_def NR_BUFFER_INFO_SLOTS_def zero_buffer_info_def)

lemma gbn_inv_start: "gbn_start s \<Longrightarrow> gbn_inv s"
  by (auto simp: gbn_start_def gbn_inv_def Let_def sent_by_def dest!: open_fields)

lemma gbn_inv_send:
  assumes "gbn_inv s" "gbn_send_one wire_ops a buf n None True (tx s) = Some (ret, buf', e)"
    "unat (seqnum_cur (g_ses (tx s))) < 2 ^ 32 - 2" "\<not> test_management_session a"
  shows "gbn_inv (s\<lparr>tx := e\<rparr>)"
proof -
  note E = send_effect [OF assms(2,4)]
  let ?c = "seqnum_cur (g_ses (tx s))"
  have c: "unat (?c + 1) = Suc (unat ?c)" using assms(3) by (simp add: unat_word_ariths)
  have "{1..Suc (unat ?c)} = insert (Suc (unat ?c)) {1..unat ?c}" by auto
  then show ?thesis using assms(1,3) E c by (auto simp: gbn_inv_def Let_def)
qed

lemma gbn_inv_reply:
  assumes "gbn_inv s" "p \<in> sent_by (rx s)" "gbn_receive wire_ops a True (arrive p n (tx s)) = Some (ret, got, e)"
  shows "gbn_inv (s\<lparr>tx := e\<rparr>)"
proof -
  have p: "gbn_type (p_gbn p) \<in> {GBN_PKT_ACK, GBN_PKT_NACK}" "seq_of p \<le> length (accepted s)"
    using assms(1,2) by (auto simp: gbn_inv_def Let_def)
  have "g_ses e = snd (handle_ack_nack_dequeue (p_gbn p) (g_ses (tx s))) \<and> sent_by e = sent_by (tx s)"
  proof (cases "gbn_type (p_gbn p) = GBN_PKT_ACK")
    case True
    then show ?thesis using assms(3) by (auto simp: receive_ack handle_ack_packet_def)
  next
    case False
    then show ?thesis using assms(1,3) p handle_nack_effect [of "inc_stat RX_NACK (drained (tx s))" a p]
      by (auto simp: receive_nack gbn_inv_def Let_def)
  qed
  then show ?thesis using assms(1) p(2) by (auto simp: gbn_inv_def Let_def max_def)
qed

lemma gbn_inv_receive:
  assumes "gbn_inv s" "p \<in> sent_by (tx s)" "gbn_receive wire_ops b True (arrive p n (rx s)) = Some (ret, got, e)"
    "\<not> test_management_session b"
  shows "gbn_inv (s\<lparr>rx := e,
       accepted := accepted s @ (if seqnum_expect (g_ses e) = seqnum_expect (g_ses (rx s)) then [] else [p]),
       delivered := d\<rparr>)"
proof -
  let ?k = "length (accepted s)" and ?x = "seqnum_expect (g_ses (rx s))"
  have p: "gbn_type (p_gbn p) = GBN_PKT_DATA" "seq_of p \<le> unat (seqnum_cur (g_ses (tx s)))"
    and x: "unat ?x = Suc ?k" and n: "unat (seqnum_cur (g_ses (tx s))) < 2 ^ 32 - 1" "?k \<le> unat (seqnum_cur (g_ses (tx s)))"
    using assms(1,2) by (auto simp: gbn_inv_def Let_def)
  from p(1) assms(3) have e: "handle_data_packet wire_ops b p (inc_stat RX_DATA (drained (rx s))) = Some e"
    by (auto simp: receive_data)
  note E = handle_data_effect [OF e assms(4)]
  show ?thesis
  proof (cases "seqnum (p_gbn p) = ?x")
    case True
    then have k: "Suc ?k \<le> unat (seqnum_cur (g_ses (tx s)))" using p(2) x by simp
    then have x1: "unat (?x + 1) = Suc (Suc ?k)" using n(1) x by (simp add: unat_word_ariths)
    have "seq_of q \<le> Suc ?k \<and> gbn_type (p_gbn q) \<in> {GBN_PKT_ACK, GBN_PKT_NACK}" if "q \<in> sent_by e" for q
      using E(2) [OF that] assms(1) True E(1) x by (auto simp: ack_of_def gbn_inv_def Let_def)
    then show ?thesis using assms(1,2) True E(1) x x1 k by (auto simp: gbn_inv_def Let_def)
  next
    case False
    have "unat w = ?k" if "w + 1 = ?x" for w
      using that x by (metis diff_Suc_1 add_diff_cancel_right' unat_minus_one unsigned_0 nat.distinct(1))
    then have "seq_of q \<le> ?k \<and> gbn_type (p_gbn q) \<in> {GBN_PKT_ACK, GBN_PKT_NACK}" if "q \<in> sent_by e" for q
      using E(2) [OF that] assms(1) False E(1) by (auto simp: ack_of_def gbn_inv_def Let_def)
    then show ?thesis using assms(1,2) False E(1) by (auto simp: gbn_inv_def Let_def)
  qed
qed

lemma gbn_reach_inv:
  assumes "gbn_reach a b s" "\<not> test_management_session a" "\<not> test_management_session b"
  shows "gbn_inv s"
  using assms
proof (induction rule: gbn_reach.induct)
  case (step s s')
  note inv = step.IH [OF step.prems]
  from step.hyps(2) show ?case
  proof (cases rule: gbn_step.cases)
    case send
    then show ?thesis using gbn_inv_send [OF inv] step.prems by simp
  next
    case receive
    then show ?thesis using gbn_inv_receive [OF inv] step.prems by simp
  next
    case reply
    then show ?thesis using gbn_inv_reply [OF inv] by simp
  qed
qed (rule gbn_inv_start)

section \<open>Progress\<close>

lemma ack_session_ids_Some: "length (session_id_bytes (p_gbn p)) = 3 \<Longrightarrow> \<exists>h. ack_session_ids p ack = Some h"
proof -
  assume "length (session_id_bytes (p_gbn p)) = 3"
  then obtain x y z where "session_id_bytes (p_gbn p) = [x, y, z]" by (auto simp: numeral_3_eq_3 length_Suc_conv)
  then show ?thesis by (simp add: ack_session_ids_def Let_def get_gbn_dst_session_def get_gbn_src_session_def)
qed

lemma handle_data_Some:
  assumes "length (session_id_bytes (p_gbn p)) = 3"
  shows "\<exists>e'. handle_data_packet ops b p e = Some e'"
  using ack_session_ids_Some [OF assms]
  by (auto simp: handle_data_packet_def Let_def case_prod_beta split: Option.bind_splits if_splits)
    (metis option.distinct(1))+

lemma gbn_receive_expected:
  assumes "gbn_inv s" "length (accepted s) < unat (seqnum_cur (g_ses (tx s)))" "\<not> test_management_session b"
  shows "\<exists>s'. gbn_step a b s s' \<and> tx s' = tx s \<and> length (accepted s') = Suc (length (accepted s))"
proof -
  let ?k = "length (accepted s)"
  have "Suc ?k \<in> {1..unat (seqnum_cur (g_ses (tx s)))}" using assms(2) by simp
  then have "Suc ?k \<in> seq_of ` sent_by (tx s)" using assms(1) by (auto simp: gbn_inv_def Let_def)
  then obtain p where p: "p \<in> sent_by (tx s)" "seq_of p = Suc ?k" by auto
  have q: "gbn_type (p_gbn p) = GBN_PKT_DATA" "length (session_id_bytes (p_gbn p)) = 3"
    and x: "unat (seqnum_expect (g_ses (rx s))) = Suc ?k"
    using assms(1) p(1) by (auto simp: gbn_inv_def Let_def)
  obtain e where e: "handle_data_packet wire_ops b p (inc_stat RX_DATA (drained (rx s))) = Some e"
    using handle_data_Some [OF q(2)] by blast
  have "seqnum (p_gbn p) = seqnum_expect (g_ses (rx s))" using p(2) x by (simp add: word_unat_eq_iff)
  then have "seqnum_expect (g_ses e) = seqnum_expect (g_ses (rx s)) + 1"
    using handle_data_effect(1) [OF e assms(3)] by simp
  moreover have "gbn_receive wire_ops b True (arrive p 0 (rx s)) = Some (0, Some (p, 0), e)"
    using q(1) e by (simp add: receive_data)
  ultimately show ?thesis using gbn_step.receive [OF p(1), of b 0 0 "Some (p, 0)" e a] by fastforce
qed

section \<open>Properties\<close>

text \<open>A concrete session: ids 1 and 2, opened on memory that happens to be zero.\<close>

definition sample_net :: "u32 \<Rightarrow> u32 \<Rightarrow> session_net" where
  "sample_net i j = \<lparr>sn_board_ip = 0, sn_udp_port = 0, session_id = i, remote_session_id = j, sn_flags = 0,
     sn_tid = 0, sn_local_ei = \<lparr>ei_mac = [], ei_ip_str = '''', ei_ip = 0, ei_udp_port = 0\<rparr>,
     sn_remote_ei = \<lparr>ei_mac = [], ei_ip_str = '''', ei_ip = 0, ei_udp_port = 0\<rparr>,
     sn_route = p_route empty_packet, outstanding_reads = 0, outstanding_writes = 0\<rparr>"

definition sample_gbn :: session_gbn where
  "sample_gbn = init_session_gbn \<lparr>unack_buffer_info_ring = [], seqnum_cur = 0, seqnum_last = 0, seqnum_expect = 0,
     ack_enable = False, mb_ack_reply = empty_packet, data_buffer_info_ring = [], data_buffer_info_HEAD = 0,
     data_buffer_info_TAIL = 0\<rparr>"

definition sample_env :: "wire gbn_env" where
  "sample_env = \<lparr>g_ses = sample_gbn, g_stat = (\<lambda>_. 0), g_net = \<lparr>w_sent = [], w_queue = []\<rparr>\<rparr>"

definition sample_sys :: gbn_sys where
  "sample_sys = \<lparr>tx = sample_env, rx = sample_env, accepted = [], delivered = []\<rparr>"

lemma sample_start: "gbn_start sample_sys"
proof -
  have "sample_gbn\<lparr>mb_ack_reply := empty_packet\<rparr> = sample_gbn" by (simp add: sample_gbn_def init_session_gbn_def)
  moreover have "init_session_gbn sample_gbn = sample_gbn" by (simp add: sample_gbn_def init_session_gbn_def)
  ultimately have "gbn_open_session (Some sample_gbn) True (Some empty_packet) = (0, Some sample_gbn)"
    by (simp add: gbn_open_session_def Let_def)
  then show ?thesis by (auto simp: gbn_start_def sample_sys_def sample_env_def)
qed

lemma sample_mgmt [simp]: "test_management_session (sample_net i j) \<longleftrightarrow> i = 0 \<or> j = 0"
  by (simp add: test_management_session_def sample_net_def get_local_session_id_def get_remote_session_id_def
      LEGOMEM_MGMT_SESSION_ID_def)

lemma sample_reach:
  "\<exists>s. gbn_reach (sample_net 1 2) (sample_net 2 1) s \<and> seqnum_cur (g_ses (tx s)) = 1 \<and> seqnum_last (g_ses (tx s)) = 0"
proof -
  obtain ret buf e where e: "gbn_send_one wire_ops (sample_net 1 2) empty_packet 100 None True sample_env = Some (ret, buf, e)"
    by (simp add: gbn_send_one_def alloc_unack_buffer_info_def Let_def)
  have c: "seqnum_cur (g_ses sample_env) = 0" "seqnum_last (g_ses sample_env) = 0" by (simp_all add: sample_env_def sample_gbn_def init_session_gbn_def)
  have "gbn_step (sample_net 1 2) (sample_net 2 1) sample_sys (sample_sys\<lparr>tx := e\<rparr>)"
    by (rule gbn_step.send [of _ empty_packet 100 _ ret buf]) (simp_all add: sample_sys_def e c)
  then have "gbn_reach (sample_net 1 2) (sample_net 2 1) (sample_sys\<lparr>tx := e\<rparr>)"
    by (rule gbn_reach.step [OF gbn_reach.start [OF sample_start]])
  moreover have "seqnum_cur (g_ses e) = 1" "seqnum_last (g_ses e) = 0" using send_effect(4) [OF e] c by simp_all
  ultimately show ?thesis by force
qed

text \<open>C1. In every reachable state of a sender, a receiver and a network that loses, repeats and reorders
  packets: the packets the receiver accepted are packets the sender sent, numbered 1, 2, 3 and so on
  without gap or repetition, and the sender's last acknowledged number never passes the number of
  accepted packets, which never passes the number of packets sent.\<close>

theorem gbn_window_safe:
  assumes "gbn_reach a b s" "\<not> test_management_session a" "\<not> test_management_session b"
  shows "map seq_of (accepted s) = [1..<Suc (length (accepted s))] \<and> set (accepted s) \<subseteq> sent_by (tx s)
     \<and> unat (seqnum_last (g_ses (tx s))) \<le> length (accepted s)
     \<and> length (accepted s) \<le> unat (seqnum_cur (g_ses (tx s)))
     \<and> unat (seqnum_expect (g_ses (rx s))) = Suc (length (accepted s))"
  using gbn_reach_inv [OF assms] by (simp only: gbn_inv_def Let_def)

theorem gbn_window_safe_witness:
  "\<exists>s :: gbn_sys. seqnum_cur (g_ses (tx s)) = 1 \<and> set (accepted s) \<subseteq> sent_by (tx s)
     \<and> unat (seqnum_last (g_ses (tx s))) \<le> length (accepted s) \<and> length (accepted s) \<le> 1"
proof -
  obtain s where s: "gbn_reach (sample_net 1 2) (sample_net 2 1) s" "seqnum_cur (g_ses (tx s)) = 1"
    using sample_reach by blast
  from gbn_window_safe [OF s(1)] s(2)
  show ?thesis by - (rule exI [of _ s], simp)
qed



text \<open>C8. An acknowledgement is cumulative. One numbered at least the last acknowledged number is valid and
  becomes the last acknowledged number; it frees exactly the slots of the numbers it newly covers and
  leaves the other slots alone. A smaller one is rejected and changes nothing.\<close>

theorem gbn_ack_cumulative:
  assumes "handle_ack_nack_dequeue hdr ses = (ok, ses')"
  shows "(ok \<longleftrightarrow> seqnum_last ses \<le> seqnum hdr) \<and> (\<not> ok \<longrightarrow> ses' = ses)
     \<and> seqnum_last ses' = max (seqnum_last ses) (seqnum hdr) \<and> seqnum_cur ses' = seqnum_cur ses
     \<and> (\<forall>k < length (unack_buffer_info_ring ses). unack_buffer_info_ring ses' ! k =
          (if \<exists>j. seqnum_last ses \<le> j \<and> j < seqnum hdr \<and> unat j mod 256 = k
           then (unack_buffer_info_ring ses ! k)\<lparr>bi_flags := 0\<rparr> else unack_buffer_info_ring ses ! k))"
proof -
  have i: "index_to_unack_buffer_info j = unat j mod 256" for j
    by (simp add: index_to_unack_buffer_info_def NR_BUFFER_INFO_SLOTS_def unat_mod)
  have s: "ses' = snd (handle_ack_nack_dequeue hdr ses)" using assms by simp
  have "ok \<longleftrightarrow> seqnum_last ses \<le> seqnum hdr" "\<not> ok \<Longrightarrow> ses' = ses"
    using assms by (auto simp: handle_ack_nack_dequeue_def Let_def split: if_splits)
  moreover have "unack_buffer_info_ring ses' ! k =
          (if \<exists>j. seqnum_last ses \<le> j \<and> j < seqnum hdr \<and> unat j mod 256 = k
           then (unack_buffer_info_ring ses ! k)\<lparr>bi_flags := 0\<rparr> else unack_buffer_info_ring ses ! k)"
    if "k < length (unack_buffer_info_ring ses)" for k
    using free_unack_range_slot [OF that, of "seqnum_last ses" "seqnum hdr"]
    by (auto simp: s handle_ack_nack_dequeue_def Let_def i)
  ultimately show ?thesis by (simp add: s)
qed

theorem gbn_ack_cumulative_witness:
  "\<exists>ses'. handle_ack_nack_dequeue \<lparr>gbn_type = 1, seqnum = 3, session_id_bytes = [0, 0, 0]\<rparr> sample_gbn = (True, ses')
     \<and> seqnum_last ses' = 3"
proof -
  let ?h = "\<lparr>gbn_type = 1, seqnum = 3, session_id_bytes = [0, 0, 0]\<rparr>"
  obtain ok ses' where d: "handle_ack_nack_dequeue ?h sample_gbn = (ok, ses')" by (cases "handle_ack_nack_dequeue ?h sample_gbn")
  from gbn_ack_cumulative [OF this] d show ?thesis by (simp add: sample_gbn_def init_session_gbn_def max_def)
qed



text \<open>C30. The receive call hands a data packet to its caller whatever its sequence number: a repeated or
  out-of-order packet is delivered like the expected one, with the expected number unchanged.\<close>

theorem gbn_delivers_unexpected:
  assumes "gbn_type (p_gbn p) = GBN_PKT_DATA" "length (session_id_bytes (p_gbn p)) = 3"
    "\<not> test_management_session b" "seqnum (p_gbn p) \<noteq> seqnum_expect (g_ses e)"
  shows "\<exists>e'. gbn_receive wire_ops b True (arrive p n e) = Some (sint (ucast n :: u32), Some (p, n), e')
     \<and> seqnum_expect (g_ses e') = seqnum_expect (g_ses e)"
proof -
  obtain e' where e': "handle_data_packet wire_ops b p (inc_stat RX_DATA (drained e)) = Some e'"
    using handle_data_Some [OF assms(2)] by blast
  with handle_data_effect(1) [OF this assms(3)] assms(1,4) show ?thesis by (auto simp: receive_data)
qed

theorem gbn_delivers_unexpected_witness:
  "\<exists>e'. gbn_receive wire_ops (sample_net 2 1)
      True (arrive (empty_packet\<lparr>p_gbn := \<lparr>gbn_type = 3, seqnum = 7, session_id_bytes = [1, 8, 0]\<rparr>\<rparr>) 64 sample_env)
     = Some (64, Some (empty_packet\<lparr>p_gbn := \<lparr>gbn_type = 3, seqnum = 7, session_id_bytes = [1, 8, 0]\<rparr>\<rparr>, 64), e')"
proof -
  let ?p = "empty_packet\<lparr>p_gbn := \<lparr>gbn_type = 3, seqnum = 7, session_id_bytes = [1, 8, 0]\<rparr>\<rparr>"
  have "seqnum (p_gbn ?p) \<noteq> seqnum_expect (g_ses sample_env)"
    by (simp add: sample_env_def sample_gbn_def init_session_gbn_def)
  with gbn_delivers_unexpected [of ?p "sample_net 2 1" sample_env 64] show ?thesis
    by (auto simp: GBN_PKT_DATA_def)
qed

end
