(* ===== verification/Rpc.thy ===== *)
theory Rpc
  imports Net Lists
begin

text \<open>
  The RPC transport layer of the host, \<^verbatim>\<open>host/net/transport_rpc.c\<close>, the one the build selects, and
  the layer without a transport, \<^verbatim>\<open>host/net/transport_bypass.c\<close>.

  The congestion window code is compiled out, so what is left of the state is one reference-counted
  record per board. The records live in a store, threaded on a global list whose order the model
  keeps; a session holds the address of the record of its board. An allocation is an argument: the
  address it returns, or \<open>None\<close>.

  The lemmas show that the counts are the numbers of open sessions and that the last close of a
  board frees its record, and describe what a receive returns.
\<close>

record per_board_send_state =
  ps_board_ip :: u32
  send_credit :: int
  session_cnt :: int

record cc_states =
  per_board_states :: "ptr list"
  ps_heap :: "ptr \<rightharpoonup> per_board_send_state"

record session_rpc =
  send_state :: ptr
  ring_head :: u32
  ring_tail :: u32

definition default_credit_send :: int where "default_credit_send = 4096"

definition rpc_init_once :: "cc_states \<Rightarrow> int \<times> cc_states" where
  "rpc_init_once g = (0, g\<lparr>per_board_states := []\<rparr>)"

definition add_board_send_state :: "u32 \<Rightarrow> ptr option \<Rightarrow> cc_states \<Rightarrow> int \<times> ptr option \<times> cc_states" where
  "add_board_send_state ip mem g = (
     case mem of None \<Rightarrow> (- ENOMEM, None, g)
     | Some p \<Rightarrow>
       (0, Some p, g\<lparr>ps_heap := (ps_heap g)(p \<mapsto> \<lparr>ps_board_ip = ip, send_credit = default_credit_send, session_cnt = 0\<rparr>),
                     per_board_states := p # per_board_states g\<rparr>))"

text \<open>The search over the list; \<open>None\<close> inside is the end of the list.\<close>

fun find_send_state :: "u32 \<Rightarrow> ptr list \<Rightarrow> (ptr \<rightharpoonup> per_board_send_state) \<Rightarrow> ptr option option" where
  "find_send_state ip [] h = Some None"
| "find_send_state ip (p # ps) h = do {
     st \<leftarrow> h p; if ps_board_ip st = ip then Some (Some p) else find_send_state ip ps h }"

definition init_session_rpc ::
  "session_net \<Rightarrow> ptr option \<Rightarrow> cc_states \<Rightarrow> (int \<times> session_rpc option \<times> cc_states) option" where
  "init_session_rpc net mem g = do {
     found \<leftarrow> find_send_state (sn_board_ip net) (per_board_states g) (ps_heap g);
     let (ret, st, g) = (case found of Some p \<Rightarrow> (0, Some p, g)
                         | None \<Rightarrow> add_board_send_state (sn_board_ip net) mem g)
     in if ret \<noteq> 0 then Some (ret, None, g)
        else do {
          p \<leftarrow> st;
          s \<leftarrow> ps_heap g p;
          Some (0, Some \<lparr>send_state = p, ring_head = 0, ring_tail = 0\<rparr>,
                g\<lparr>ps_heap := (ps_heap g)(p \<mapsto> s\<lparr>session_cnt := session_cnt s + 1\<rparr>)\<rparr>) } }"

text \<open>
  \<open>ses_mem\<close>, \<open>buf_ok\<close> and \<open>mb_ok\<close> say whether the session, the buffer and its registration can be
  allocated. The result carries the private state of the session, \<open>None\<close> for a null pointer.
\<close>

definition rpc_open_session ::
  "session_net \<Rightarrow> bool \<Rightarrow> ptr option \<Rightarrow> bool \<Rightarrow> bool \<Rightarrow> cc_states
   \<Rightarrow> (int \<times> session_rpc option \<times> cc_states) option" where
  "rpc_open_session net ses_mem mem buf_ok mb_ok g = (
     if \<not> ses_mem then Some (- ENOMEM, None, g)
     else do {
       (ret, ses, g) \<leftarrow> init_session_rpc net mem g;
       if ret \<noteq> 0 then Some (ret, None, g)
       else if \<not> buf_ok then Some (- ENOMEM, None, g)
       else if \<not> mb_ok then Some (- ENOMEM, None, g)
       else Some (0, ses, g) })"

definition rpc_close_session :: "session_rpc option \<Rightarrow> cc_states \<Rightarrow> (int \<times> cc_states) option" where
  "rpc_close_session ses g = (
     case ses of None \<Rightarrow> Some (0, g)
     | Some ses_rpc \<Rightarrow>
       let p = send_state ses_rpc in
       if p = 0 then Some (0, g)
       else do {
         s \<leftarrow> ps_heap g p;
         let g = g\<lparr>ps_heap := (ps_heap g)(p \<mapsto> s\<lparr>session_cnt := session_cnt s - 1\<rparr>)\<rparr>
         in Some (0, if session_cnt s = 1
                     then g\<lparr>per_board_states := remove1 p (per_board_states g),
                            ps_heap := (ps_heap g)(p := None)\<rparr>
                     else g) })"

section \<open>Sending and receiving\<close>

definition prepare_legomem_header_for_rpc :: "u64 \<Rightarrow> u32 \<Rightarrow> u32 \<Rightarrow> lego_header \<Rightarrow> lego_header" where
  "prepare_legomem_header_for_rpc packet_size src dst p =
     p\<lparr>lh_size := ucast (packet_size - of_nat (LEGO_HEADER_OFFSET False)), src_sesid := ucast src, dst_sesid := ucast dst\<rparr>"

text \<open>The credit is never consumed in this build: the call that would returns 0.\<close>

definition consume_send_credit :: "ptr \<Rightarrow> int" where
  "consume_send_credit st = 0"

definition rpc_send_one ::
  "'w raw_net_ops \<Rightarrow> session_net \<Rightarrow> packet \<Rightarrow> u64 \<Rightarrow> packet option \<Rightarrow> session_rpc option \<Rightarrow> 'w
   \<Rightarrow> (int \<times> packet \<times> 'w) option" where
  "rpc_send_one ops net buf buf_size route ses w = (
     let buf = buf\<lparr>p_lego := prepare_legomem_header_for_rpc buf_size (session_id net) (remote_session_id net) (p_lego buf)\<rparr>
     in do {
       s \<leftarrow> ses;
       if \<not> test_management_session net \<and> consume_send_credit (send_state s) \<noteq> 0 then Some (- ETIMEDOUT, buf, w)
       else let (ret, w) = raw_send ops net (Some buf) buf_size route w in Some (ret, buf, w) })"

partial_function (option) rpc_receive ::
  "'w raw_net_ops \<Rightarrow> session_net \<Rightarrow> bool \<Rightarrow> 'w \<Rightarrow> (int \<times> (packet \<times> u64) option \<times> 'w) option" where
  "rpc_receive ops ses_net non_blocking w =
     (case raw_receive ops ses_net w of ((ret, pkt, sz), w) \<Rightarrow>
      if ret < 0 then Some (ret, None, w)
      else if ret = 0 then
        (if non_blocking then Some (0, None, w) else rpc_receive ops ses_net non_blocking w)
      else Some (sint (ucast sz :: u32), Some (pkt, sz), w))"

definition rpc_receive_one ::
  "'w raw_net_ops \<Rightarrow> session_net \<Rightarrow> 'w \<Rightarrow> (int \<times> (packet \<times> u64) option \<times> 'w) option" where
  "rpc_receive_one ops net w = rpc_receive ops net False w"

definition rpc_receive_one_nb ::
  "'w raw_net_ops \<Rightarrow> session_net \<Rightarrow> 'w \<Rightarrow> (int \<times> (packet \<times> u64) option \<times> 'w) option" where
  "rpc_receive_one_nb ops net w = rpc_receive ops net True w"

definition rpc_receive_one_zerocopy ::
  "'w raw_net_ops \<Rightarrow> session_net \<Rightarrow> 'w \<Rightarrow> (int \<times> (packet \<times> u64) option \<times> 'w) option" where
  "rpc_receive_one_zerocopy ops net w = rpc_receive ops net False w"

definition rpc_receive_one_zerocopy_nb ::
  "'w raw_net_ops \<Rightarrow> session_net \<Rightarrow> 'w \<Rightarrow> (int \<times> (packet \<times> u64) option \<times> 'w) option" where
  "rpc_receive_one_zerocopy_nb ops net w = rpc_receive ops net True w"

section \<open>The layer without a transport\<close>

definition bypass_send_one ::
  "'w raw_net_ops \<Rightarrow> session_net \<Rightarrow> packet \<Rightarrow> u64 \<Rightarrow> packet option \<Rightarrow> 'w \<Rightarrow> int \<times> 'w" where
  "bypass_send_one ops net buf buf_size route w = raw_send ops net (Some buf) buf_size route w"

definition bypass_receive_one_zerocopy ::
  "'w raw_net_ops \<Rightarrow> session_net \<Rightarrow> 'w \<Rightarrow> (int \<times> packet \<times> u64) \<times> 'w" where
  "bypass_receive_one_zerocopy ops net w = raw_receive ops net w"

section \<open>Reference counts\<close>

text \<open>
  \<open>os\<close> are the sessions that are open: every record of the list is that of a different board and
  counts the open sessions that hold it, at least one.
\<close>

abbreviation users :: "ptr \<Rightarrow> session_rpc list \<Rightarrow> nat" where
  "users p os \<equiv> length (filter (\<lambda>x. send_state x = p) os)"

definition rpc_inv :: "cc_states \<Rightarrow> session_rpc list \<Rightarrow> bool" where
  "rpc_inv g os \<longleftrightarrow> distinct (per_board_states g) \<and> 0 \<notin> set (per_board_states g)
     \<and> (\<forall>p \<in> set (per_board_states g). \<exists>s. ps_heap g p = Some s \<and> session_cnt s = int (users p os) \<and> users p os \<noteq> 0)
     \<and> (\<forall>x \<in> set os. send_state x \<in> set (per_board_states g))
     \<and> inj_on (\<lambda>p. map_option ps_board_ip (ps_heap g p)) (set (per_board_states g))"

lemma find_send_state_spec:
  "(\<forall>p \<in> set ps. h p \<noteq> None) \<Longrightarrow>
   \<exists>r. find_send_state ip ps h = Some r \<and>
     (case r of None \<Rightarrow> (\<forall>p \<in> set ps. map_option ps_board_ip (h p) \<noteq> Some ip)
      | Some p \<Rightarrow> p \<in> set ps \<and> map_option ps_board_ip (h p) = Some ip)"
  by (induction ps) (auto split: option.splits)

lemma rpc_open_ok:
  assumes "rpc_inv g os" "p \<notin> set (per_board_states g)" "p \<noteq> 0"
  shows "\<exists>x g'. rpc_open_session net True (Some p) True True g = Some (0, Some x, g') \<and> rpc_inv g' (x # os)
     \<and> map_option ps_board_ip (ps_heap g' (send_state x)) = Some (sn_board_ip net)"
proof -
  let ?ip = "sn_board_ip net"
  have d: "\<forall>q \<in> set (per_board_states g). ps_heap g q \<noteq> None" using assms(1) by (force simp: rpc_inv_def)
  from find_send_state_spec [OF d, of ?ip] obtain r where r: "find_send_state ?ip (per_board_states g) (ps_heap g) = Some r"
    "case r of None \<Rightarrow> (\<forall>p \<in> set (per_board_states g). map_option ps_board_ip (ps_heap g p) \<noteq> Some ?ip)
      | Some p \<Rightarrow> p \<in> set (per_board_states g) \<and> map_option ps_board_ip (ps_heap g p) = Some ?ip" by blast
  show ?thesis
  proof (cases r)
    case None
    let ?x = "\<lparr>send_state = p, ring_head = 0, ring_tail = 0\<rparr>"
    let ?h = "(ps_heap g)(p \<mapsto> \<lparr>ps_board_ip = ?ip, send_credit = default_credit_send, session_cnt = 1\<rparr>)"
    let ?g = "g\<lparr>ps_heap := ?h, per_board_states := p # per_board_states g\<rparr>"
    have u: "users p os = 0" using assms(1,2) by (auto simp: rpc_inv_def filter_empty_conv)
    have nf: "\<forall>y \<in> set (per_board_states g). map_option ps_board_ip (ps_heap g y) \<noteq> Some ?ip"
      using r(2) unfolding None by (simp only: option.case)
    have "rpc_open_session net True (Some p) True True g = Some (0, Some ?x, ?g)"
      using None r(1) by (simp add: rpc_open_session_def init_session_rpc_def add_board_send_state_def)
    moreover have "rpc_inv ?g (?x # os)" unfolding rpc_inv_def
    proof (intro conjI)
      have "Some ?ip \<notin> (\<lambda>q. map_option ps_board_ip (ps_heap g q)) ` set (per_board_states g)" using nf by force
      moreover have "(\<lambda>q. map_option ps_board_ip (?h q)) ` set (per_board_states g) =
        (\<lambda>q. map_option ps_board_ip (ps_heap g q)) ` set (per_board_states g)" using assms(2) by (intro image_cong) auto
      moreover have "inj_on (\<lambda>q. map_option ps_board_ip (?h q)) (set (per_board_states g))"
        using assms(1,2) by (subst inj_on_cong [of _ _ "\<lambda>q. map_option ps_board_ip (ps_heap g q)"]) (auto simp: rpc_inv_def)
      ultimately show "inj_on (\<lambda>q. map_option ps_board_ip (ps_heap ?g q)) (set (per_board_states ?g))" using assms(2) by simp
    qed (use assms u in \<open>auto simp: rpc_inv_def\<close>)
    ultimately show ?thesis by fastforce
  next
    case (Some q)
    then obtain s where s: "ps_heap g q = Some s" "q \<in> set (per_board_states g)" "ps_board_ip s = ?ip"
      "session_cnt s = int (users q os)"
      using r(2) assms(1) by (auto simp: rpc_inv_def)
    let ?x = "\<lparr>send_state = q, ring_head = 0, ring_tail = 0\<rparr>"
    let ?g = "g\<lparr>ps_heap := (ps_heap g)(q \<mapsto> s\<lparr>session_cnt := session_cnt s + 1\<rparr>)\<rparr>"
    have "rpc_open_session net True (Some p) True True g = Some (0, Some ?x, ?g)"
      using Some r(1) s by (simp add: rpc_open_session_def init_session_rpc_def)
    moreover have "rpc_inv ?g (?x # os)" unfolding rpc_inv_def
    proof (intro conjI)
      have "(\<lambda>p. map_option ps_board_ip (ps_heap ?g p)) = (\<lambda>p. map_option ps_board_ip (ps_heap g p))"
        using s(1) by auto
      then show "inj_on (\<lambda>p. map_option ps_board_ip (ps_heap ?g p)) (set (per_board_states ?g))"
        using assms(1) by (simp add: rpc_inv_def)
    qed (use assms s in \<open>auto simp: rpc_inv_def\<close>)
    ultimately show ?thesis using s(3) by fastforce
  qed
qed

lemma users_remove1: "x \<in> set os \<Longrightarrow> users p (remove1 x os) = (if send_state x = p then users p os - 1 else users p os)"
  by (auto simp: filter_remove1 length_remove1 remove1_idem)

lemma users_pos: "x \<in> set os \<Longrightarrow> users (send_state x) os \<noteq> 0"
  by (auto simp: filter_empty_conv)

lemma rpc_close_ok:
  assumes "rpc_inv g os" "x \<in> set os"
  shows "\<exists>g'. rpc_close_session (Some x) g = Some (0, g') \<and> rpc_inv g' (remove1 x os)"
proof -
  let ?p = "send_state x"
  have p: "?p \<in> set (per_board_states g)" using assms by (auto simp: rpc_inv_def)
  moreover have "?p \<noteq> 0" using p assms(1) by (metis rpc_inv_def)
  ultimately obtain s where s: "ps_heap g ?p = Some s" "session_cnt s = int (users ?p os)" "?p \<noteq> 0"
    using assms(1) by (force simp: rpc_inv_def)
  have d: "distinct (per_board_states g)" using assms(1) by (simp add: rpc_inv_def)
  show ?thesis
  proof (cases "users ?p os = 1")
    case True
    let ?g = "g\<lparr>ps_heap := (ps_heap g)(?p := None), per_board_states := remove1 ?p (per_board_states g)\<rparr>"
    have "rpc_close_session (Some x) g = Some (0, ?g)" using s True by (simp add: rpc_close_session_def Let_def)
    moreover have "\<forall>y \<in> set (remove1 x os). send_state y \<noteq> ?p"
      using users_remove1 [OF assms(2), of ?p] True by (auto simp: filter_empty_conv)
    then have ne: "\<forall>y \<in> set (remove1 x os). send_state y \<noteq> ?p" .
    have "rpc_inv ?g (remove1 x os)" unfolding rpc_inv_def
    proof (intro conjI)
      have "inj_on (\<lambda>q. map_option ps_board_ip (ps_heap g q)) (set (per_board_states g) - {?p})"
        using assms(1) by (auto simp: rpc_inv_def intro: inj_on_subset)
      then show "inj_on (\<lambda>q. map_option ps_board_ip (ps_heap ?g q)) (set (per_board_states ?g))"
        using d by (subst inj_on_cong [of _ _ "\<lambda>q. map_option ps_board_ip (ps_heap g q)"]) auto
      show "\<forall>q \<in> set (remove1 x os). send_state q \<in> set (per_board_states ?g)"
        using ne d assms(1) by (auto simp: rpc_inv_def dest: notin_set_remove1 set_remove1_subset [THEN subsetD])
    qed (use assms d in \<open>auto simp: rpc_inv_def users_remove1\<close>)
    ultimately show ?thesis by blast
  next
    case False
    let ?g = "g\<lparr>ps_heap := (ps_heap g)(?p \<mapsto> s\<lparr>session_cnt := session_cnt s - 1\<rparr>)\<rparr>"
    have u: "users ?p os > 1" using False users_pos [OF assms(2)] by linarith
    have "rpc_close_session (Some x) g = Some (0, ?g)" using s u by (simp add: rpc_close_session_def Let_def)
    moreover have "rpc_inv ?g (remove1 x os)" unfolding rpc_inv_def
    proof (intro conjI ballI)
      fix q assume "q \<in> set (per_board_states ?g)"
      then show "\<exists>s. ps_heap ?g q = Some s \<and> session_cnt s = int (users q (remove1 x os)) \<and> users q (remove1 x os) \<noteq> 0"
        using assms u s by (auto simp: rpc_inv_def users_remove1 simp del: length_0_conv)
    next
      have "(\<lambda>p. map_option ps_board_ip (ps_heap ?g p)) = (\<lambda>p. map_option ps_board_ip (ps_heap g p))"
        using s(1) by auto
      then show "inj_on (\<lambda>p. map_option ps_board_ip (ps_heap ?g p)) (set (per_board_states ?g))"
        using assms(1) by (simp add: rpc_inv_def)
    qed (use assms s in \<open>auto simp: rpc_inv_def dest: set_remove1_subset [THEN subsetD]\<close>)
    ultimately show ?thesis by blast
  qed
qed

lemma rpc_inv_empty: "rpc_inv g [] \<Longrightarrow> per_board_states g = []"
  by (cases "per_board_states g") (auto simp: rpc_inv_def)

inductive rpc_reach :: "cc_states \<Rightarrow> session_rpc list \<Rightarrow> bool" where
  init: "rpc_init_once g = (0, g') \<Longrightarrow> rpc_reach g' []"
| opened: "rpc_reach g os \<Longrightarrow> p \<notin> set (per_board_states g) \<Longrightarrow> p \<noteq> 0 \<Longrightarrow>
     rpc_open_session net True (Some p) True True g = Some (0, Some x, g') \<Longrightarrow> rpc_reach g' (x # os)"
| closed: "rpc_reach g os \<Longrightarrow> x \<in> set os \<Longrightarrow> rpc_close_session (Some x) g = Some (ret, g') \<Longrightarrow>
     rpc_reach g' (remove1 x os)"

lemma rpc_reach_inv: "rpc_reach g os \<Longrightarrow> rpc_inv g os"
proof (induction rule: rpc_reach.induct)
  case (init g g')
  then show ?case by (auto simp: rpc_init_once_def rpc_inv_def)
next
  case (opened g os p net x g')
  then show ?case using rpc_open_ok [of g os p net] by auto
next
  case (closed g os x ret g')
  then show ?case using rpc_close_ok [of g os x] by auto
qed

definition poll_world :: "'w raw_net_ops \<Rightarrow> session_net \<Rightarrow> 'w \<Rightarrow> 'w" where
  "poll_world ops net w = snd (raw_receive ops net w)"

lemma rpc_receive_polls:
  "(\<forall>i < n. fst (fst (raw_receive ops net ((poll_world ops net ^^ i) w))) = 0) \<Longrightarrow>
   raw_receive ops net ((poll_world ops net ^^ n) w) = ((ret, p, sz), w') \<Longrightarrow> 0 < ret \<Longrightarrow>
   rpc_receive ops net False w = Some (sint (ucast sz :: u32), Some (p, sz), w')"
proof (induction n arbitrary: w)
  case 0
  then show ?case by (subst rpc_receive.simps) simp
next
  case (Suc n)
  have "fst (fst (raw_receive ops net w)) = 0" using Suc.prems(1) by force
  moreover have "rpc_receive ops net False (poll_world ops net w) = Some (sint (ucast sz :: u32), Some (p, sz), w')"
  proof (rule Suc.IH)
    show "\<forall>i < n. fst (fst (raw_receive ops net ((poll_world ops net ^^ i) (poll_world ops net w)))) = 0"
      using Suc.prems(1) by (metis Suc_less_eq comp_apply funpow_Suc_right)
    show "raw_receive ops net ((poll_world ops net ^^ n) (poll_world ops net w)) = ((ret, p, sz), w')"
      using Suc.prems(2) by (simp only: funpow_Suc_right comp_apply)
  qed (rule Suc.prems(3))
  ultimately show ?case by (subst rpc_receive.simps) (auto simp: poll_world_def split: prod.splits)
qed

section \<open>Properties\<close>

definition sample_board_net :: "u32 \<Rightarrow> u32 \<Rightarrow> session_net" where
  "sample_board_net ip i = \<lparr>sn_board_ip = ip, sn_udp_port = 0, session_id = i, remote_session_id = 1, sn_flags = 0,
     sn_tid = 0, sn_local_ei = \<lparr>ei_mac = [], ei_ip_str = '''', ei_ip = 0, ei_udp_port = 0\<rparr>,
     sn_remote_ei = \<lparr>ei_mac = [], ei_ip_str = '''', ei_ip = 0, ei_udp_port = 0\<rparr>,
     sn_route = p_route empty_packet, outstanding_reads = 0, outstanding_writes = 0\<rparr>"



text \<open>C24. A blocking receive returns as soon as the raw layer has a packet, after any number of empty polls,
  and hands over that packet and its size.\<close>

theorem rpc_receive_returns:
  assumes "\<forall>i < n. fst (fst (raw_receive ops net ((poll_world ops net ^^ i) w))) = 0"
    "raw_receive ops net ((poll_world ops net ^^ n) w) = ((ret, p, sz), w')" "0 < ret"
  shows "rpc_receive_one ops net w = Some (sint (ucast sz :: u32), Some (p, sz), w')"
  using rpc_receive_polls [OF assms] by (simp add: rpc_receive_one_def)

theorem rpc_receive_returns_witness:
  "rpc_receive_one wire_ops (sample_board_net 7 1) \<lparr>w_sent = [], w_queue = [(empty_packet, 64)]\<rparr>
     = Some (64, Some (empty_packet, 64), \<lparr>w_sent = [], w_queue = []\<rparr>)"
  using rpc_receive_returns [of 0 wire_ops "sample_board_net 7 1" "\<lparr>w_sent = [], w_queue = [(empty_packet, 64)]\<rparr>"]
  by simp

text \<open>C31. The header of an RPC packet has one byte for the session id of the sender: the receiver reads back
  the id of the session exactly when it is below 256, although a node may have 1024 sessions.\<close>

theorem rpc_session_id_truncated:
  assumes "rpc_send_one ops net buf n route ses w = Some (ret, buf', w')"
  shows "ucast (src_sesid (p_lego buf')) = session_id net \<longleftrightarrow> session_id net < 256"
proof -
  have "src_sesid (p_lego buf') = ucast (session_id net)"
    using assms by (auto simp: rpc_send_one_def prepare_legomem_header_for_rpc_def Let_def split: Option.bind_splits if_splits prod.splits)
  moreover have "(ucast (ucast x :: u8) :: u32) = x \<longleftrightarrow> x < 256" for x :: u32
  proof -
    have "unat (ucast (ucast x :: u8) :: u32) = unat x mod 256" by (simp add: unsigned_ucast_eq take_bit_eq_mod unat_mod)
    then have "(ucast (ucast x :: u8) :: u32) = x \<longleftrightarrow> unat x mod 256 = unat x" by (simp add: word_unat_eq_iff)
    also have "\<dots> \<longleftrightarrow> unat x < 256" by (metis mod_less mod_less_divisor zero_less_numeral)
    finally show ?thesis by (simp add: word_less_nat_alt)
  qed
  ultimately show ?thesis by simp
qed

theorem rpc_session_id_truncated_witness:
  "\<exists>ret buf' w'. rpc_send_one wire_ops (sample_board_net 7 257) empty_packet 100 None
       (Some \<lparr>send_state = 5, ring_head = 0, ring_tail = 0\<rparr>) \<lparr>w_sent = [], w_queue = []\<rparr> = Some (ret, buf', w')
     \<and> ucast (src_sesid (p_lego buf')) \<noteq> (257 :: u32)"
proof -
  obtain ret buf' w' where s: "rpc_send_one wire_ops (sample_board_net 7 257) empty_packet 100 None
       (Some \<lparr>send_state = 5, ring_head = 0, ring_tail = 0\<rparr>) \<lparr>w_sent = [], w_queue = []\<rparr> = Some (ret, buf', w')"
    by (simp add: rpc_send_one_def consume_send_credit_def Let_def)
  from rpc_session_id_truncated [OF s] s show ?thesis by (auto simp: sample_board_net_def)
qed

text \<open>C32. When the buffer of a new session cannot be allocated, the open fails and yet the record of the board
  has counted the session: the count exceeds the number of open sessions by one from then on.\<close>

theorem rpc_failed_open_leaks:
  assumes "rpc_inv g os" "p \<in> set (per_board_states g)" "ps_heap g p = Some s" "ps_board_ip s = sn_board_ip net"
  shows "\<exists>g'. rpc_open_session net True mem False mb g = Some (- ENOMEM, None, g')
     \<and> (\<exists>s'. ps_heap g' p = Some s' \<and> session_cnt s' = int (users p os) + 1)"
proof -
  have d: "\<forall>q \<in> set (per_board_states g). ps_heap g q \<noteq> None" using assms(1) by (force simp: rpc_inv_def)
  obtain r where r: "find_send_state (sn_board_ip net) (per_board_states g) (ps_heap g) = Some r"
    "case r of None \<Rightarrow> (\<forall>p \<in> set (per_board_states g). map_option ps_board_ip (ps_heap g p) \<noteq> Some (sn_board_ip net))
      | Some q \<Rightarrow> q \<in> set (per_board_states g) \<and> map_option ps_board_ip (ps_heap g q) = Some (sn_board_ip net)"
    using find_send_state_spec [OF d, of "sn_board_ip net"] by blast
  have "r = Some p"
  proof (cases r)
    case None
    then show ?thesis using r(2) assms(2-4) by auto
  next
    case (Some q)
    then have "q \<in> set (per_board_states g)" "map_option ps_board_ip (ps_heap g q) = map_option ps_board_ip (ps_heap g p)"
      using r(2) assms(3,4) by auto
    then have "q = p" using assms(1,2) by (auto simp: rpc_inv_def dest: inj_onD)
    then show ?thesis using Some by simp
  qed
  moreover have "session_cnt s = int (users p os)" using assms(1-3) by (auto simp: rpc_inv_def)
  ultimately show ?thesis using r(1) assms(3) by (auto simp: rpc_open_session_def init_session_rpc_def)
qed

theorem rpc_failed_open_leaks_witness:
  "\<exists>g'. rpc_open_session (sample_board_net 7 2) True None False True
      \<lparr>per_board_states = [5], ps_heap = [5 \<mapsto> \<lparr>ps_board_ip = 7, send_credit = 4096, session_cnt = 1\<rparr>]\<rparr> = Some (- ENOMEM, None, g')
     \<and> (\<exists>s'. ps_heap g' 5 = Some s' \<and> session_cnt s' = 2)"
proof -
  let ?g = "\<lparr>per_board_states = [5], ps_heap = [5 \<mapsto> \<lparr>ps_board_ip = 7, send_credit = 4096, session_cnt = 1\<rparr>]\<rparr>"
  have "rpc_inv ?g [\<lparr>send_state = 5, ring_head = 0, ring_tail = 0\<rparr>]" by (simp add: rpc_inv_def)
  from rpc_failed_open_leaks [OF this, of 5 _ "sample_board_net 7 2" None True] show ?thesis
    by (simp add: sample_board_net_def)
qed

end
