(* ===== verification/Hashtable.thy ===== *)
theory Hashtable
  imports Lists
begin

text \<open>
  The chained hash tables of \<^verbatim>\<open>include/uapi/hashtable.h\<close> with the multiplicative hash of
  \<^verbatim>\<open>include/uapi/hash.h\<close>.

  A table is the list of its buckets, each the list of the nodes in it. The first part shows that
  this is what the chains of \<open>Lists\<close> hold: adding to a bucket and deleting a node refine the list
  operations. The second part is the contract the clients use, as a locale: objects live in a store,
  a table holds their addresses, an object hashes with its key, and a query searches the bucket of
  its own key for a match. Each client of the code gives an interpretation.
\<close>

section \<open>Hash functions\<close>

definition GOLDEN_RATIO_32 :: u32 where "GOLDEN_RATIO_32 = 0x61C88647"
definition GOLDEN_RATIO_64 :: u64 where "GOLDEN_RATIO_64 = 0x61C8864680B583EB"

definition c_hash_32_generic :: "u32 \<Rightarrow> u32" where
  "c_hash_32_generic val = val * GOLDEN_RATIO_32"

definition hash_32_generic :: "u32 \<Rightarrow> nat \<Rightarrow> u32" where
  "hash_32_generic val bits = drop_bit (32 - bits) (c_hash_32_generic val)"

definition hash_64_generic :: "u64 \<Rightarrow> nat \<Rightarrow> u32" where
  "hash_64_generic val bits = ucast (drop_bit (64 - bits) (val * GOLDEN_RATIO_64))"

definition hash_ptr :: "u64 \<Rightarrow> nat \<Rightarrow> u32" where
  "hash_ptr p bits = hash_64_generic p bits"

definition hash32_ptr :: "u64 \<Rightarrow> u32" where
  "hash32_ptr p = ucast (p XOR drop_bit 32 p)"

text \<open>Every key in the code has at most four bytes, so \<^verbatim>\<open>hash_min\<close> is the 32-bit hash.\<close>

definition hash_min :: "u32 \<Rightarrow> nat \<Rightarrow> nat" where
  "hash_min val bits = unat (hash_32_generic val bits)"

section \<open>Tables\<close>

type_synonym hashtable = "ptr list list"

definition hash_init :: "nat \<Rightarrow> hashtable" where
  "hash_init sz = replicate sz []"

definition hash_add :: "nat \<Rightarrow> ptr \<Rightarrow> u32 \<Rightarrow> hashtable \<Rightarrow> hashtable" where
  "hash_add bits node key ht = ht[hash_min key bits := node # ht ! hash_min key bits]"

text \<open>Deleting unlinks the node from whatever chain it is on.\<close>

definition hash_del :: "ptr \<Rightarrow> hashtable \<Rightarrow> hashtable" where
  "hash_del node ht = map (remove1 node) ht"

definition hash_hashed :: "ptr \<Rightarrow> hashtable \<Rightarrow> bool" where
  "hash_hashed node ht \<longleftrightarrow> node \<in> set (concat ht)"

definition c_hash_empty :: "hashtable \<Rightarrow> bool" where
  "c_hash_empty ht \<longleftrightarrow> list_all (\<lambda>b. b = []) ht"

definition hash_for_each :: "hashtable \<Rightarrow> ptr list" where
  "hash_for_each ht = concat ht"

definition hash_for_each_possible :: "nat \<Rightarrow> u32 \<Rightarrow> hashtable \<Rightarrow> ptr list" where
  "hash_for_each_possible bits key ht = ht ! hash_min key bits"

lemma hash_min_less: "bits \<le> 32 \<Longrightarrow> hash_min key bits < 2 ^ bits"
proof -
  assume b: "bits \<le> 32"
  have "unat (drop_bit (32 - bits) x) < 2 ^ bits" for x :: u32
  proof -
    have "unat x < 2 ^ 32" using unsigned_less [of x, where ?'a = nat] by simp
    also have "(2 :: nat) ^ 32 = 2 ^ bits * 2 ^ (32 - bits)" using b by (simp add: power_add [symmetric])
    finally have "unat x div 2 ^ (32 - bits) < 2 ^ bits" by (simp add: less_mult_imp_div_less)
    moreover have "unat (drop_bit (32 - bits) x) = unat x div 2 ^ (32 - bits)" by (rule unat_drop_bit)
    ultimately show ?thesis by simp
  qed
  then show ?thesis by (simp add: hash_min_def hash_32_generic_def)
qed

section \<open>Tables as chains of nodes\<close>

text \<open>
  \<open>htable h base ht\<close>: bucket \<open>i\<close> of the table has its head at \<open>base i\<close> and the chain that hangs off
  it holds the nodes \<open>ht ! i\<close>; a node is on one chain only.
\<close>

definition htable :: "hheap \<Rightarrow> (nat \<Rightarrow> ptr) \<Rightarrow> hashtable \<Rightarrow> bool" where
  "htable h base ht \<longleftrightarrow> inj_on base {..<length ht} \<and> (\<forall>i < length ht. hlist h (base i) (ht ! i))
     \<and> (\<forall>i < length ht. \<forall>j < length ht. i \<noteq> j \<longrightarrow> set (ht ! i) \<inter> set (ht ! j) = {})"

lemma htable_update:
  assumes "htable h base ht" "i < length ht" "honly {base i} A h h'" "hlist h' (base i) b"
    "\<And>j. j < length ht \<Longrightarrow> j \<noteq> i \<Longrightarrow> set (ht ! j) \<inter> A = {} \<and> set (ht ! j) \<inter> set b = {}"
  shows "htable h' base (ht[i := b])"
  unfolding htable_def
proof (intro conjI allI impI)
  show "inj_on base {..<length (ht[i := b])}" using assms(1) by (simp add: htable_def)
  fix j assume j: "j < length (ht[i := b])"
  show "hlist h' (base j) (ht[i := b] ! j)"
  proof (cases "j = i")
    case True
    then show ?thesis using assms(2,4) by simp
  next
    case False
    have "base j \<notin> {base i}" using False j assms(1,2) by (auto simp: htable_def dest: inj_onD)
    moreover have "hlist h (base j) (ht ! j)" using j assms(1) by (simp add: htable_def)
    ultimately show ?thesis using False j assms(5) [of j] hlist_frame [OF _ assms(3)] by simp
  qed
  fix k assume k: "k < length (ht[i := b])" "j \<noteq> k"
  then show "set (ht[i := b] ! j) \<inter> set (ht[i := b] ! k) = {}"
    using j assms(1,2) assms(5) [of j] assms(5) [of k]
    by (cases "j = i"; cases "k = i") (auto simp: htable_def)
qed

lemma hash_add_refines_lists:
  assumes "htable h base ht" "length ht = 2 ^ bits" "bits \<le> 32" "hh_node h n \<noteq> None" "n \<noteq> 0" "n \<notin> set (concat ht)"
  shows "\<exists>h'. hlist_add_head n (base (hash_min key bits)) h = Some h' \<and> htable h' base (hash_add bits n key ht)"
proof -
  let ?i = "hash_min key bits"
  have i: "?i < length ht" using assms(2,3) hash_min_less by simp
  then have n: "n \<notin> set (ht ! ?i)" using assms(6) by (auto dest: nth_mem)
  have "hlist h (base ?i) (ht ! ?i)" using assms(1) i by (simp add: htable_def)
  from hlist_add_head_hlist [OF this assms(4,5) n] obtain h' where h':
    "hlist_add_head n (base ?i) h = Some h'" "hlist h' (base ?i) (n # ht ! ?i)" "honly {base ?i} (set (n # ht ! ?i)) h h'" by blast
  have "htable h' base (ht[?i := n # ht ! ?i])"
  proof (rule htable_update [OF assms(1) i h'(3,2)])
    fix j assume "j < length ht" "j \<noteq> ?i"
    then show "set (ht ! j) \<inter> set (n # ht ! ?i) = {} \<and> set (ht ! j) \<inter> set (n # ht ! ?i) = {}"
      using assms(1,6) i by (auto simp: htable_def dest: nth_mem)
  qed
  with h'(1) show ?thesis by (auto simp: hash_add_def)
qed

lemma map_remove1_one:
  assumes "i < length ht" "\<And>j. j < length ht \<Longrightarrow> j \<noteq> i \<Longrightarrow> n \<notin> set (ht ! j)"
  shows "map (remove1 n) ht = ht[i := remove1 n (ht ! i)]"
  using assms by (intro nth_equalityI) (auto simp: nth_list_update remove1_idem)

lemma hash_del_refines_lists:
  assumes "htable h base ht" "n \<in> set (concat ht)"
  shows "\<exists>h'. hlist_del_init n h = Some h' \<and> htable h' base (hash_del n ht) \<and> hlist_unhashed n h' = Some True"
proof -
  from assms(2) obtain i where i: "i < length ht" "n \<in> set (ht ! i)" by (auto simp only: in_concat_nth)
  then obtain xs ys where b: "ht ! i = xs @ n # ys" by (meson split_list)
  have hl: "hlist h (base i) (xs @ n # ys)" using assms(1) i(1) b by (metis htable_def)
  then have nx: "n \<notin> set xs" by (simp add: hlist_def)
  from hlist_del_init_hlist [OF hl] obtain h' where h': "hlist_del_init n h = Some h'" "hlist h' (base i) (xs @ ys)"
    "hlist_unhashed n h' = Some True" "honly {base i} (set (xs @ n # ys)) h h'" by blast
  have d: "set (ht ! j) \<inter> set (xs @ n # ys) = {}" if "j < length ht" "j \<noteq> i" for j
    using that assms(1) i(1) b by (metis htable_def)
  have "htable h' base (ht[i := xs @ ys])"
    by (rule htable_update [OF assms(1) i(1) h'(4,2)]) (use d in auto)
  moreover have "hash_del n ht = ht[i := xs @ ys]"
    unfolding hash_del_def using map_remove1_one [OF i(1), of n] d nx b by (auto simp: remove1_append)
  ultimately show ?thesis using h' by auto
qed

section \<open>Objects in a table\<close>

text \<open>The search of a client through a bucket: the address of the first object that fits.\<close>

fun ht_search :: "(ptr \<rightharpoonup> 'o) \<Rightarrow> ('o \<Rightarrow> bool) \<Rightarrow> ptr list \<Rightarrow> ptr option option" where
  "ht_search objs P [] = Some None"
| "ht_search objs P (p # ps) = do {
     x \<leftarrow> objs p; if P x then Some (Some p) else ht_search objs P ps }"

lemma ht_search_spec:
  "(\<forall>p \<in> set ps. objs p \<noteq> None) \<Longrightarrow>
   \<exists>r. ht_search objs P ps = Some r \<and> (case r of
       None \<Rightarrow> (\<forall>p \<in> set ps. \<forall>x. objs p = Some x \<longrightarrow> \<not> P x)
     | Some p \<Rightarrow> p \<in> set ps \<and> (\<exists>x. objs p = Some x \<and> P x))"
  by (induction ps) (auto split: option.splits)

locale hashed_objects =
  fixes bits :: nat
    and hkey :: "'o \<Rightarrow> u32"
    and qkey :: "'q \<Rightarrow> u32"
    and fits :: "'q \<Rightarrow> 'o \<Rightarrow> bool"
  assumes bits: "bits \<le> 32"
    and fits_key: "fits q x \<Longrightarrow> hkey x = qkey q"
begin

definition table_ok :: "hashtable \<Rightarrow> (ptr \<rightharpoonup> 'o) \<Rightarrow> bool" where
  "table_ok ht objs \<longleftrightarrow> 2 ^ bits \<le> length ht \<and> (\<forall>i < length ht. distinct (ht ! i) \<and>
     (\<forall>p \<in> set (ht ! i). \<exists>x. objs p = Some x \<and> hash_min (hkey x) bits = i))"

abbreviation find_obj :: "'q \<Rightarrow> hashtable \<Rightarrow> (ptr \<rightharpoonup> 'o) \<Rightarrow> ptr option option" where
  "find_obj q ht objs \<equiv> ht_search objs (fits q) (hash_for_each_possible bits (qkey q) ht)"

lemma idx: "hash_min k bits < 2 ^ bits"
  by (rule hash_min_less [OF bits])

lemma in_range: "table_ok ht objs \<Longrightarrow> hash_min k bits < length ht"
  using idx [of k] by (simp add: table_ok_def)

lemma table_ok_init: "2 ^ bits \<le> n \<Longrightarrow> table_ok (hash_init n) objs"
  by (simp add: table_ok_def hash_init_def)

lemma in_table:
  assumes "table_ok ht objs"
  shows "p \<in> set (concat ht) \<longleftrightarrow> (\<exists>x. objs p = Some x \<and> p \<in> set (ht ! hash_min (hkey x) bits))"
proof
  assume "p \<in> set (concat ht)"
  then obtain i where "i < length ht" "p \<in> set (ht ! i)" by (auto simp only: in_concat_nth)
  then show "\<exists>x. objs p = Some x \<and> p \<in> set (ht ! hash_min (hkey x) bits)" using assms by (auto simp: table_ok_def)
next
  assume "\<exists>x. objs p = Some x \<and> p \<in> set (ht ! hash_min (hkey x) bits)"
  then obtain x where "p \<in> set (ht ! hash_min (hkey x) bits)" by blast
  moreover have "hash_min (hkey x) bits < length ht" by (rule in_range [OF assms])
  ultimately show "p \<in> set (concat ht)" by auto
qed

lemma table_ok_add:
  assumes "table_ok ht objs" "objs n = Some x" "n \<notin> set (concat ht)"
  shows "table_ok (hash_add bits n (hkey x) ht) objs"
    "set (concat (hash_add bits n (hkey x) ht)) = insert n (set (concat ht))"
proof -
  let ?i = "hash_min (hkey x) bits"
  have i: "?i < length ht" by (rule in_range [OF assms(1)])
  then have "n \<notin> set (ht ! ?i)" using assms(3) by (auto dest: nth_mem)
  then show "table_ok (hash_add bits n (hkey x) ht) objs"
    using assms(1,2) i by (auto simp: table_ok_def hash_add_def nth_list_update)
  show "set (concat (hash_add bits n (hkey x) ht)) = insert n (set (concat ht))"
  proof (rule set_eqI)
    fix p
    have "(\<exists>j < length ht. p \<in> set (ht[?i := n # ht ! ?i] ! j)) \<longleftrightarrow> p = n \<or> (\<exists>j < length ht. p \<in> set (ht ! j))"
      using i by (auto simp: nth_list_update split: if_splits)
    then show "p \<in> set (concat (hash_add bits n (hkey x) ht)) \<longleftrightarrow> p \<in> insert n (set (concat ht))"
      unfolding in_concat_nth insert_iff by (simp add: hash_add_def in_concat_nth)
  qed
qed

lemma table_ok_del:
  assumes "table_ok ht objs"
  shows "table_ok (hash_del n ht) objs" "set (concat (hash_del n ht)) = set (concat ht) - {n}"
proof -
  show "table_ok (hash_del n ht) objs"
    using assms by (auto simp: table_ok_def hash_del_def dest: set_remove1_subset [THEN subsetD])
  have "distinct (ht ! i)" if "i < length ht" for i using assms that by (simp add: table_ok_def)
  then have "(\<exists>i < length ht. p \<in> set (map (remove1 n) ht ! i)) \<longleftrightarrow> (\<exists>i < length ht. p \<in> set (ht ! i)) \<and> p \<noteq> n" for p
    by auto
  then show "set (concat (hash_del n ht)) = set (concat ht) - {n}"
    by (intro set_eqI) (simp add: hash_del_def in_concat_nth del: set_concat)
qed

lemma table_ok_update:
  assumes "table_ok ht objs" "objs p = Some x" "hkey x' = hkey x"
  shows "table_ok ht (objs(p \<mapsto> x'))"
  using assms by (fastforce simp: table_ok_def)

lemma table_ok_other: "table_ok ht objs \<Longrightarrow> p \<notin> set (concat ht) \<Longrightarrow> table_ok ht (objs(p := v))"
  unfolding table_ok_def in_concat_nth by (auto simp: fun_upd_def)

text \<open>A search looks at one bucket and yet misses nothing.\<close>

lemma find_obj_spec:
  assumes "table_ok ht objs"
  shows "\<exists>r. find_obj q ht objs = Some r \<and> (case r of
      None \<Rightarrow> (\<forall>p \<in> set (concat ht). \<forall>x. objs p = Some x \<longrightarrow> \<not> fits q x)
    | Some p \<Rightarrow> p \<in> set (concat ht) \<and> (\<exists>x. objs p = Some x \<and> fits q x))"
proof -
  let ?b = "ht ! hash_min (qkey q) bits"
  have i: "hash_min (qkey q) bits < length ht" by (rule in_range [OF assms])
  then have "\<forall>p \<in> set ?b. objs p \<noteq> None" using assms by (fastforce simp: table_ok_def)
  from ht_search_spec [OF this, of "fits q"] obtain r where r: "ht_search objs (fits q) ?b = Some r"
    "case r of None \<Rightarrow> (\<forall>p \<in> set ?b. \<forall>x. objs p = Some x \<longrightarrow> \<not> fits q x)
     | Some p \<Rightarrow> p \<in> set ?b \<and> (\<exists>x. objs p = Some x \<and> fits q x)" by blast
  show ?thesis
  proof (cases r)
    case None
    have "\<not> fits q x" if "p \<in> set (concat ht)" "objs p = Some x" for p x
    proof
      assume "fits q x"
      then have "hkey x = qkey q" by (rule fits_key)
      then have "p \<in> set ?b" using that in_table [OF assms, of p] by auto
      with None r(2) that(2) \<open>fits q x\<close> show False by auto
    qed
    then show ?thesis using None r(1) by (auto simp: hash_for_each_possible_def)
  next
    case (Some p)
    then have "p \<in> set (concat ht)" using r(2) i by (auto simp: in_concat_nth simp del: set_concat)
    then show ?thesis using Some r by (auto simp: hash_for_each_possible_def)
  qed
qed

lemma find_obj_added:
  assumes "table_ok ht objs" "objs n = Some x" "fits q x"
  shows "find_obj q (hash_add bits n (hkey x) ht) objs = Some (Some n)"
proof -
  have "hash_min (qkey q) bits < length ht" by (rule in_range [OF assms(1)])
  then show ?thesis using assms(2,3) by (simp add: hash_for_each_possible_def hash_add_def fits_key [OF assms(3)])
qed

text \<open>When at most one object of the table fits a query, the search returns it, and nothing after its
  removal.\<close>

lemma find_obj_unique:
  assumes "table_ok ht objs" "p \<in> set (concat ht)" "objs p = Some x" "fits q x"
    "\<And>p' x'. p' \<in> set (concat ht) \<Longrightarrow> objs p' = Some x' \<Longrightarrow> fits q x' \<Longrightarrow> p' = p"
  shows "find_obj q ht objs = Some (Some p)" "find_obj q (hash_del p ht) objs = Some None"
proof -
  obtain r where r: "find_obj q ht objs = Some r" "case r of
      None \<Rightarrow> (\<forall>p \<in> set (concat ht). \<forall>x. objs p = Some x \<longrightarrow> \<not> fits q x)
    | Some p \<Rightarrow> p \<in> set (concat ht) \<and> (\<exists>x. objs p = Some x \<and> fits q x)"
    using find_obj_spec [OF assms(1), of q] by blast
  have "r = Some p"
  proof (cases r)
    case None
    have "\<not> fits q x" using r(2) assms(2,3) unfolding None option.case by blast
    with assms(4) show ?thesis by simp
  next
    case (Some p')
    then show ?thesis using r(2) assms(5) [of p'] unfolding Some option.case by blast
  qed
  with r(1) show "find_obj q ht objs = Some (Some p)" by simp
  obtain r' where r': "find_obj q (hash_del p ht) objs = Some r'" "case r' of
      None \<Rightarrow> (\<forall>p \<in> set (concat ht) - {p}. \<forall>x. objs p = Some x \<longrightarrow> \<not> fits q x)
    | Some p' \<Rightarrow> p' \<in> set (concat ht) - {p} \<and> (\<exists>x. objs p' = Some x \<and> fits q x)"
    using find_obj_spec [OF table_ok_del(1) [OF assms(1), of p], of q] unfolding table_ok_del(2) [OF assms(1)]
    by blast
  have "r' = None"
  proof (cases r')
    case (Some p')
    then show ?thesis using r'(2) assms(5) [of p'] unfolding Some option.case by blast
  qed simp
  with r'(1) show "find_obj q (hash_del p ht) objs = Some None" by simp
qed

end

section \<open>Properties\<close>

text \<open>C10. The pointer operations implement the table of buckets: adding a fresh node links it into the chain of
  its hash and deleting a node of the table unlinks it from whichever chain it is on; both return, and
  the chains then hold exactly the buckets the abstract operation gives.\<close>

theorem hash_add_del_refine:
  assumes "htable h base ht" "length ht = 2 ^ bits" "bits \<le> 32"
  shows "(hh_node h n \<noteq> None \<and> n \<noteq> 0 \<and> n \<notin> set (concat ht) \<longrightarrow>
       (\<exists>h'. hlist_add_head n (base (hash_min key bits)) h = Some h' \<and> htable h' base (hash_add bits n key ht)))
     \<and> (n \<in> set (concat ht) \<longrightarrow>
       (\<exists>h'. hlist_del_init n h = Some h' \<and> htable h' base (hash_del n ht) \<and> hlist_unhashed n h' = Some True))"
  using hash_add_refines_lists [OF assms] hash_del_refines_lists [OF assms(1)] by blast

theorem hash_add_del_refine_witness:
  "\<exists>h'. hlist_add_head 8 (1 + hash_min 3 1)
      \<lparr>hh_first = [1 \<mapsto> 0, 2 \<mapsto> 0], hh_node = [8 \<mapsto> \<lparr>hn_next = 0, hn_pprev = None\<rparr>]\<rparr> = Some h'
     \<and> htable h' (\<lambda>i. 1 + i) (hash_add 1 8 3 [[], []])"
proof -
  let ?h = "\<lparr>hh_first = [1 \<mapsto> 0, 2 \<mapsto> 0], hh_node = [8 \<mapsto> \<lparr>hn_next = 0, hn_pprev = None\<rparr>]\<rparr>"
  have "htable ?h (\<lambda>i. 1 + i) [[], []]"
    by (auto simp: htable_def hlist_def hload.simps less_Suc_eq)
  from hash_add_del_refine [OF this, of 1 8 3] show ?thesis by simp
qed

end
