(* ===== verification/Idpool.thy ===== *)
theory Idpool
  imports Bitops
begin

text \<open>
  Allocation of small ids from a bitmap, a pattern of five places of the code: look for a clear bit
  with \<open>find_next_zero_bit\<close>, give up when there is none, set the bit; test and clear it to free.

  The locale \<open>id_pool\<close> is what the callers rely on. Session ids of the board and of the host, board
  ids and the two ranges of process ids interpret it.
\<close>

section \<open>The pattern\<close>

text \<open>\<open>Some (None, m)\<close> says that no id is left.\<close>

definition claim_bit :: "nat \<Rightarrow> nat \<Rightarrow> bitmap \<Rightarrow> (nat option \<times> bitmap) option" where
  "claim_bit n start m = do {
     b \<leftarrow> find_next_zero_bit m n start;
     if n \<le> b then Some (None, m) else do { m \<leftarrow> c_set_bit b m; Some (Some b, m) } }"

lemma claim_bit_spec:
  assumes "BITS_TO_LONGS n \<le> length m"
  shows "\<exists>r m'. claim_bit n start m = Some (r, m') \<and> length m' = length m \<and> (case r of
      None \<Rightarrow> m' = m \<and> (\<forall>i. start \<le> i \<and> i < n \<longrightarrow> bm_bit m i)
    | Some b \<Rightarrow> start \<le> b \<and> b < n \<and> \<not> bm_bit m b \<and> m' = bm_insert b m \<and> (\<forall>i. start \<le> i \<and> i < b \<longrightarrow> bm_bit m i))"
proof -
  let ?b = "first_from (\<lambda>i. \<not> bm_bit m i) start n"
  have f: "find_next_zero_bit m n start = Some ?b" by (rule find_next_zero_bit_first [OF assms])
  show ?thesis
  proof (cases "?b < n")
    case True
    then have "c_set_bit ?b m = Some (bm_insert ?b m)"
      using BITS_TO_LONGS_bound [OF assms] by (intro single_bit_ops) simp
    then show ?thesis using True f first_from_less [OF True] first_from_none_before [of start _ "\<lambda>i. \<not> bm_bit m i" n]
      by (auto simp: claim_bit_def)
  next
    case False
    then have n: "?b = n" using first_from_le [of "\<lambda>i. \<not> bm_bit m i" start n] by simp
    then have "\<forall>i. start \<le> i \<and> i < n \<longrightarrow> bm_bit m i" by (simp add: first_from_eq_n)
    moreover have "claim_bit n start m = Some (None, m)" using f n by (simp add: claim_bit_def)
    ultimately show ?thesis by simp
  qed
qed

section \<open>The contract\<close>

primrec alloc_many :: "('s \<Rightarrow> (nat option \<times> 's) option) \<Rightarrow> nat \<Rightarrow> 's \<Rightarrow> (nat list \<times> 's) option" where
  "alloc_many alloc 0 s = Some ([], s)"
| "alloc_many alloc (Suc n) s = do {
     (r, s) \<leftarrow> alloc s;
     i \<leftarrow> r;
     (ids, s) \<leftarrow> alloc_many alloc n s;
     Some (i # ids, s) }"

locale id_pool =
  fixes pool_inv :: "'s \<Rightarrow> bool"
    and used :: "'s \<Rightarrow> nat set"
    and ids :: "nat set"
    and freeable :: "nat \<Rightarrow> bool"
    and alloc :: "'s \<Rightarrow> (nat option \<times> 's) option"
    and release :: "nat \<Rightarrow> 's \<Rightarrow> 's option"
  assumes fin: "finite ids"
    and alloc_law: "pool_inv s \<Longrightarrow> \<exists>r s'. alloc s = Some (r, s') \<and> pool_inv s' \<and> (case r of
        None \<Rightarrow> s' = s \<and> ids \<subseteq> used s
      | Some i \<Rightarrow> i \<in> ids \<and> i \<notin> used s \<and> used s' = insert i (used s))"
    and release_law: "pool_inv s \<Longrightarrow> i \<in> used s \<Longrightarrow> freeable i \<Longrightarrow>
       \<exists>s'. release i s = Some s' \<and> pool_inv s' \<and> used s' = used s - {i}"
begin

lemma alloc_Some:
  assumes "pool_inv s" "\<not> ids \<subseteq> used s"
  shows "\<exists>i s'. alloc s = Some (Some i, s') \<and> pool_inv s' \<and> i \<in> ids \<and> i \<notin> used s \<and> used s' = insert i (used s)"
proof -
  obtain r s' where r: "alloc s = Some (r, s')" "pool_inv s'" "case r of
        None \<Rightarrow> s' = s \<and> ids \<subseteq> used s
      | Some i \<Rightarrow> i \<in> ids \<and> i \<notin> used s \<and> used s' = insert i (used s)" using alloc_law [OF assms(1)] by blast
  with assms(2) show ?thesis by (cases r) auto
qed

lemma alloc_None: "pool_inv s \<Longrightarrow> ids \<subseteq> used s \<Longrightarrow> alloc s = Some (None, s)"
proof -
  assume a: "pool_inv s" "ids \<subseteq> used s"
  obtain r s' where "alloc s = Some (r, s')" "case r of
        None \<Rightarrow> s' = s \<and> ids \<subseteq> used s
      | Some i \<Rightarrow> i \<in> ids \<and> i \<notin> used s \<and> used s' = insert i (used s)" using alloc_law [OF a(1)] by blast
  with a(2) show ?thesis by (cases r) auto
qed

text \<open>As many allocations as there are free ids succeed, with different ids.\<close>

lemma alloc_many_distinct:
  "pool_inv s \<Longrightarrow> n \<le> card (ids - used s) \<Longrightarrow>
   \<exists>xs s'. alloc_many alloc n s = Some (xs, s') \<and> length xs = n \<and> distinct xs \<and> set xs \<subseteq> ids - used s
     \<and> used s' = used s \<union> set xs \<and> pool_inv s'"
proof (induction n arbitrary: s)
  case (Suc n)
  then have "\<not> ids \<subseteq> used s" by (metis Diff_eq_empty_iff card.empty not_less_eq_eq zero_le)
  then obtain i s1 where i: "alloc s = Some (Some i, s1)" "pool_inv s1" "i \<in> ids" "i \<notin> used s" "used s1 = insert i (used s)"
    using alloc_Some [OF Suc.prems(1)] by blast
  have "ids - used s1 = (ids - used s) - {i}" using i(5) by auto
  then have "n \<le> card (ids - used s1)" using Suc.prems(2) i(3,4) fin by simp
  then obtain xs s' where "alloc_many alloc n s1 = Some (xs, s')" "length xs = n" "distinct xs" "set xs \<subseteq> ids - used s1"
    "used s' = used s1 \<union> set xs" "pool_inv s'" using Suc.IH [OF i(2)] by blast
  with i show ?case by (intro exI [of _ "i # xs"] exI [of _ s']) auto
qed simp

text \<open>Taking all the free ids exhausts the pool.\<close>

lemma alloc_all:
  assumes "pool_inv s"
  shows "\<exists>xs s'. alloc_many alloc (card (ids - used s)) s = Some (xs, s') \<and> distinct xs \<and> set xs = ids - used s
     \<and> pool_inv s' \<and> alloc s' = Some (None, s')"
proof -
  obtain xs s' where x: "alloc_many alloc (card (ids - used s)) s = Some (xs, s')" "length xs = card (ids - used s)"
    "distinct xs" "set xs \<subseteq> ids - used s" "used s' = used s \<union> set xs" "pool_inv s'"
    using alloc_many_distinct [OF assms order_refl] by blast
  have "set xs = ids - used s"
    using x(2-4) fin by (intro card_subset_eq) (auto simp: distinct_card)
  with x show ?thesis using alloc_None [of s'] by auto
qed

text \<open>A freed id makes the next allocation succeed.\<close>

lemma alloc_after_release:
  assumes "pool_inv s" "i \<in> used s" "i \<in> ids" "freeable i"
  shows "\<exists>s' j s''. release i s = Some s' \<and> alloc s' = Some (Some j, s'') \<and> (j = i \<or> j \<notin> used s)"
proof -
  obtain s' where s': "release i s = Some s'" "pool_inv s'" "used s' = used s - {i}" using release_law assms by blast
  then show ?thesis using alloc_Some [of s'] assms(3) by auto
qed

end

end
