(* ===== verification/Session.thy ===== *)
theory Session
  imports Net Idpool
begin

text \<open>
  The tables of network sessions: \<^verbatim>\<open>board/soc/core/session.c\<close>, \<^verbatim>\<open>host/session.c\<close> and the
  open and close of \<^verbatim>\<open>host/net/core.c\<close>.

  A table is the array of sessions and the bitmap of the ids in use; a session is named by its index.
  The two files differ in the first id they give out and in what the free takes. The invariant says
  that a bit is set exactly when the session is flagged as allocated, which is what the lookup
  trusts.
\<close>

definition NR_MAX_SESSIONS_PER_NODE :: nat where "NR_MAX_SESSIONS_PER_NODE = 1024"
definition SESSION_NET_FLAGS_ALLOCATED :: u64 where "SESSION_NET_FLAGS_ALLOCATED = 0x1"
definition SESSION_NET_FLAGS_THREAD_CREATED :: u64 where "SESSION_NET_FLAGS_THREAD_CREATED = 0x2"

record session_table =
  session_net_map :: "session_net list"
  session_id_map :: bitmap

definition zero_session :: session_net where
  "zero_session =
     (let ei = \<lparr>ei_mac = replicate 6 0, ei_ip_str = '''', ei_ip = 0, ei_udp_port = 0\<rparr> in
      \<lparr>sn_board_ip = 0, sn_udp_port = 0, session_id = 0, remote_session_id = 0, sn_flags = 0, sn_tid = 0,
       sn_local_ei = ei, sn_remote_ei = ei, sn_route = p_route empty_packet,
       outstanding_reads = 0, outstanding_writes = 0\<rparr>)"

definition init_session_net :: "session_net \<Rightarrow> session_net" where
  "init_session_net p = zero_session"

definition empty_session_table :: session_table where
  "empty_session_table = \<lparr>session_net_map = replicate 1024 zero_session, session_id_map = replicate 16 0\<rparr>"

definition find_net_session :: "u32 \<Rightarrow> session_table \<Rightarrow> nat option" where
  "find_net_session sid t =
     (if NR_MAX_SESSIONS_PER_NODE \<le> unat sid then None
      else if sn_flags (session_net_map t ! unat sid) AND SESSION_NET_FLAGS_ALLOCATED = 0 then None
      else Some (unat sid))"

text \<open>The part the two allocators share: they differ in where the search for a free id starts.\<close>

definition alloc_session_from :: "nat \<Rightarrow> session_table \<Rightarrow> (nat option \<times> session_table) option" where
  "alloc_session_from start t = do {
     (b, m) \<leftarrow> claim_bit NR_MAX_SESSIONS_PER_NODE start (session_id_map t);
     case b of None \<Rightarrow> Some (None, t)
     | Some sid \<Rightarrow>
       let ses = init_session_net (session_net_map t ! sid);
           ses = set_local_session_id ses (of_nat sid);
           ses = ses\<lparr>sn_flags := sn_flags ses OR SESSION_NET_FLAGS_ALLOCATED\<rparr>
       in Some (Some sid, t\<lparr>session_id_map := m, session_net_map := (session_net_map t)[sid := ses]\<rparr>) }"

definition soc_alloc_session :: "session_table \<Rightarrow> (nat option \<times> session_table) option" where
  "soc_alloc_session t = alloc_session_from (unat LEGOMEM_MGMT_SESSION_ID + 1) t"

definition host_alloc_session :: "session_table \<Rightarrow> (nat option \<times> session_table) option" where
  "host_alloc_session t = alloc_session_from 0 t"

definition clear_session :: "nat \<Rightarrow> session_table \<Rightarrow> session_table option" where
  "clear_session sid t = do {
     (was_set, m) \<leftarrow> c_test_and_clear_bit sid (session_id_map t);
     Some (t\<lparr>session_id_map := m,
             session_net_map := (session_net_map t)[sid := (session_net_map t ! sid)\<lparr>sn_flags := 0\<rparr>]\<rparr>) }"

definition free_session_by_id :: "u32 \<Rightarrow> session_table \<Rightarrow> session_table option" where
  "free_session_by_id sid t =
     (if NR_MAX_SESSIONS_PER_NODE \<le> unat sid then Some t
      else if sid = LEGOMEM_MGMT_SESSION_ID then Some t
      else clear_session (unat sid) t)"

text \<open>The host is given a pointer into the array; the index is its distance from the start.\<close>

definition free_session :: "nat \<Rightarrow> session_table \<Rightarrow> session_table option" where
  "free_session sid t =
     (if NR_MAX_SESSIONS_PER_NODE \<le> sid then Some t
      else if sid = unat LEGOMEM_MGMT_SESSION_ID then Some t
      else clear_session sid t)"

section \<open>Opening and closing through both layers (net/core.c)\<close>

text \<open>
  The open and close of the two layers are arguments. A layer keeps what it hangs on the session
  (\<^verbatim>\<open>raw_net_private\<close>, \<^verbatim>\<open>transport_private\<close>) in a world \<open>'w\<close> of its own; an open returns a code, 0
  for success. A failure undoes what was done before it.
\<close>

record 'w layer_ops =
  ly_init_once :: "endpoint_info \<Rightarrow> 'w \<Rightarrow> int \<times> 'w"
  ly_exit :: "'w \<Rightarrow> 'w"
  ly_open :: "session_net \<Rightarrow> endpoint_info \<Rightarrow> endpoint_info \<Rightarrow> 'w \<Rightarrow> int \<times> 'w"
  ly_close :: "session_net \<Rightarrow> 'w \<Rightarrow> 'w"

definition fill_session :: "endpoint_info \<Rightarrow> endpoint_info \<Rightarrow> session_net \<Rightarrow> session_net" where
  "fill_session local_ei remote_ei ses =
     ses\<lparr>sn_route := prepare_routing_info local_ei remote_ei (sn_route ses),
         sn_local_ei := local_ei, sn_remote_ei := remote_ei\<rparr>"

lemma fill_session_simps [simp]:
  "session_id (fill_session l r s) = session_id s" "sn_flags (fill_session l r s) = sn_flags s"
  "sn_local_ei (fill_session l r s) = l" "sn_remote_ei (fill_session l r s) = r"
  by (simp_all add: fill_session_def)

definition net_open_session ::
  "'w layer_ops \<Rightarrow> 'w layer_ops \<Rightarrow> endpoint_info \<Rightarrow> endpoint_info \<Rightarrow> session_table \<Rightarrow> 'w
   \<Rightarrow> (nat option \<times> session_table \<times> 'w) option" where
  "net_open_session raw tran local_ei remote_ei t w = do {
     (r, t) \<leftarrow> host_alloc_session t;
     case r of None \<Rightarrow> Some (None, t, w)
     | Some i \<Rightarrow>
       let ses = session_net_map t ! i;
           (ret, w) = ly_open raw ses local_ei remote_ei w in
       if ret \<noteq> 0 then do { t \<leftarrow> free_session i t; Some (None, t, w) }
       else
         let (ret, w) = ly_open tran ses local_ei remote_ei w in
         if ret \<noteq> 0 then
           let w = ly_close raw ses w in
           do { t \<leftarrow> free_session i t; Some (None, t, w) }
         else
           Some (Some i, t\<lparr>session_net_map := (session_net_map t)[i := fill_session local_ei remote_ei ses]\<rparr>, w) }"

definition net_close_session ::
  "'w layer_ops \<Rightarrow> 'w layer_ops \<Rightarrow> nat \<Rightarrow> session_table \<Rightarrow> 'w \<Rightarrow> (int \<times> session_table \<times> 'w) option" where
  "net_close_session raw tran i t w = (
     let ses = session_net_map t ! i;
         w = ly_close tran ses w;
         w = ly_close raw ses w
     in do { t \<leftarrow> free_session i t; Some (0, t, w) })"

definition init_net :: "'w layer_ops \<Rightarrow> 'w layer_ops \<Rightarrow> endpoint_info \<Rightarrow> 'w \<Rightarrow> int \<times> 'w" where
  "init_net raw tran local_ei w = (
     let (ret, w) = ly_init_once raw local_ei w in
     if ret \<noteq> 0 then (ret, w)
     else let (ret, w) = ly_init_once tran local_ei w in
       if ret \<noteq> 0 then (ret, ly_exit raw w) else (0, w))"

section \<open>The invariant and the pools\<close>

text \<open>
  \<open>session_used\<close> is what a lookup finds. The other clause ties the id stored in a session to its
  index.
\<close>

definition session_used :: "session_table \<Rightarrow> nat set" where
  "session_used t = {i. i < 1024 \<and> sn_flags (session_net_map t ! i) AND SESSION_NET_FLAGS_ALLOCATED \<noteq> 0}"

definition session_inv :: "session_table \<Rightarrow> bool" where
  "session_inv t \<longleftrightarrow> length (session_net_map t) = 1024 \<and> length (session_id_map t) = 16
     \<and> (\<forall>i < 1024. bm_bit (session_id_map t) i \<longleftrightarrow> i \<in> session_used t)
     \<and> (\<forall>i \<in> session_used t. session_id (session_net_map t ! i) = of_nat i)"

lemma find_net_session_used: "find_net_session sid t = (if unat sid \<in> session_used t then Some (unat sid) else None)"
  by (auto simp: find_net_session_def session_used_def NR_MAX_SESSIONS_PER_NODE_def)

lemma session_inv_empty: "session_inv empty_session_table" and session_used_empty: "session_used empty_session_table = {}"
proof -
  show u: "session_used empty_session_table = {}"
    by (auto simp: session_used_def empty_session_table_def zero_session_def Let_def)
  show "session_inv empty_session_table"
    unfolding session_inv_def u by (simp add: empty_session_table_def bm_bit_def)
qed

lemma alloc_session_from_spec:
  assumes "session_inv t"
  shows "\<exists>r t'. alloc_session_from start t = Some (r, t') \<and> session_inv t' \<and> (case r of
      None \<Rightarrow> t' = t \<and> {start..<1024} \<subseteq> session_used t
    | Some i \<Rightarrow> i \<in> {start..<1024} \<and> i \<notin> session_used t \<and> session_used t' = insert i (session_used t)
        \<and> session_net_map t' ! i = zero_session\<lparr>session_id := of_nat i, sn_flags := SESSION_NET_FLAGS_ALLOCATED\<rparr>
        \<and> (\<forall>j. j \<noteq> i \<longrightarrow> session_net_map t' ! j = session_net_map t ! j))"
proof -
  have l: "BITS_TO_LONGS 1024 \<le> length (session_id_map t)" using assms by (simp add: session_inv_def BITS_TO_LONGS_def DIV_ROUND_UP_def)
  obtain r m' where r: "claim_bit 1024 start (session_id_map t) = Some (r, m')" "length m' = length (session_id_map t)"
    "case r of None \<Rightarrow> m' = session_id_map t \<and> (\<forall>i. start \<le> i \<and> i < 1024 \<longrightarrow> bm_bit (session_id_map t) i)
    | Some b \<Rightarrow> start \<le> b \<and> b < 1024 \<and> \<not> bm_bit (session_id_map t) b \<and> m' = bm_insert b (session_id_map t)
        \<and> (\<forall>i. start \<le> i \<and> i < b \<longrightarrow> bm_bit (session_id_map t) i)"
    using claim_bit_spec [OF l, of start] by blast
  show ?thesis
  proof (cases r)
    case None
    then show ?thesis using r assms
      by (auto simp: alloc_session_from_def NR_MAX_SESSIONS_PER_NODE_def session_inv_def)
  next
    case (Some b)
    let ?ses = "zero_session\<lparr>session_id := of_nat b, sn_flags := SESSION_NET_FLAGS_ALLOCATED\<rparr>"
    let ?t = "t\<lparr>session_id_map := m', session_net_map := (session_net_map t)[b := ?ses]\<rparr>"
    have b: "start \<le> b" "b < 1024" "\<not> bm_bit (session_id_map t) b" "m' = bm_insert b (session_id_map t)" using r Some by auto
    have a: "alloc_session_from start t = Some (Some b, ?t)"
      using r(1) Some by (simp add: alloc_session_from_def NR_MAX_SESSIONS_PER_NODE_def init_session_net_def
          set_local_session_id_def Let_def zero_session_def)
    have u: "session_used ?t = insert b (session_used t)"
      using b(2) assms by (auto simp: session_used_def session_inv_def nth_list_update SESSION_NET_FLAGS_ALLOCATED_def)
    have "b \<notin> session_used t" using b(2,3) assms by (simp add: session_inv_def)
    moreover have "session_inv ?t"
      using b assms r(2) unfolding session_inv_def u
      by (auto simp: bm_bit_insert nth_list_update session_used_def)
    ultimately show ?thesis using a u b assms by (auto simp: session_inv_def)
  qed
qed

lemma clear_session_spec:
  assumes "session_inv t" "i < 1024"
  shows "\<exists>t'. clear_session i t = Some t' \<and> session_inv t' \<and> session_used t' = session_used t - {i}"
proof -
  have "c_test_and_clear_bit i (session_id_map t) = Some (bm_bit (session_id_map t) i, bm_delete i (session_id_map t))"
    using assms by (intro single_bit_ops) (simp add: session_inv_def)
  then have c: "clear_session i t = Some (t\<lparr>session_id_map := bm_delete i (session_id_map t),
             session_net_map := (session_net_map t)[i := (session_net_map t ! i)\<lparr>sn_flags := 0\<rparr>]\<rparr>)" (is "_ = Some ?t")
    by (simp add: clear_session_def)
  have u: "session_used ?t = session_used t - {i}"
    using assms by (auto simp: session_used_def session_inv_def nth_list_update)
  have "session_inv ?t"
    using assms unfolding session_inv_def u
    by (auto simp: bm_bit_delete nth_list_update session_used_def)
  with c u show ?thesis by blast
qed

section \<open>The pools of ids\<close>

definition soc_free_session :: "nat \<Rightarrow> session_table \<Rightarrow> session_table option" where
  "soc_free_session i t = free_session_by_id (of_nat i) t"

lemma soc_free_session_eq: "i < 1024 \<Longrightarrow> soc_free_session i t = free_session i t"
  by (auto simp: soc_free_session_def free_session_by_id_def free_session_def NR_MAX_SESSIONS_PER_NODE_def
      LEGOMEM_MGMT_SESSION_ID_def unat_of_nat take_bit_nat_eq_self word_of_nat_eq_0_iff
      dest: dvd_imp_le)

lemma free_session_spec:
  assumes "session_inv t"
  shows "\<exists>t'. free_session i t = Some t' \<and> session_inv t'
    \<and> session_used t' = (if i = 0 then session_used t else session_used t - {i})"
  using clear_session_spec [OF assms, of i] assms
  by (cases "i < 1024") (auto simp: free_session_def NR_MAX_SESSIONS_PER_NODE_def LEGOMEM_MGMT_SESSION_ID_def session_used_def)

lemma session_pool_law:
  assumes "session_inv t"
  shows "\<exists>r t'. alloc_session_from start t = Some (r, t') \<and> session_inv t' \<and> (case r of
      None \<Rightarrow> t' = t \<and> {start..<1024} \<subseteq> session_used t
    | Some i \<Rightarrow> i \<in> {start..<1024} \<and> i \<notin> session_used t \<and> session_used t' = insert i (session_used t))"
proof -
  obtain r t' where r: "alloc_session_from start t = Some (r, t')" "session_inv t'" "case r of
      None \<Rightarrow> t' = t \<and> {start..<1024} \<subseteq> session_used t
    | Some i \<Rightarrow> i \<in> {start..<1024} \<and> i \<notin> session_used t \<and> session_used t' = insert i (session_used t)
        \<and> session_net_map t' ! i = zero_session\<lparr>session_id := of_nat i, sn_flags := SESSION_NET_FLAGS_ALLOCATED\<rparr>
        \<and> (\<forall>j. j \<noteq> i \<longrightarrow> session_net_map t' ! j = session_net_map t ! j)"
    using alloc_session_from_spec [OF assms, of start] by blast
  then show ?thesis by (cases r) auto
qed

interpretation host_ses: id_pool session_inv session_used "{0..<1024}" "\<lambda>i. i \<noteq> 0" host_alloc_session free_session
proof
  show "finite {0..<1024 :: nat}" by simp
next
  fix t assume "session_inv t"
  from session_pool_law [OF this, of 0] show "\<exists>r s'. host_alloc_session t = Some (r, s') \<and> session_inv s' \<and> (case r of
        None \<Rightarrow> s' = t \<and> {0..<1024} \<subseteq> session_used t
      | Some i \<Rightarrow> i \<in> {0..<1024} \<and> i \<notin> session_used t \<and> session_used s' = insert i (session_used t))"
    by (simp add: host_alloc_session_def)
next
  fix t i assume "session_inv t" "(i :: nat) \<noteq> 0"
  then show "\<exists>s'. free_session i t = Some s' \<and> session_inv s' \<and> session_used s' = session_used t - {i}"
    using free_session_spec [of t i] by simp
qed

interpretation soc_ses: id_pool session_inv session_used "{1..<1024}" "\<lambda>i. i \<noteq> 0" soc_alloc_session soc_free_session
proof
  show "finite {1..<1024 :: nat}" by simp
next
  fix t assume "session_inv t"
  from session_pool_law [OF this, of 1] show "\<exists>r s'. soc_alloc_session t = Some (r, s') \<and> session_inv s' \<and> (case r of
        None \<Rightarrow> s' = t \<and> {1..<1024} \<subseteq> session_used t
      | Some i \<Rightarrow> i \<in> {1..<1024} \<and> i \<notin> session_used t \<and> session_used s' = insert i (session_used t))"
    by (simp add: soc_alloc_session_def LEGOMEM_MGMT_SESSION_ID_def)
next
  fix t i assume a: "session_inv t" "(i :: nat) \<in> session_used t" "i \<noteq> 0"
  then have "i < 1024" by (simp add: session_used_def)
  then show "\<exists>s'. soc_free_session i t = Some s' \<and> session_inv s' \<and> session_used s' = session_used t - {i}"
    using free_session_spec [of t i] a by (simp add: soc_free_session_eq)
qed

section \<open>Properties\<close>

text \<open>C16. On the board, starting from the empty table, exactly 1023 sessions can be opened: they get
  the ids 1 to 1023, each once, and the next request is refused. The id 0 of the management session
  is never given out.\<close>

lemma soc_sessions_exhaust:
  "\<exists>ids t. alloc_many soc_alloc_session 1023 empty_session_table = Some (ids, t)
     \<and> distinct ids \<and> set ids = {1..<1024} \<and> soc_alloc_session t = Some (None, t)"
  using soc_ses.alloc_all [OF session_inv_empty] by (auto simp: session_used_empty)

text \<open>What an open and a close do, given the two results of the layers.\<close>

lemma net_open_session_cases:
  assumes "session_inv t"
  shows "(\<exists>w'. net_open_session raw tran lei rei t w = Some (None, t, w'))
    \<or> (\<exists>i t0 t' w' r. i < 1024 \<and> i \<notin> session_used t \<and> session_inv t0 \<and> session_used t0 = insert i (session_used t)
         \<and> net_open_session raw tran lei rei t w = Some (r, t', w')
         \<and> (r = None \<and> free_session i t0 = Some t'
            \<or> r = Some i \<and> t' = t0\<lparr>session_net_map := (session_net_map t0)[i := fill_session lei rei (session_net_map t0 ! i)]\<rparr>))"
proof -
  obtain r0 t0 where r0: "host_alloc_session t = Some (r0, t0)" "session_inv t0" "case r0 of
      None \<Rightarrow> t0 = t \<and> {0..<1024} \<subseteq> session_used t
    | Some i \<Rightarrow> i \<in> {0..<1024} \<and> i \<notin> session_used t \<and> session_used t0 = insert i (session_used t)"
    using session_pool_law [OF assms, of 0] unfolding host_alloc_session_def by blast
  show ?thesis
  proof (cases r0)
    case None
    then show ?thesis using r0 by (auto simp: net_open_session_def)
  next
    case (Some i)
    obtain t1 where "free_session i t0 = Some t1" using free_session_spec [OF r0(2)] by blast
    then have "\<exists>r t' w'. net_open_session raw tran lei rei t w = Some (r, t', w') \<and> (r = None \<and> free_session i t0 = Some t'
            \<or> r = Some i \<and> t' = t0\<lparr>session_net_map := (session_net_map t0)[i := fill_session lei rei (session_net_map t0 ! i)]\<rparr>)"
      using r0(1) Some by (simp add: net_open_session_def Let_def case_prod_beta)
    moreover have "i < 1024 \<and> i \<notin> session_used t \<and> session_used t0 = insert i (session_used t)" using Some r0(3) by simp
    ultimately show ?thesis using r0(2) by (intro disjI2) blast
  qed
qed

lemma session_update_inv:
  assumes "session_inv t" "i < 1024" "session_id s = session_id (session_net_map t ! i)" "sn_flags s = sn_flags (session_net_map t ! i)"
  shows "session_inv (t\<lparr>session_net_map := (session_net_map t)[i := s]\<rparr>)"
    and "session_used (t\<lparr>session_net_map := (session_net_map t)[i := s]\<rparr>) = session_used t"
proof -
  have len: "length (session_net_map t) = 1024" using assms(1) by (simp add: session_inv_def)
  show u: "session_used (t\<lparr>session_net_map := (session_net_map t)[i := s]\<rparr>) = session_used t"
    using assms(2,4) len by (auto simp: session_used_def nth_list_update)
  show "session_inv (t\<lparr>session_net_map := (session_net_map t)[i := s]\<rparr>)"
    using assms(1-3) unfolding session_inv_def u by (auto simp: nth_list_update)
qed



end
