(* ===== verification/Sched.thy ===== *)
theory Sched
  imports Net Hashtable
begin

text \<open>
  The structures of \<^verbatim>\<open>include/uapi/sched.h\<close> that the board, the monitor and the hosts share: board
  descriptions with their open sessions, virtual regions with their free list, and processes with
  their reference counts; then the two process tables, of \<^verbatim>\<open>board/soc/core/sched.c\<close> and of the monitor
  in \<^verbatim>\<open>host/main_monitor.c\<close>.

  The locale \<open>refcounted_procs\<close> is the contract of a process table: what its own \<^verbatim>\<open>free_proc\<close> has to do
  for the counting to be right. Both tables interpret it, and both therefore refine a map from
  process ids to counts.
\<close>

section \<open>Boards\<close>

definition NR_HT_BOARD_SESSIONS_BITS :: nat where "NR_HT_BOARD_SESSIONS_BITS = 3"
definition NR_HT_BOARD_SESSIONS :: nat where "NR_HT_BOARD_SESSIONS = 2 ^ NR_HT_BOARD_SESSIONS_BITS"
definition NR_STAT_TYPES :: nat where "NR_STAT_TYPES = 26"
definition BOARD_NAME_LEN :: nat where "BOARD_NAME_LEN = 64"
definition PROC_NAME_LEN :: nat where "PROC_NAME_LEN = 64"

definition BOARD_INFO_FLAGS_BOARD :: u64 where "BOARD_INFO_FLAGS_BOARD = 0x1"
definition BOARD_INFO_FLAGS_HOST :: u64 where "BOARD_INFO_FLAGS_HOST = 0x2"
definition BOARD_INFO_FLAGS_MONITOR :: u64 where "BOARD_INFO_FLAGS_MONITOR = 0x4"
definition BOARD_INFO_FLAGS_DUMMY :: u64 where "BOARD_INFO_FLAGS_DUMMY = 0x8"
definition BOARD_INFO_FLAGS_LOCALHOST :: u64 where "BOARD_INFO_FLAGS_LOCALHOST = 0x10"
definition BOARD_INFO_FLAGS_BITS_MASK :: u64 where "BOARD_INFO_FLAGS_BITS_MASK = 0x1f"
definition BOARD_INFO_FLAGS_ALLOCATED :: u64 where "BOARD_INFO_FLAGS_ALLOCATED = 0x20"
definition ANY_BOARD :: u32 where "ANY_BOARD = 0xFFFFFFFF"
definition ANY_NODE :: u32 where "ANY_NODE = ANY_BOARD - 1"

record board_info =
  board_id :: int
  bi_name :: string
  bi_ip :: u32
  bi_port :: u32
  bi_flags :: u64
  bi_local_ei :: endpoint_info
  bi_remote_ei :: endpoint_info
  mgmt_session :: "ptr option"
  bi_ht_sessions :: hashtable
  mem_total :: u64
  mem_avail :: u64
  bi_stat :: "u64 list option"

definition special_board_info_type :: "u64 \<Rightarrow> bool" where
  "special_board_info_type type = (
     let type = type AND BOARD_INFO_FLAGS_BITS_MASK in
     if type = BOARD_INFO_FLAGS_MONITOR \<or> type = BOARD_INFO_FLAGS_DUMMY \<or> type = BOARD_INFO_FLAGS_LOCALHOST
     then True else False)"

definition board_info_type_str :: "u64 \<Rightarrow> string" where
  "board_info_type_str type = (
     let type = type AND BOARD_INFO_FLAGS_BITS_MASK in
     if type = BOARD_INFO_FLAGS_BOARD then ''board''
     else if type = BOARD_INFO_FLAGS_HOST then ''host''
     else if type = BOARD_INFO_FLAGS_MONITOR then ''monitor''
     else if type = BOARD_INFO_FLAGS_DUMMY then ''dummy''
     else if type = BOARD_INFO_FLAGS_LOCALHOST then ''localhost''
     else ''unknown'')"

definition get_board_mgmt_session :: "board_info \<Rightarrow> ptr option" where
  "get_board_mgmt_session bi = mgmt_session bi"

definition set_board_mgmt_session :: "board_info \<Rightarrow> ptr option \<Rightarrow> board_info" where
  "set_board_mgmt_session bi ses = bi\<lparr>mgmt_session := ses\<rparr>"

text \<open>\<open>stat_ok\<close>: whether the allocation of the counters succeeds.\<close>

definition init_board_info :: "bool \<Rightarrow> board_info \<Rightarrow> int \<times> board_info" where
  "init_board_info stat_ok bi = (
     let bi = bi\<lparr>bi_ht_sessions := hash_init NR_HT_BOARD_SESSIONS\<rparr> in
     if \<not> stat_ok then (- ENOMEM, bi\<lparr>bi_stat := None\<rparr>)
     else (0, bi\<lparr>bi_stat := Some (replicate NR_STAT_TYPES 0)\<rparr>))"

text \<open>The sessions of a board; \<open>ss\<close> are the sessions the pointers lead to.\<close>

definition board_add_session :: "board_info \<Rightarrow> ptr \<Rightarrow> (ptr \<rightharpoonup> session_net) \<Rightarrow> (int \<times> board_info) option" where
  "board_add_session p ses ss = do {
     x \<leftarrow> ss ses;
     Some (0, p\<lparr>bi_ht_sessions := hash_add NR_HT_BOARD_SESSIONS_BITS ses (session_id x) (bi_ht_sessions p)\<rparr>) }"

definition board_find_session :: "board_info \<Rightarrow> u32 \<Rightarrow> (ptr \<rightharpoonup> session_net) \<Rightarrow> ptr option option" where
  "board_find_session p sid ss =
     ht_search ss (\<lambda>s. session_id s = sid) (hash_for_each_possible NR_HT_BOARD_SESSIONS_BITS sid (bi_ht_sessions p))"

definition board_remove_session :: "board_info \<Rightarrow> ptr \<Rightarrow> (ptr \<rightharpoonup> session_net) \<Rightarrow> (int \<times> board_info) option" where
  "board_remove_session p ses ss = do {
     x \<leftarrow> ss ses;
     r \<leftarrow> ht_search ss (\<lambda>s. session_id s = session_id x)
            (hash_for_each_possible NR_HT_BOARD_SESSIONS_BITS (session_id x) (bi_ht_sessions p));
     case r of None \<Rightarrow> Some (- 1, p)
     | Some _ \<Rightarrow> Some (0, p\<lparr>bi_ht_sessions := hash_del ses (bi_ht_sessions p)\<rparr>) }"

interpretation board_ses: hashed_objects NR_HT_BOARD_SESSIONS_BITS session_id id "\<lambda>sid s. session_id s = sid"
  by unfold_locales (simp_all add: NR_HT_BOARD_SESSIONS_BITS_def)

section \<open>Virtual regions and processes\<close>

definition VREGION_SIZE_SHIFT :: nat where "VREGION_SIZE_SHIFT = 30"
definition VIRTUAL_ADDR_SHIFT :: nat where "VIRTUAL_ADDR_SHIFT = 50"
definition VREGION_SIZE :: u64 where "VREGION_SIZE = 2 ^ 30"
definition NR_VREGIONS :: nat where "NR_VREGIONS = 2 ^ 20"

definition VREGION_INFO_FLAG_ALLOCATED :: u32 where "VREGION_INFO_FLAG_ALLOCATED = 0x1"
definition VREGION_INFO_FLAG_UNMAPPED_AREA_TOPDOWN :: u32 where "VREGION_INFO_FLAG_UNMAPPED_AREA_TOPDOWN = 0x2"

text \<open>\<open>vi_mmap\<close> and \<open>mm_rb\<close> are the heads of the list and of the tree of the areas; 0 is the null
  pointer.\<close>

record vregion_info =
  vi_flags :: u32
  vi_board_ip :: u32
  vi_udp_port :: u32
  vi_mmap :: u64
  mm_rb :: u64
  vi_nr_vmas :: int
  highest_vm_end :: u64

text \<open>A process. A region is named by its index in the array, and \<open>free_list\<close> is the list of the indices of the
  regions linked from \<^verbatim>\<open>free_list_head\<close>.\<close>

record proc_info =
  pi_flags :: u64
  fpga_pgtable :: ptr
  soc_shadow_pgtable :: ptr
  pi_pid :: u32
  pi_node :: u32
  refcount :: int
  vregion :: "nat \<Rightarrow> vregion_info"
  free_list :: "nat list"
  pi_nr_vmas :: int
  cached_vregion_index :: int
  host_ip :: u32
  proc_name :: string

definition vregion_freelist_dequeue_head :: "proc_info \<Rightarrow> nat option \<times> proc_info" where
  "vregion_freelist_dequeue_head p = (
     case free_list p of [] \<Rightarrow> (None, p)
     | v # vs \<Rightarrow> (Some v, p\<lparr>free_list := vs\<rparr>))"

definition vregion_freelist_enqueue_tail :: "proc_info \<Rightarrow> nat \<Rightarrow> proc_info" where
  "vregion_freelist_enqueue_tail p v = p\<lparr>free_list := free_list p @ [v]\<rparr>"

definition init_vregion :: "vregion_info \<Rightarrow> vregion_info" where
  "init_vregion v = v\<lparr>vi_flags := VREGION_INFO_FLAG_UNMAPPED_AREA_TOPDOWN, vi_mmap := 0, mm_rb := 0,
     vi_nr_vmas := 0, highest_vm_end := 0\<rparr>"

definition init_proc_vregion :: "nat \<Rightarrow> proc_info \<Rightarrow> proc_info" where
  "init_proc_vregion j p = (
     let p = p\<lparr>vregion := (vregion p)(j := init_vregion (vregion p j))\<rparr>
     in if j \<noteq> 0 then vregion_freelist_enqueue_tail p j else p)"

definition init_proc_info :: "proc_info \<Rightarrow> proc_info" where
  "init_proc_info p = (
     let p = p\<lparr>pi_flags := 0, pi_pid := 0, pi_node := 0, refcount := 1, free_list := [], pi_nr_vmas := 0\<rparr>
     in fold init_proc_vregion [0..<NR_VREGIONS] p)"

definition vregion_index_to_va :: "u32 \<Rightarrow> u64" where
  "vregion_index_to_va idx = push_bit VREGION_SIZE_SHIFT (ucast idx)"

definition va_to_vregion_index :: "u64 \<Rightarrow> u32" where
  "va_to_vregion_index va = ucast (drop_bit VREGION_SIZE_SHIFT va)"

definition va_to_vregion :: "u64 \<Rightarrow> nat" where
  "va_to_vregion va = unat (va_to_vregion_index va)"

definition index_to_vregion :: "u32 \<Rightarrow> nat option" where
  "index_to_vregion i = (if NR_VREGIONS \<le> unat i then None else Some (unat i))"

definition vregion_to_index :: "nat \<Rightarrow> u64 option" where
  "vregion_to_index v = (if NR_VREGIONS \<le> v then None else Some (of_nat v))"

definition vregion_to_start_va :: "nat \<Rightarrow> u64 option" where
  "vregion_to_start_va v = do {
     idx \<leftarrow> vregion_to_index v;
     if idx = 0 then Some 0x1000 else do { idx \<leftarrow> vregion_to_index v; Some (idx * VREGION_SIZE) } }"

definition vregion_to_end_va :: "nat \<Rightarrow> u64 option" where
  "vregion_to_end_va v = do { idx \<leftarrow> vregion_to_index v; Some ((idx + 1) * VREGION_SIZE) }"

section \<open>Process tables\<close>

text \<open>\<open>pt_objs\<close> are the live structures by address and \<open>pt_hash\<close> is the hash table of the processes.\<close>

record proc_table =
  pt_objs :: "ptr \<rightharpoonup> proc_info"
  pt_hash :: hashtable

definition get_proc_info :: "ptr \<Rightarrow> proc_table \<Rightarrow> proc_table option" where
  "get_proc_info p t = do {
     x \<leftarrow> pt_objs t p;
     let t = t\<lparr>pt_objs := (pt_objs t)(p \<mapsto> x\<lparr>refcount := refcount x + 1\<rparr>)\<rparr>;
     if refcount x < 1 then None else Some t }"

definition put_proc_info :: "(ptr option \<Rightarrow> proc_table \<Rightarrow> proc_table option) \<Rightarrow> ptr \<Rightarrow> proc_table \<Rightarrow> proc_table option" where
  "put_proc_info free_proc p t = do {
     x \<leftarrow> pt_objs t p;
     let t = t\<lparr>pt_objs := (pt_objs t)(p \<mapsto> x\<lparr>refcount := refcount x - 1\<rparr>)\<rparr>;
     if refcount x = 1 then free_proc (Some p) t else Some t }"

subsection \<open>On the board (soc/core/sched.c)\<close>

definition SOC_PID_ARRAY_HASH_BITS :: nat where "SOC_PID_ARRAY_HASH_BITS = 5"

text \<open>\<open>pg\<close> and \<open>spg\<close> are the page table and its shadow that every process is given.\<close>

definition setup_proc_fpga_pgtable :: "ptr \<Rightarrow> ptr \<Rightarrow> proc_info \<Rightarrow> proc_info" where
  "setup_proc_fpga_pgtable pg spg p = p\<lparr>fpga_pgtable := pg, soc_shadow_pgtable := spg\<rparr>"

definition soc_alloc_proc ::
  "ptr \<Rightarrow> ptr \<Rightarrow> (ptr \<times> proc_info) option \<Rightarrow> u32 \<Rightarrow> string option \<Rightarrow> u32 \<Rightarrow> proc_table
   \<Rightarrow> (ptr option \<times> proc_table) option" where
  "soc_alloc_proc pg spg mem pid name ip t = (
     case mem of None \<Rightarrow> Some (None, t)
     | Some (new, m) \<Rightarrow>
       let x = (init_proc_info m)\<lparr>pi_pid := pid\<rparr>;
           x = (case name of None \<Rightarrow> x | Some s \<Rightarrow> x\<lparr>proc_name := take PROC_NAME_LEN s\<rparr>);
           x = (if ip \<noteq> 0 then x\<lparr>host_ip := ip\<rparr> else x)
       in do {
         old \<leftarrow> ht_search (pt_objs t) (\<lambda>old. pi_pid old = pid)
                  (hash_for_each_possible SOC_PID_ARRAY_HASH_BITS pid (pt_hash t));
         case old of Some _ \<Rightarrow> Some (None, t)
         | None \<Rightarrow> Some (Some new, t\<lparr>pt_objs := (pt_objs t)(new \<mapsto> setup_proc_fpga_pgtable pg spg x),
                       pt_hash := hash_add SOC_PID_ARRAY_HASH_BITS new pid (pt_hash t)\<rparr>) })"

definition soc_free_proc :: "ptr option \<Rightarrow> proc_table \<Rightarrow> proc_table option" where
  "soc_free_proc p t = (
     case p of None \<Rightarrow> Some t
     | Some p \<Rightarrow> do {
       x \<leftarrow> pt_objs t p;
       if refcount x \<noteq> 0 then Some t else do {
         r \<leftarrow> ht_search (pt_objs t) (\<lambda>tsk. pi_pid tsk = pi_pid x)
                (hash_for_each_possible SOC_PID_ARRAY_HASH_BITS (pi_pid x) (pt_hash t));
         case r of Some tsk \<Rightarrow> Some (t\<lparr>pt_hash := hash_del tsk (pt_hash t), pt_objs := (pt_objs t)(tsk := None)\<rparr>)
         | None \<Rightarrow> Some t } })"

definition soc_get_proc_by_pid :: "u32 \<Rightarrow> proc_table \<Rightarrow> (ptr option \<times> proc_table) option" where
  "soc_get_proc_by_pid pid t = do {
     r \<leftarrow> ht_search (pt_objs t) (\<lambda>x. pi_pid x = pid) (hash_for_each_possible SOC_PID_ARRAY_HASH_BITS pid (pt_hash t));
     case r of None \<Rightarrow> Some (None, t)
     | Some p \<Rightarrow> do { t \<leftarrow> get_proc_info p t; Some (Some p, t) } }"

subsection \<open>On the monitor (host/main_monitor.c)\<close>

definition MON_PID_ARRAY_HASH_BITS :: nat where "MON_PID_ARRAY_HASH_BITS = 10"

definition mon_alloc_proc ::
  "(ptr \<times> proc_info) option \<Rightarrow> u32 \<Rightarrow> string option \<Rightarrow> u32 \<Rightarrow> proc_table \<Rightarrow> (ptr option \<times> proc_table) option" where
  "mon_alloc_proc mem pid name ip t = (
     case mem of None \<Rightarrow> Some (None, t)
     | Some (new, m) \<Rightarrow>
       let x = (init_proc_info m)\<lparr>pi_pid := pid, host_ip := ip\<rparr>;
           x = (case name of None \<Rightarrow> x | Some s \<Rightarrow> x\<lparr>proc_name := take PROC_NAME_LEN s\<rparr>)
       in Some (Some new, t\<lparr>pt_objs := (pt_objs t)(new \<mapsto> x),
                pt_hash := hash_add MON_PID_ARRAY_HASH_BITS new pid (pt_hash t)\<rparr>))"

definition mon_get_proc_by_pid :: "u32 \<Rightarrow> proc_table \<Rightarrow> (ptr option \<times> proc_table) option" where
  "mon_get_proc_by_pid pid t = do {
     r \<leftarrow> ht_search (pt_objs t) (\<lambda>x. pi_pid x = pid) (hash_for_each_possible MON_PID_ARRAY_HASH_BITS pid (pt_hash t));
     case r of None \<Rightarrow> Some (None, t)
     | Some p \<Rightarrow> do { t \<leftarrow> get_proc_info p t; Some (Some p, t) } }"

definition mon_free_proc :: "ptr option \<Rightarrow> proc_table \<Rightarrow> proc_table option" where
  "mon_free_proc p t = (
     case p of None \<Rightarrow> Some t
     | Some p \<Rightarrow> do {
       x \<leftarrow> pt_objs t p;
       if refcount x \<noteq> 0 then Some t
       else if p \<in> set (hash_for_each_possible MON_PID_ARRAY_HASH_BITS (pi_pid x) (pt_hash t))
       then Some (t\<lparr>pt_hash := hash_del p (pt_hash t), pt_objs := (pt_objs t)(p := None)\<rparr>)
       else Some t })"

section \<open>The contract of a process table\<close>

text \<open>The table holds exactly the live structures and no process id twice.\<close>

definition pids_unique :: "(ptr \<rightharpoonup> proc_info) \<Rightarrow> bool" where
  "pids_unique objs \<longleftrightarrow> (\<forall>p q x y. objs p = Some x \<and> objs q = Some y \<and> pi_pid x = pi_pid y \<longrightarrow> p = q)"

definition procs_ok :: "nat \<Rightarrow> proc_table \<Rightarrow> bool" where
  "procs_ok bits t \<longleftrightarrow> hashed_objects.table_ok bits pi_pid (pt_hash t) (pt_objs t)
     \<and> dom (pt_objs t) = set (concat (pt_hash t)) \<and> pids_unique (pt_objs t)"

lemma pids_uniqueD: "pids_unique objs \<Longrightarrow> objs p = Some x \<Longrightarrow> objs q = Some y \<Longrightarrow> pi_pid x = pi_pid y \<Longrightarrow> p = q"
  unfolding pids_unique_def by blast

text \<open>The simulation: a table stands for a map from the live process ids to their counts.\<close>

definition proc_sim :: "nat \<Rightarrow> proc_table \<Rightarrow> (u32 \<rightharpoonup> int) \<Rightarrow> bool" where
  "proc_sim bits t m \<longleftrightarrow> procs_ok bits t
     \<and> (\<forall>pid n. m pid = Some n \<longleftrightarrow> (\<exists>p x. pt_objs t p = Some x \<and> pi_pid x = pid \<and> refcount x = n))
     \<and> (\<forall>pid n. m pid = Some n \<longrightarrow> 1 \<le> n)"

lemma proc_simI:
  assumes "procs_ok bits t" "pt_objs t = objs"
    "\<And>pid n. m pid = Some n \<longleftrightarrow> (\<exists>p x. objs p = Some x \<and> pi_pid x = pid \<and> refcount x = n)"
    "\<And>pid n. m pid = Some n \<Longrightarrow> 1 \<le> n"
  shows "proc_sim bits t m"
  unfolding proc_sim_def assms(2) using assms(1,3,4) by blast

definition drop_proc :: "ptr \<Rightarrow> proc_table \<Rightarrow> proc_table" where
  "drop_proc p t = t\<lparr>pt_hash := hash_del p (pt_hash t), pt_objs := (pt_objs t)(p := None)\<rparr>"

definition empty_procs :: "nat \<Rightarrow> proc_table" where
  "empty_procs bits = \<lparr>pt_objs = Map.empty, pt_hash = hash_init (2 ^ bits)\<rparr>"

lemma fold_init_proc_vregion [simp]:
  "refcount (fold init_proc_vregion js p) = refcount p" "pi_pid (fold init_proc_vregion js p) = pi_pid p"
  by (induction js arbitrary: p) (simp_all add: init_proc_vregion_def vregion_freelist_enqueue_tail_def Let_def)

lemma init_proc_info_refcount [simp]: "refcount (init_proc_info p) = 1"
  by (simp add: init_proc_info_def Let_def)

locale refcounted_procs = hashed_objects bits "pi_pid :: proc_info \<Rightarrow> u32" id "\<lambda>pid x. pi_pid x = pid" for bits +
  fixes free_proc :: "ptr option \<Rightarrow> proc_table \<Rightarrow> proc_table option"
  assumes free_law: "procs_ok bits t \<Longrightarrow> pt_objs t p = Some x \<Longrightarrow> refcount x = 0 \<Longrightarrow> free_proc (Some p) t = Some (drop_proc p t)"
begin

lemma sim_empty: "proc_sim bits (empty_procs bits) Map.empty"
  using table_ok_init by (auto simp: proc_sim_def procs_ok_def pids_unique_def empty_procs_def hash_init_def)

lemma sim_lookup:
  assumes "proc_sim bits t m"
  shows "\<exists>r. ht_search (pt_objs t) (\<lambda>x. pi_pid x = pid) (hash_for_each_possible bits pid (pt_hash t)) = Some r
     \<and> (r = None \<longleftrightarrow> m pid = None)
     \<and> (\<forall>p. r = Some p \<longrightarrow> (\<exists>x. pt_objs t p = Some x \<and> pi_pid x = pid \<and> m pid = Some (refcount x)))"
proof -
  have ok: "table_ok (pt_hash t) (pt_objs t)" "dom (pt_objs t) = set (concat (pt_hash t))"
    using assms by (auto simp: proc_sim_def procs_ok_def)
  have m: "\<And>n. m pid = Some n \<longleftrightarrow> (\<exists>p x. pt_objs t p = Some x \<and> pi_pid x = pid \<and> refcount x = n)"
    using assms by (simp add: proc_sim_def)
  obtain r where r: "ht_search (pt_objs t) (\<lambda>x. pi_pid x = pid) (hash_for_each_possible bits pid (pt_hash t)) = Some r" "case r of
      None \<Rightarrow> (\<forall>p \<in> dom (pt_objs t). \<forall>x. pt_objs t p = Some x \<longrightarrow> pi_pid x \<noteq> pid)
    | Some p \<Rightarrow> p \<in> dom (pt_objs t) \<and> (\<exists>x. pt_objs t p = Some x \<and> pi_pid x = pid)"
    using find_obj_spec [OF ok(1), of pid] unfolding ok(2) [symmetric] id_apply by blast
  show ?thesis
  proof (cases r)
    case None
    have "m pid \<noteq> Some n" for n using r(2) m [of n] unfolding None option.case by blast
    then have "m pid = None" by (cases "m pid") auto
    then show ?thesis using None r(1) by simp
  next
    case (Some p)
    then obtain x where x: "pt_objs t p = Some x" "pi_pid x = pid" using r(2) by auto
    then have "m pid = Some (refcount x)" using m by blast
    then show ?thesis using Some r(1) x by simp
  qed
qed

lemma procs_ok_update:
  assumes "procs_ok bits t" "pt_objs t p = Some x" "pi_pid x' = pi_pid x"
  shows "procs_ok bits (t\<lparr>pt_objs := (pt_objs t)(p \<mapsto> x')\<rparr>)"
proof -
  let ?o = "(pt_objs t)(p \<mapsto> x')"
  have ok: "table_ok (pt_hash t) (pt_objs t)" "dom (pt_objs t) = set (concat (pt_hash t))"
    and u: "\<And>p q x y. pt_objs t p = Some x \<Longrightarrow> pt_objs t q = Some y \<Longrightarrow> pi_pid x = pi_pid y \<Longrightarrow> p = q"
    using assms(1) pids_uniqueD unfolding procs_ok_def by blast+
  have "table_ok (pt_hash t) ?o" by (rule table_ok_update [OF ok(1) assms(2,3)])
  moreover have "dom ?o = set (concat (pt_hash t))" using ok(2) assms(2) by auto
  moreover have "pids_unique ?o" unfolding pids_unique_def
  proof (intro allI impI, elim conjE)
    fix q r y z assume a: "?o q = Some y" "?o r = Some z" "pi_pid y = pi_pid z"
    have key: "\<exists>w. pt_objs t r = Some w \<and> pi_pid w = pi_pid v" if "?o r = Some v" for r v
      using that assms(2,3) by (cases "r = p") auto
    obtain y' z' where "pt_objs t q = Some y'" "pi_pid y' = pi_pid y" "pt_objs t r = Some z'" "pi_pid z' = pi_pid z"
      using key [OF a(1)] key [OF a(2)] by blast
    with a(3) show "q = r" using u [of q y' r z'] by argo
  qed
  ultimately show ?thesis unfolding procs_ok_def by simp
qed

lemma sim_update:
  assumes "proc_sim bits t m" "pt_objs t p = Some x" "1 \<le> n"
  shows "proc_sim bits (t\<lparr>pt_objs := (pt_objs t)(p \<mapsto> x\<lparr>refcount := n\<rparr>)\<rparr>) (m(pi_pid x \<mapsto> n))"
proof -
  have u: "\<And>p q x y. pt_objs t p = Some x \<Longrightarrow> pt_objs t q = Some y \<Longrightarrow> pi_pid x = pi_pid y \<Longrightarrow> p = q"
    and ok: "procs_ok bits t"
    using assms(1) pids_uniqueD unfolding proc_sim_def procs_ok_def by blast+
  have m: "\<And>pid n. m pid = Some n \<longleftrightarrow> (\<exists>p x. pt_objs t p = Some x \<and> pi_pid x = pid \<and> refcount x = n)"
    and pos: "\<And>pid n. m pid = Some n \<Longrightarrow> 1 \<le> n" using assms(1) unfolding proc_sim_def by blast+
  show ?thesis
  proof (rule proc_simI)
    show "procs_ok bits (t\<lparr>pt_objs := (pt_objs t)(p \<mapsto> x\<lparr>refcount := n\<rparr>)\<rparr>)"
      by (rule procs_ok_update [OF ok assms(2)]) simp
    show "pt_objs (t\<lparr>pt_objs := (pt_objs t)(p \<mapsto> x\<lparr>refcount := n\<rparr>)\<rparr>) = (pt_objs t)(p \<mapsto> x\<lparr>refcount := n\<rparr>)" by simp
    show "1 \<le> k" if "(m(pi_pid x \<mapsto> n)) pid = Some k" for pid k using that pos assms(3) by (simp split: if_splits)
    show "(m(pi_pid x \<mapsto> n)) pid = Some k \<longleftrightarrow>
     (\<exists>q y. ((pt_objs t)(p \<mapsto> x\<lparr>refcount := n\<rparr>)) q = Some y \<and> pi_pid y = pid \<and> refcount y = k)" for pid k
  proof (cases "pid = pi_pid x")
    case True
    have qp: "q = p" if "((pt_objs t)(p \<mapsto> x\<lparr>refcount := n\<rparr>)) q = Some y" "pi_pid y = pi_pid x" for q y
    proof (rule ccontr)
      assume n: "q \<noteq> p"
      then have "pt_objs t q = Some y" using that(1) by simp
      from u [OF this assms(2) that(2)] n show False by simp
    qed
    show ?thesis
    proof
      assume "(m(pi_pid x \<mapsto> n)) pid = Some k"
      then show "\<exists>q y. ((pt_objs t)(p \<mapsto> x\<lparr>refcount := n\<rparr>)) q = Some y \<and> pi_pid y = pid \<and> refcount y = k"
        using True by (intro exI [of _ p] exI [of _ "x\<lparr>refcount := n\<rparr>"]) simp
    next
      assume "\<exists>q y. ((pt_objs t)(p \<mapsto> x\<lparr>refcount := n\<rparr>)) q = Some y \<and> pi_pid y = pid \<and> refcount y = k"
      then obtain q y where q: "((pt_objs t)(p \<mapsto> x\<lparr>refcount := n\<rparr>)) q = Some y" "pi_pid y = pid" "refcount y = k" by blast
      then have "q = p" using qp True by blast
      with q True show "(m(pi_pid x \<mapsto> n)) pid = Some k" by auto
    qed
  next
    case False
    have "(\<exists>y. ((pt_objs t)(p \<mapsto> x\<lparr>refcount := n\<rparr>)) q = Some y \<and> pi_pid y = pid \<and> refcount y = k)
      \<longleftrightarrow> (\<exists>y. pt_objs t q = Some y \<and> pi_pid y = pid \<and> refcount y = k)" for q
      using assms(2) False by (cases "q = p") auto
    then show ?thesis using m [of pid k] False by simp
  qed
qed
qed

lemma sim_get:
  assumes "proc_sim bits t m" "pt_objs t p = Some x"
  shows "\<exists>t'. get_proc_info p t = Some t' \<and> proc_sim bits t' (m(pi_pid x \<mapsto> refcount x + 1))"
proof -
  have "1 \<le> refcount x" using assms by (auto simp: proc_sim_def)
  then show ?thesis using assms sim_update [OF assms, of "refcount x + 1"] by (simp add: get_proc_info_def Let_def)
qed

lemma sim_get_by_pid:
  assumes "proc_sim bits t m"
  shows "\<exists>r t'. do { r \<leftarrow> ht_search (pt_objs t) (\<lambda>x. pi_pid x = pid) (hash_for_each_possible bits pid (pt_hash t));
       case r of None \<Rightarrow> Some (None, t) | Some p \<Rightarrow> do { t \<leftarrow> get_proc_info p t; Some (Some p, t) } } = Some (r, t')
    \<and> (r = None \<longleftrightarrow> m pid = None)
    \<and> (\<forall>p. r = Some p \<longrightarrow> (\<exists>x. pt_objs t p = Some x \<and> pi_pid x = pid))
    \<and> proc_sim bits t' (case m pid of None \<Rightarrow> m | Some n \<Rightarrow> m(pid \<mapsto> n + 1))"
proof -
  obtain r where r: "ht_search (pt_objs t) (\<lambda>x. pi_pid x = pid) (hash_for_each_possible bits pid (pt_hash t)) = Some r"
    "r = None \<longleftrightarrow> m pid = None"
    "\<forall>p. r = Some p \<longrightarrow> (\<exists>x. pt_objs t p = Some x \<and> pi_pid x = pid \<and> m pid = Some (refcount x))"
    using sim_lookup [OF assms, of pid] by (elim exE conjE) (rule that)
  show ?thesis
  proof (cases r)
    case None
    then show ?thesis using r assms by simp
  next
    case (Some p)
    then obtain x where x: "pt_objs t p = Some x" "pi_pid x = pid" "m pid = Some (refcount x)" using r(3) by blast
    then show ?thesis using Some r(1) sim_get [OF assms x(1)] by auto
  qed
qed

lemma sim_add:
  assumes "proc_sim bits t m" "pt_objs t p = None" "m (pi_pid x) = None" "refcount x = 1"
  shows "proc_sim bits (t\<lparr>pt_objs := (pt_objs t)(p \<mapsto> x), pt_hash := hash_add bits p (pi_pid x) (pt_hash t)\<rparr>) (m(pi_pid x \<mapsto> 1))"
proof -
  let ?o = "(pt_objs t)(p \<mapsto> x)"
  have ok: "table_ok (pt_hash t) (pt_objs t)" "dom (pt_objs t) = set (concat (pt_hash t))"
    and u: "\<And>p q x y. pt_objs t p = Some x \<Longrightarrow> pt_objs t q = Some y \<Longrightarrow> pi_pid x = pi_pid y \<Longrightarrow> p = q"
    using assms(1) pids_uniqueD unfolding proc_sim_def procs_ok_def by blast+
  have m: "\<And>pid n. m pid = Some n \<longleftrightarrow> (\<exists>p x. pt_objs t p = Some x \<and> pi_pid x = pid \<and> refcount x = n)"
    and pos: "\<And>pid n. m pid = Some n \<Longrightarrow> 1 \<le> n" using assms(1) unfolding proc_sim_def by blast+
  have p: "p \<notin> set (concat (pt_hash t))" using ok(2) assms(2) by blast
  have ne: "pi_pid y \<noteq> pi_pid x" if "pt_objs t q = Some y" for q y
    using that m [of "pi_pid x"] assms(3) by auto
  have "table_ok (hash_add bits p (pi_pid x) (pt_hash t)) ?o" "dom ?o = set (concat (hash_add bits p (pi_pid x) (pt_hash t)))"
    using table_ok_add [OF table_ok_other [OF ok(1) p] _ p, of "Some x" x] ok(2) by auto
  moreover have "pids_unique ?o" unfolding pids_unique_def
  proof (intro allI impI, elim conjE)
    fix q r y z assume a: "?o q = Some y" "?o r = Some z" "pi_pid y = pi_pid z"
    show "q = r"
    proof (cases "q = p \<or> r = p")
      case True
      then show ?thesis using a ne [of q y] ne [of r z] by (auto split: if_splits)
    next
      case False
      then have "pt_objs t q = Some y" "pt_objs t r = Some z" using a by auto
      then show ?thesis using a(3) by (rule u)
    qed
  qed
  ultimately have "procs_ok bits (t\<lparr>pt_objs := ?o, pt_hash := hash_add bits p (pi_pid x) (pt_hash t)\<rparr>)"
    unfolding procs_ok_def by simp
  show ?thesis
  proof (rule proc_simI)
    show "procs_ok bits (t\<lparr>pt_objs := ?o, pt_hash := hash_add bits p (pi_pid x) (pt_hash t)\<rparr>)" by fact
    show "pt_objs (t\<lparr>pt_objs := ?o, pt_hash := hash_add bits p (pi_pid x) (pt_hash t)\<rparr>) = ?o" by simp
    show "1 \<le> k" if "(m(pi_pid x \<mapsto> 1)) pid = Some k" for pid k using that pos by (simp split: if_splits)
    show "(m(pi_pid x \<mapsto> 1)) pid = Some k \<longleftrightarrow> (\<exists>q y. ?o q = Some y \<and> pi_pid y = pid \<and> refcount y = k)" for pid k
  proof (cases "pid = pi_pid x")
    case True
    have qp: "q = p" if "?o q = Some y" "pi_pid y = pi_pid x" for q y
      using that ne [of q y] by (cases "q = p") auto
    show ?thesis
    proof
      assume "(m(pi_pid x \<mapsto> 1)) pid = Some k"
      then show "\<exists>q y. ?o q = Some y \<and> pi_pid y = pid \<and> refcount y = k"
        using True assms(4) by (intro exI [of _ p] exI [of _ x]) simp
    next
      assume "\<exists>q y. ?o q = Some y \<and> pi_pid y = pid \<and> refcount y = k"
      then obtain q y where q: "?o q = Some y" "pi_pid y = pid" "refcount y = k" by blast
      then have "q = p" using qp True by blast
      with q True assms(4) show "(m(pi_pid x \<mapsto> 1)) pid = Some k" by auto
    qed
  next
    case False
    have "(\<exists>y. ?o q = Some y \<and> pi_pid y = pid \<and> refcount y = k) \<longleftrightarrow> (\<exists>y. pt_objs t q = Some y \<and> pi_pid y = pid \<and> refcount y = k)" for q
      using assms(2) False by (cases "q = p") auto
    then show ?thesis using m [of pid k] False by simp
  qed
qed
qed

lemma sim_drop:
  assumes "proc_sim bits t m" "pt_objs t p = Some x"
  shows "proc_sim bits (drop_proc p t) (m(pi_pid x := None))"
proof -
  let ?o = "(pt_objs t)(p := None)"
  have ok: "table_ok (pt_hash t) (pt_objs t)" "dom (pt_objs t) = set (concat (pt_hash t))"
    and u: "\<And>p q x y. pt_objs t p = Some x \<Longrightarrow> pt_objs t q = Some y \<Longrightarrow> pi_pid x = pi_pid y \<Longrightarrow> p = q"
    using assms(1) pids_uniqueD unfolding proc_sim_def procs_ok_def by blast+
  have m: "\<And>pid n. m pid = Some n \<longleftrightarrow> (\<exists>p x. pt_objs t p = Some x \<and> pi_pid x = pid \<and> refcount x = n)"
    and pos: "\<And>pid n. m pid = Some n \<Longrightarrow> 1 \<le> n" using assms(1) unfolding proc_sim_def by blast+
  have n: "p \<notin> set (concat (hash_del p (pt_hash t)))" unfolding table_ok_del(2) [OF ok(1)] by simp
  have "table_ok (hash_del p (pt_hash t)) ?o" by (rule table_ok_other [OF table_ok_del(1) [OF ok(1)] n])
  moreover have "dom ?o = set (concat (hash_del p (pt_hash t)))" unfolding table_ok_del(2) [OF ok(1)] using ok(2) by auto
  moreover have "pids_unique ?o" using u by (auto simp: pids_unique_def split: if_splits)
  ultimately have "procs_ok bits (drop_proc p t)"
    unfolding procs_ok_def drop_proc_def by simp
  show ?thesis
  proof (rule proc_simI)
    show "procs_ok bits (drop_proc p t)" by fact
    show "pt_objs (drop_proc p t) = ?o" by (simp add: drop_proc_def)
    show "1 \<le> k" if "(m(pi_pid x := None)) pid = Some k" for pid k using that pos by (simp split: if_splits)
    show "(m(pi_pid x := None)) pid = Some k \<longleftrightarrow> (\<exists>q y. ?o q = Some y \<and> pi_pid y = pid \<and> refcount y = k)" for pid k
  proof (cases "pid = pi_pid x")
    case True
    have "\<not> (?o q = Some y \<and> pi_pid y = pid)" for q y
    proof
      assume q: "?o q = Some y \<and> pi_pid y = pid"
      then have "q \<noteq> p" "pt_objs t q = Some y" by (auto split: if_splits)
      then show False using u [OF _ assms(2)] q True by blast
    qed
    then have "\<not> (\<exists>q y. ?o q = Some y \<and> pi_pid y = pid \<and> refcount y = k)" by blast
    moreover have "(m(pi_pid x := None)) pid \<noteq> Some k" using True by simp
    ultimately show ?thesis by blast
  next
    case False
    have "(\<exists>y. ?o q = Some y \<and> pi_pid y = pid \<and> refcount y = k) \<longleftrightarrow> (\<exists>y. pt_objs t q = Some y \<and> pi_pid y = pid \<and> refcount y = k)" for q
      using assms(2) False by (cases "q = p") auto
    then show ?thesis using m [of pid k] False by simp
  qed
qed
qed

text \<open>The last reference frees the structure and the process id; every other one only counts.\<close>

lemma sim_put:
  assumes "proc_sim bits t m" "pt_objs t p = Some x"
  shows "\<exists>t'. put_proc_info free_proc p t = Some t'
    \<and> proc_sim bits t' (m(pi_pid x := if refcount x = 1 then None else Some (refcount x - 1)))
    \<and> (refcount x = 1 \<longrightarrow> pt_objs t' p = None)"
proof (cases "refcount x = 1")
  case True
  let ?t = "t\<lparr>pt_objs := (pt_objs t)(p \<mapsto> x\<lparr>refcount := 0\<rparr>)\<rparr>"
  have "procs_ok bits t" using assms by (simp add: proc_sim_def)
  then have ok: "procs_ok bits ?t" by (rule procs_ok_update [OF _ assms(2)]) simp
  have "free_proc (Some p) ?t = Some (drop_proc p ?t)" by (rule free_law [OF ok]) auto
  moreover have "drop_proc p ?t = drop_proc p t" by (simp add: drop_proc_def)
  moreover have "pt_objs (drop_proc p t) p = None" by (simp add: drop_proc_def)
  ultimately show ?thesis using True assms(2) sim_drop [OF assms] by (simp add: put_proc_info_def Let_def)
next
  case False
  moreover have "1 \<le> refcount x" using assms by (auto simp: proc_sim_def)
  ultimately show ?thesis using assms(2) sim_update [OF assms, of "refcount x - 1"] by (simp add: put_proc_info_def Let_def)
qed

end

section \<open>The two tables\<close>

text \<open>The board looks for the process id again when it frees; ids being unique, it finds the structure
  it was given. The monitor looks for the structure itself.\<close>

interpretation soc_pids: hashed_objects SOC_PID_ARRAY_HASH_BITS "pi_pid :: proc_info \<Rightarrow> u32" id "\<lambda>pid x. pi_pid x = pid"
  by unfold_locales (simp_all add: SOC_PID_ARRAY_HASH_BITS_def)

interpretation mon_pids: hashed_objects MON_PID_ARRAY_HASH_BITS "pi_pid :: proc_info \<Rightarrow> u32" id "\<lambda>pid x. pi_pid x = pid"
  by unfold_locales (simp_all add: MON_PID_ARRAY_HASH_BITS_def)

interpretation soc_procs: refcounted_procs SOC_PID_ARRAY_HASH_BITS soc_free_proc
proof
  let ?b = SOC_PID_ARRAY_HASH_BITS
  fix t p x assume a: "procs_ok ?b t" "pt_objs t p = Some x" "refcount x = 0"
  have "ht_search (pt_objs t) (\<lambda>tsk. pi_pid tsk = pi_pid x) (hash_for_each_possible ?b (id (pi_pid x)) (pt_hash t)) = Some (Some p)"
  proof (rule soc_pids.find_obj_unique(1))
    show "soc_pids.table_ok (pt_hash t) (pt_objs t)" "p \<in> set (concat (pt_hash t))"
      using a(1,2) unfolding procs_ok_def by blast+
    show "q = p" if "pt_objs t q = Some y" "pi_pid y = pi_pid x" for q y
      using a(1,2) that unfolding procs_ok_def by (blast dest: pids_uniqueD)
  qed (use a(2) in simp_all)
  then show "soc_free_proc (Some p) t = Some (drop_proc p t)"
    using a by (simp add: soc_free_proc_def drop_proc_def)
qed

interpretation mon_procs: refcounted_procs MON_PID_ARRAY_HASH_BITS mon_free_proc
proof
  fix t p x assume a: "procs_ok MON_PID_ARRAY_HASH_BITS t" "pt_objs t p = Some x" "refcount x = 0"
  then have "p \<in> set (pt_hash t ! hash_min (pi_pid x) MON_PID_ARRAY_HASH_BITS)"
    using mon_pids.in_table [of "pt_hash t" "pt_objs t" p] unfolding procs_ok_def by auto
  then show "mon_free_proc (Some p) t = Some (drop_proc p t)"
    using a by (simp add: mon_free_proc_def drop_proc_def hash_for_each_possible_def)
qed

section \<open>Properties\<close>


definition zero_vregion :: vregion_info where
  "zero_vregion = \<lparr>vi_flags = 0, vi_board_ip = 0, vi_udp_port = 0, vi_mmap = 0, mm_rb = 0, vi_nr_vmas = 0, highest_vm_end = 0\<rparr>"

definition zero_proc :: proc_info where
  "zero_proc = \<lparr>pi_flags = 0, fpga_pgtable = 0, soc_shadow_pgtable = 0, pi_pid = 0, pi_node = 0, refcount = 0,
     vregion = (\<lambda>i. zero_vregion), free_list = [], pi_nr_vmas = 0, cached_vregion_index = 0, host_ip = 0, proc_name = ''''\<rparr>"


text \<open>The bounds of a region as numbers.\<close>

lemma vregion_bounds:
  assumes "v < NR_VREGIONS"
  shows "\<exists>s e. vregion_to_start_va v = Some s \<and> vregion_to_end_va v = Some e
    \<and> unat s = (if v = 0 then 4096 else v * 2 ^ 30) \<and> unat e = (v + 1) * 2 ^ 30"
proof -
  have v: "v < 2 ^ 20" using assms by (simp add: NR_VREGIONS_def)
  have w: "unat (of_nat v :: u64) = v" using v by (simp add: unat_of_nat take_bit_nat_eq_self)
  then have z: "(of_nat v :: u64) = 0 \<longleftrightarrow> v = 0" by (metis unat_0 unat_eq_zero)
  have mult: "unat (of_nat n * VREGION_SIZE) = n * 2 ^ 30" if "n \<le> 2 ^ 20" for n
  proof -
    have "of_nat n * VREGION_SIZE = of_nat (n * 2 ^ 30)" by (simp add: VREGION_SIZE_def)
    moreover have "n * 2 ^ 30 < 2 ^ 64" using that by simp
    ultimately show ?thesis by (simp add: unat_of_nat take_bit_nat_eq_self del: of_nat_mult)
  qed
  have "unat (of_nat v * VREGION_SIZE) = v * 2 ^ 30" using mult [of v] v by simp
  moreover have "unat ((of_nat v + 1) * VREGION_SIZE) = (v + 1) * 2 ^ 30" using mult [of "v + 1"] v by (simp add: add.commute)
  ultimately show ?thesis using assms z by (simp add: vregion_to_start_va_def vregion_to_end_va_def vregion_to_index_def)
qed

lemma va_to_vregion_div: "unat va < 2 ^ 50 \<Longrightarrow> va_to_vregion va = unat va div 2 ^ 30"
proof -
  assume "unat va < 2 ^ 50"
  then have "unat va div 2 ^ 30 < 2 ^ 20" by (intro less_mult_imp_div_less) simp
  then show ?thesis
    by (simp add: va_to_vregion_def va_to_vregion_index_def VREGION_SIZE_SHIFT_def unsigned_ucast_eq unat_drop_bit take_bit_nat_eq_self)
qed



end
