(* ===== verification/Board.thy ===== *)
theory Board
  imports Sched Idpool
begin

text \<open>
  The lists of known nodes: \<^verbatim>\<open>board/soc/core/board.c\<close> on the board and \<^verbatim>\<open>host/board.c\<close> on hosts and monitor.

  Both keep a hash table of board descriptions under address plus port. The board allocates each
  description; the hosts keep them in an array of 128 whose indices are the board ids, with a bitmap
  of the ids in use. The id pool of the hosts interprets \<open>id_pool\<close>, both tables interpret
  \<open>hashed_objects\<close>.
\<close>

definition get_key :: "u32 \<Rightarrow> u32 \<Rightarrow> u32" where
  "get_key ip port = ip + port"

text \<open>What a lookup accepts: the wildcards take any ordinary node, or any ordinary board.\<close>

definition board_fits :: "u32 \<times> u32 \<Rightarrow> board_info \<Rightarrow> bool" where
  "board_fits q bi \<longleftrightarrow> \<not> special_board_info_type (bi_flags bi) \<and> bi_ip bi = fst q \<and> bi_port bi = snd q"

definition any_fits :: "u32 \<Rightarrow> board_info \<Rightarrow> bool" where
  "any_fits ip bi \<longleftrightarrow> \<not> special_board_info_type (bi_flags bi)
     \<and> (ip = ANY_BOARD \<longrightarrow> bi_flags bi AND BOARD_INFO_FLAGS_BOARD \<noteq> 0)"

section \<open>On the board\<close>

record soc_boards =
  sb_objs :: "ptr \<rightharpoonup> board_info"
  sb_list :: hashtable

definition SOC_BOARD_HASH_ARRAY_BITS :: nat where "SOC_BOARD_HASH_ARRAY_BITS = 6"

text \<open>\<open>mem\<close> is what the allocator returns: an address and the contents found there.\<close>

definition soc_add_board ::
  "(ptr \<times> board_info) option \<Rightarrow> bool \<Rightarrow> string option \<Rightarrow> u32 \<Rightarrow> u32 \<Rightarrow> soc_boards \<Rightarrow> ptr option \<times> soc_boards" where
  "soc_add_board mem stat_ok name ip port b = (
     case mem of None \<Rightarrow> (None, b)
     | Some (p, m) \<Rightarrow>
       let bi = snd (init_board_info stat_ok m);
           bi = (case name of None \<Rightarrow> bi | Some s \<Rightarrow> bi\<lparr>bi_name := take BOARD_NAME_LEN s\<rparr>);
           bi = bi\<lparr>bi_ip := ip, bi_port := port\<rparr>;
           key = get_key (bi_ip bi) (bi_port bi)
       in (Some p, b\<lparr>sb_objs := (sb_objs b)(p \<mapsto> bi), sb_list := hash_add SOC_BOARD_HASH_ARRAY_BITS p key (sb_list b)\<rparr>))"

definition soc_remove_board :: "ptr \<Rightarrow> soc_boards \<Rightarrow> soc_boards option" where
  "soc_remove_board p b = do {
     bi \<leftarrow> sb_objs b p;
     r \<leftarrow> ht_search (sb_objs b) (\<lambda>x. bi_ip x = bi_ip bi \<and> bi_port x = bi_port bi)
            (hash_for_each_possible SOC_BOARD_HASH_ARRAY_BITS (get_key (bi_ip bi) (bi_port bi)) (sb_list b));
     case r of None \<Rightarrow> Some b
     | Some _ \<Rightarrow> Some (b\<lparr>sb_list := hash_del p (sb_list b)\<rparr>) }"

definition soc_find_board :: "u32 \<Rightarrow> u32 \<Rightarrow> soc_boards \<Rightarrow> ptr option option" where
  "soc_find_board ip port b = (
     let key = get_key ip port in
     if ip = ANY_BOARD \<or> ip = ANY_NODE then ht_search (sb_objs b) (any_fits ip) (hash_for_each (sb_list b))
     else ht_search (sb_objs b) (board_fits (ip, port)) (hash_for_each_possible SOC_BOARD_HASH_ARRAY_BITS key (sb_list b)))"

interpretation soc_bd: hashed_objects SOC_BOARD_HASH_ARRAY_BITS "\<lambda>bi :: board_info. get_key (bi_ip bi) (bi_port bi)"
  "\<lambda>q. get_key (fst q) (snd q)" board_fits
  by unfold_locales (auto simp: SOC_BOARD_HASH_ARRAY_BITS_def board_fits_def)

section \<open>On hosts and monitor\<close>

definition NR_MAX_BOARDS :: nat where "NR_MAX_BOARDS = 128"
definition BOARD_HASH_ARRAY_BITS :: nat where "BOARD_HASH_ARRAY_BITS = 5"

text \<open>A board is named by its index in the array.\<close>

record host_boards =
  board_info_map :: "board_info list"
  board_id_map :: bitmap
  nr_max_board_id :: int
  board_list :: hashtable

definition hb_objs :: "host_boards \<Rightarrow> ptr \<rightharpoonup> board_info" where
  "hb_objs b p = (if p < length (board_info_map b) then Some (board_info_map b ! p) else None)"

definition zero_board :: board_info where
  "zero_board = (let ei = \<lparr>ei_mac = replicate 6 0, ei_ip_str = '''', ei_ip = 0, ei_udp_port = 0\<rparr> in
     \<lparr>board_id = 0, bi_name = '''', bi_ip = 0, bi_port = 0, bi_flags = 0, bi_local_ei = ei, bi_remote_ei = ei,
      mgmt_session = None, bi_ht_sessions = [], mem_total = 0, mem_avail = 0, bi_stat = None\<rparr>)"

definition empty_host_boards :: host_boards where
  "empty_host_boards = \<lparr>board_info_map = replicate NR_MAX_BOARDS zero_board, board_id_map = replicate 2 0,
     nr_max_board_id = 0, board_list = hash_init (2 ^ BOARD_HASH_ARRAY_BITS)\<rparr>"

definition alloc_board_info :: "host_boards \<Rightarrow> (nat option \<times> host_boards) option" where
  "alloc_board_info b = do {
     (r, m) \<leftarrow> claim_bit NR_MAX_BOARDS 0 (board_id_map b);
     case r of None \<Rightarrow> Some (None, b)
     | Some i \<Rightarrow> Some (Some i, b\<lparr>board_id_map := m, nr_max_board_id := int i,
         board_info_map := (board_info_map b)[i := zero_board\<lparr>board_id := int i, bi_flags := BOARD_INFO_FLAGS_ALLOCATED\<rparr>]\<rparr>) }"

text \<open>
  \<open>open_mgmt is_local\<close> opens the session to the management session of the new board, or a local one:
  \<^verbatim>\<open>legomem_open_session_remote_mgmt\<close> and \<^verbatim>\<open>legomem_open_session_local_mgmt\<close> of \<^verbatim>\<open>host/api.c\<close>. It may add
  to the sessions of the board.
\<close>

definition fill_board ::
  "bool \<Rightarrow> string option \<Rightarrow> u64 \<Rightarrow> endpoint_info \<Rightarrow> endpoint_info \<Rightarrow> board_info \<Rightarrow> board_info" where
  "fill_board stat_ok name mem remote_ei local_ei bi = (
     let bi = snd (init_board_info stat_ok bi);
         bi = bi\<lparr>bi_remote_ei := remote_ei, bi_local_ei := local_ei\<rparr>;
         bi = (case name of None \<Rightarrow> bi | Some s \<Rightarrow> bi\<lparr>bi_name := take BOARD_NAME_LEN s\<rparr>)
     in bi\<lparr>bi_ip := ei_ip remote_ei, bi_port := ucast (ei_udp_port remote_ei), mem_total := mem, mem_avail := mem\<rparr>)"

definition add_board ::
  "(bool \<Rightarrow> board_info \<Rightarrow> 'w \<Rightarrow> ptr option \<times> hashtable \<times> 'w) \<Rightarrow> bool \<Rightarrow> string option \<Rightarrow> u64
   \<Rightarrow> endpoint_info \<Rightarrow> endpoint_info \<Rightarrow> bool \<Rightarrow> host_boards \<times> 'w \<Rightarrow> (nat option \<times> host_boards \<times> 'w) option" where
  "add_board open_mgmt stat_ok name mem remote_ei local_ei is_local bw = do {
     let (b, w) = bw;
     (r, b) \<leftarrow> alloc_board_info b;
     case r of None \<Rightarrow> Some (None, b, w)
     | Some i \<Rightarrow>
       let bi = fill_board stat_ok name mem remote_ei local_ei (board_info_map b ! i);
           (ses, ht, w) = open_mgmt is_local bi w;
           bi = set_board_mgmt_session (bi\<lparr>bi_ht_sessions := ht\<rparr>) ses;
           key = get_key (bi_ip bi) (bi_port bi)
       in Some (Some i, b\<lparr>board_info_map := (board_info_map b)[i := bi],
                 board_list := hash_add BOARD_HASH_ARRAY_BITS i key (board_list b)\<rparr>, w) }"

text \<open>The search for the board to remove compares the address only, but then removes the one it was given.\<close>

definition remove_board :: "nat \<Rightarrow> host_boards \<Rightarrow> host_boards option" where
  "remove_board i b = do {
     bi \<leftarrow> hb_objs b i;
     r \<leftarrow> ht_search (hb_objs b) (\<lambda>x. bi_ip x = bi_ip bi)
            (hash_for_each_possible BOARD_HASH_ARRAY_BITS (get_key (bi_ip bi) (bi_port bi)) (board_list b));
     case r of None \<Rightarrow> Some b
     | Some _ \<Rightarrow> do {
       (was, m) \<leftarrow> c_test_and_clear_bit i (board_id_map b);
       if \<not> was then None
       else Some (b\<lparr>board_id_map := m, board_list := hash_del i (board_list b),
              nr_max_board_id := (if int i = nr_max_board_id b then nr_max_board_id b - 1 else nr_max_board_id b)\<rparr>) } }"

text \<open>An id of 128 passes the check and reads past the array.\<close>

definition find_board_by_id :: "u32 \<Rightarrow> host_boards \<Rightarrow> nat option option" where
  "find_board_by_id i b = (
     if NR_MAX_BOARDS < unat i then Some None
     else do { bi \<leftarrow> hb_objs b (unat i); Some (Some (unat i)) })"

definition find_board :: "u32 \<Rightarrow> u32 \<Rightarrow> host_boards \<Rightarrow> ptr option option" where
  "find_board ip port b = (
     let key = get_key ip port in
     if ip = ANY_BOARD \<or> ip = ANY_NODE then ht_search (hb_objs b) (any_fits ip) (hash_for_each (board_list b))
     else ht_search (hb_objs b) (board_fits (ip, port)) (hash_for_each_possible BOARD_HASH_ARRAY_BITS key (board_list b)))"

interpretation host_bd: hashed_objects BOARD_HASH_ARRAY_BITS "\<lambda>bi :: board_info. get_key (bi_ip bi) (bi_port bi)"
  "\<lambda>q. get_key (fst q) (snd q)" board_fits
  by unfold_locales (auto simp: BOARD_HASH_ARRAY_BITS_def board_fits_def)

section \<open>The invariant of the hosts\<close>

text \<open>The ids in use are those of the boards in the table.\<close>

definition hb_used :: "host_boards \<Rightarrow> nat set" where
  "hb_used b = set (concat (board_list b))"

definition hb_inv :: "host_boards \<Rightarrow> bool" where
  "hb_inv b \<longleftrightarrow> length (board_info_map b) = 128 \<and> length (board_id_map b) = 2
     \<and> host_bd.table_ok (board_list b) (hb_objs b) \<and> (\<forall>i < 128. bm_bit (board_id_map b) i \<longleftrightarrow> i \<in> hb_used b)"

lemma hb_invD:
  assumes "hb_inv b"
  shows "length (board_info_map b) = 128" "length (board_id_map b) = 2" "host_bd.table_ok (board_list b) (hb_objs b)"
    "i < 128 \<Longrightarrow> bm_bit (board_id_map b) i \<longleftrightarrow> i \<in> hb_used b"
  using assms by (auto simp: hb_inv_def)

lemma hb_used_bound: "hb_inv b \<Longrightarrow> i \<in> hb_used b \<Longrightarrow> i < 128"
  using host_bd.in_table [OF hb_invD(3), of b i] hb_invD(1) [of b]
  by (auto simp: hb_used_def hb_objs_def split: if_splits)

lemma hb_inv_empty: "hb_inv empty_host_boards" and hb_used_empty: "hb_used empty_host_boards = {}"
  using host_bd.table_ok_init
  by (auto simp: hb_inv_def hb_used_def empty_host_boards_def NR_MAX_BOARDS_def bm_bit_def hash_init_def)

lemma alloc_board_info_spec:
  assumes "hb_inv b"
  shows "({0..<128} \<subseteq> hb_used b \<and> alloc_board_info b = Some (None, b))
    \<or> (\<exists>i. i < 128 \<and> i \<notin> hb_used b \<and> (\<forall>j < i. j \<in> hb_used b) \<and> alloc_board_info b = Some (Some i,
        b\<lparr>board_id_map := bm_insert i (board_id_map b), nr_max_board_id := int i,
          board_info_map := (board_info_map b)[i := zero_board\<lparr>board_id := int i, bi_flags := BOARD_INFO_FLAGS_ALLOCATED\<rparr>]\<rparr>))"
proof -
  have l: "BITS_TO_LONGS 128 \<le> length (board_id_map b)" using hb_invD(2) [OF assms] by (simp add: BITS_TO_LONGS_def DIV_ROUND_UP_def)
  obtain r m' where r: "claim_bit 128 0 (board_id_map b) = Some (r, m')"
    "case r of None \<Rightarrow> m' = board_id_map b \<and> (\<forall>i. 0 \<le> i \<and> i < 128 \<longrightarrow> bm_bit (board_id_map b) i)
    | Some i \<Rightarrow> 0 \<le> i \<and> i < 128 \<and> \<not> bm_bit (board_id_map b) i \<and> m' = bm_insert i (board_id_map b)
        \<and> (\<forall>j. 0 \<le> j \<and> j < i \<longrightarrow> bm_bit (board_id_map b) j)"
    using claim_bit_spec [OF l, of 0] by blast
  show ?thesis
    using r hb_invD(4) [OF assms] by (cases r) (auto simp: alloc_board_info_def NR_MAX_BOARDS_def)
qed

lemma add_board_spec:
  assumes "hb_inv b"
  shows "({0..<128} \<subseteq> hb_used b \<and> add_board om sok name mem rei lei loc (b, w) = Some (None, b, w))
    \<or> (\<exists>i b' w' bi. i < 128 \<and> i \<notin> hb_used b \<and> add_board om sok name mem rei lei loc (b, w) = Some (Some i, b', w')
        \<and> hb_inv b' \<and> board_info_map b' = (board_info_map b)[i := bi] \<and> bi_ip bi = ei_ip rei \<and> bi_port bi = ucast (ei_udp_port rei)
        \<and> bi_flags bi = BOARD_INFO_FLAGS_ALLOCATED \<and> board_id bi = int i
        \<and> board_list b' = hash_add BOARD_HASH_ARRAY_BITS i (get_key (bi_ip bi) (bi_port bi)) (board_list b)
        \<and> board_id_map b' = bm_insert i (board_id_map b) \<and> hb_used b' = insert i (hb_used b))"
  using alloc_board_info_spec [OF assms]
proof (elim disjE exE conjE)
  assume "{0..<128} \<subseteq> hb_used b" "alloc_board_info b = Some (None, b)"
  then show ?thesis by (simp add: add_board_def)
next
  fix i
  let ?z = "zero_board\<lparr>board_id := int i, bi_flags := BOARD_INFO_FLAGS_ALLOCATED\<rparr>"
  let ?b1 = "b\<lparr>board_id_map := bm_insert i (board_id_map b), nr_max_board_id := int i, board_info_map := (board_info_map b)[i := ?z]\<rparr>"
  assume i: "i < 128" "i \<notin> hb_used b" "alloc_board_info b = Some (Some i, ?b1)"
  let ?f = "fill_board sok name mem rei lei ?z"
  obtain ses ht w' where o: "om loc ?f w = (ses, ht, w')" by (metis prod_cases3)
  define bi where "bi = set_board_mgmt_session (?f\<lparr>bi_ht_sessions := ht\<rparr>) ses"
  have f: "bi_ip bi = ei_ip rei" "bi_port bi = ucast (ei_udp_port rei)" "bi_flags bi = BOARD_INFO_FLAGS_ALLOCATED" "board_id bi = int i"
    by (simp_all add: bi_def set_board_mgmt_session_def fill_board_def init_board_info_def Let_def split: option.split)
  let ?b' = "?b1\<lparr>board_info_map := (board_info_map b)[i := bi], board_list := hash_add BOARD_HASH_ARRAY_BITS i (get_key (bi_ip bi) (bi_port bi)) (board_list b)\<rparr>"
  have len: "i < length (board_info_map b)" using i(1) hb_invD(1) [OF assms] by simp
  have a: "add_board om sok name mem rei lei loc (b, w) = Some (Some i, ?b', w')"
    using i(3) o len by (simp add: add_board_def Let_def bi_def)
  have objs: "hb_objs ?b' = (hb_objs b)(i \<mapsto> bi)" using len by (auto simp: hb_objs_def fun_eq_iff)
  have n: "i \<notin> set (concat (board_list b))" using i(2) by (simp add: hb_used_def)
  note ta = host_bd.table_ok_add [OF host_bd.table_ok_other [OF hb_invD(3) [OF assms] n, of "Some bi"] _ n, of bi]
  have u: "hb_used ?b' = insert i (hb_used b)" using ta(2) by (simp add: hb_used_def)
  have t: "host_bd.table_ok (board_list ?b') (hb_objs ?b')" using ta(1) unfolding objs by simp
  have "i div 64 < length (board_id_map b)" using i(1) hb_invD(2) [OF assms] by simp
  then have "hb_inv ?b'" using t hb_invD [OF assms] unfolding hb_inv_def u by auto
  then show ?thesis using i a f u by (intro disjI2 exI [of _ i] exI [of _ ?b'] exI [of _ w'] exI [of _ bi]) simp
qed

lemma remove_board_spec:
  assumes "hb_inv b" "i \<in> hb_used b"
  shows "\<exists>b'. remove_board i b = Some b' \<and> hb_inv b' \<and> hb_used b' = hb_used b - {i}
    \<and> board_list b' = hash_del i (board_list b) \<and> board_info_map b' = board_info_map b"
proof -
  have i: "i < 128" by (rule hb_used_bound [OF assms])
  then obtain bi where bi: "hb_objs b i = Some bi" using hb_invD(1) [OF assms(1)] by (simp add: hb_objs_def)
  have mem: "i \<in> set (hash_for_each_possible BOARD_HASH_ARRAY_BITS (get_key (bi_ip bi) (bi_port bi)) (board_list b))"
    using host_bd.in_table [OF hb_invD(3) [OF assms(1)], of i] assms(2) bi by (simp add: hb_used_def hash_for_each_possible_def)
  have "\<forall>p \<in> set (hash_for_each_possible BOARD_HASH_ARRAY_BITS (get_key (bi_ip bi) (bi_port bi)) (board_list b)). hb_objs b p \<noteq> None"
    using hb_invD(3) [OF assms(1)] host_bd.in_range [OF hb_invD(3) [OF assms(1)], of "get_key (bi_ip bi) (bi_port bi)"]
    unfolding host_bd.table_ok_def hash_for_each_possible_def by fastforce
  from ht_search_spec [OF this, of "\<lambda>x. bi_ip x = bi_ip bi"] mem bi obtain p where
    s: "ht_search (hb_objs b) (\<lambda>x. bi_ip x = bi_ip bi)
      (hash_for_each_possible BOARD_HASH_ARRAY_BITS (get_key (bi_ip bi) (bi_port bi)) (board_list b)) = Some (Some p)"
    by (auto split: option.splits)
  have l: "i div 64 < length (board_id_map b)" using i hb_invD(2) [OF assms(1)] by simp
  have c: "c_test_and_clear_bit i (board_id_map b) = Some (True, bm_delete i (board_id_map b))"
    using single_bit_ops(5) [OF l] hb_invD(4) [OF assms(1) i] assms(2) by simp
  let ?b' = "b\<lparr>board_id_map := bm_delete i (board_id_map b), board_list := hash_del i (board_list b),
      nr_max_board_id := (if int i = nr_max_board_id b then nr_max_board_id b - 1 else nr_max_board_id b)\<rparr>"
  have r: "remove_board i b = Some ?b'" using bi s c by (simp add: remove_board_def)
  note td = host_bd.table_ok_del [OF hb_invD(3) [OF assms(1)], of i]
  have u: "hb_used ?b' = hb_used b - {i}" using td(2) by (simp add: hb_used_def)
  have "hb_objs ?b' = hb_objs b" by (simp add: hb_objs_def fun_eq_iff)
  then have "hb_inv ?b'" using td(1) l hb_invD [OF assms(1)] unfolding hb_inv_def u by auto
  with r u show ?thesis by auto
qed

interpretation board_ids: id_pool "\<lambda>bw. hb_inv (fst bw)" "\<lambda>bw. hb_used (fst bw)" "{0..<128}" "\<lambda>i. True"
  "add_board om sok name mem rei lei loc" "\<lambda>i bw. map_option (\<lambda>b. (b, snd bw)) (remove_board i (fst bw))"
  for om :: "bool \<Rightarrow> board_info \<Rightarrow> 'w \<Rightarrow> ptr option \<times> hashtable \<times> 'w" and sok name mem rei lei loc
proof
  show "finite {0..<128 :: nat}" by simp
next
  fix s :: "host_boards \<times> 'w" assume "hb_inv (fst s)"
  then show "\<exists>r s'. add_board om sok name mem rei lei loc s = Some (r, s') \<and> hb_inv (fst s') \<and> (case r of
        None \<Rightarrow> s' = s \<and> {0..<128} \<subseteq> hb_used (fst s)
      | Some i \<Rightarrow> i \<in> {0..<128} \<and> i \<notin> hb_used (fst s) \<and> hb_used (fst s') = insert i (hb_used (fst s)))"
    using add_board_spec [of "fst s" om sok name mem rei lei loc "snd s"] by (cases s) fastforce
next
  fix s :: "host_boards \<times> 'w" and i assume "hb_inv (fst s)" "i \<in> hb_used (fst s)"
  then show "\<exists>s'. map_option (\<lambda>b. (b, snd s)) (remove_board i (fst s)) = Some s' \<and> hb_inv (fst s') \<and> hb_used (fst s') = hb_used (fst s) - {i}"
    using remove_board_spec [of "fst s" i] by auto
qed

section \<open>Properties\<close>

text \<open>Searches see the boards of the table only.\<close>

lemma ht_search_cong: "(\<And>p. p \<in> set ps \<Longrightarrow> objs p = objs' p) \<Longrightarrow> ht_search objs P ps = ht_search objs' P ps"
  by (induction ps) (simp_all cong: if_cong)

lemma hash_add_del_id:
  assumes "n \<notin> set (concat ht)" "hash_min k bits < length ht"
  shows "hash_del n (hash_add bits n k ht) = ht"
proof (rule nth_equalityI)
  fix j assume "j < length (hash_del n (hash_add bits n k ht))"
  then have j: "j < length ht" by (simp add: hash_del_def hash_add_def)
  then have "n \<notin> set (ht ! j)" using assms(1) by (auto dest: nth_mem)
  then show "hash_del n (hash_add bits n k ht) ! j = ht ! j"
    using j assms(2) by (simp add: hash_del_def hash_add_def nth_list_update remove1_idem)
qed (simp add: hash_del_def hash_add_def)



end
