(* ===== verification/Buddy.thy ===== *)
theory Buddy
  imports Idpool
begin

text \<open>
  The allocator of physical page frames on the board: \<^verbatim>\<open>board/soc/core/buddy.c\<close> and \<^verbatim>\<open>buddy.h\<close>.

  A page is named by its frame number, its position in \<^verbatim>\<open>page_map\<close>. The free list of an order is the
  list of the frames linked from it. The number of orders, \<^verbatim>\<open>MAX_ORDER\<close>, is a constant of the code that
  can be tuned; the operations take it as the argument \<open>mo\<close>, and the properties hold for every value
  for which the managed range is aligned.

  The invariant \<open>buddy_inv\<close> says that the free blocks are aligned, inside the managed range and
  disjoint, and that the flag and the order stored in a page tell exactly which list it is on. Under
  it allocating and freeing implement taking a block out of a set of frames and putting it back.
\<close>

section \<open>Pages and zones\<close>

definition PAGE_SHIFT :: nat where "PAGE_SHIFT = 22"
definition PAGE_SIZE :: u64 where "PAGE_SIZE = 2 ^ 22"
definition PAGE_MASK :: u64 where "PAGE_MASK = NOT (PAGE_SIZE - 1)"
definition PFN_UP :: "u64 \<Rightarrow> u64" where "PFN_UP x = drop_bit PAGE_SHIFT (x + PAGE_SIZE - 1)"
definition PFN_DOWN :: "u64 \<Rightarrow> u64" where "PFN_DOWN x = drop_bit PAGE_SHIFT x"
definition PFN_PHYS :: "u64 \<Rightarrow> u64" where "PFN_PHYS x = push_bit PAGE_SHIFT x"
definition PHYS_PFN :: "u64 \<Rightarrow> u64" where "PHYS_PFN x = drop_bit PAGE_SHIFT x"

definition c_FPGA_MEMORY_MAP_DATA_START :: u64 where "c_FPGA_MEMORY_MAP_DATA_START = 0x40000000"
definition c_FPGA_MEMORY_MAP_DATA_END :: u64 where "c_FPGA_MEMORY_MAP_DATA_END = 0x80000000"
definition FPGA_MEMORY_MAP_MAPPING_BASE :: u64 where "FPGA_MEMORY_MAP_MAPPING_BASE = 0x500000000"

definition MAX_ORDER :: nat where "MAX_ORDER = 1"
definition START_PFN :: nat where "START_PFN = unat (PHYS_PFN c_FPGA_MEMORY_MAP_DATA_START)"
definition MAX_PFN :: nat where "MAX_PFN = unat (PHYS_PFN c_FPGA_MEMORY_MAP_DATA_END)"

lemma pfn_bounds [simp]: "START_PFN = 256" "MAX_PFN = 512"
  by (simp_all add: START_PFN_def MAX_PFN_def PHYS_PFN_def PAGE_SHIFT_def c_FPGA_MEMORY_MAP_DATA_START_def c_FPGA_MEMORY_MAP_DATA_END_def)

record free_area =
  fa_list :: "nat list"
  fa_nr :: u64

record page =
  pg_flags :: u64
  pg_private :: nat

record fpga_zone =
  z_area :: "free_area list"
  page_map :: "nat \<Rightarrow> page"
  z_nr_free :: u64

definition upd_area :: "nat \<Rightarrow> (free_area \<Rightarrow> free_area) \<Rightarrow> fpga_zone \<Rightarrow> fpga_zone" where
  "upd_area ord f z = z\<lparr>z_area := (z_area z)[ord := f (z_area z ! ord)]\<rparr>"

definition upd_page :: "nat \<Rightarrow> (page \<Rightarrow> page) \<Rightarrow> fpga_zone \<Rightarrow> fpga_zone" where
  "upd_page p f z = z\<lparr>page_map := (page_map z)(p := f (page_map z p))\<rparr>"

definition PageBuddy :: "page \<Rightarrow> bool" where "PageBuddy p \<longleftrightarrow> bit (pg_flags p) 0"
definition SetPageBuddy :: "page \<Rightarrow> page" where "SetPageBuddy p = p\<lparr>pg_flags := pg_flags p OR 1\<rparr>"
definition ClearPageBuddy :: "page \<Rightarrow> page" where "ClearPageBuddy p = p\<lparr>pg_flags := pg_flags p AND NOT 1\<rparr>"

definition page_order :: "page \<Rightarrow> nat" where "page_order p = pg_private p"

definition set_page_order :: "nat \<Rightarrow> nat \<Rightarrow> fpga_zone \<Rightarrow> fpga_zone" where
  "set_page_order p ord = upd_page p (\<lambda>x. SetPageBuddy (x\<lparr>pg_private := ord\<rparr>))"

definition rmv_page_order :: "nat \<Rightarrow> fpga_zone \<Rightarrow> fpga_zone" where
  "rmv_page_order p = upd_page p (\<lambda>x. (ClearPageBuddy x)\<lparr>pg_private := 0\<rparr>)"

definition pfn_to_page :: "nat \<Rightarrow> nat option" where
  "pfn_to_page pfn = (if MAX_PFN \<le> pfn \<or> pfn < START_PFN then None else Some pfn)"

definition page_to_pfn :: "nat \<Rightarrow> nat option" where
  "page_to_pfn page = (if MAX_PFN \<le> page \<or> page < START_PFN then None else Some page)"

definition pfn_to_soc_va :: "u64 \<Rightarrow> nat \<Rightarrow> u64 option" where
  "pfn_to_soc_va start_va pfn = (if MAX_PFN \<le> pfn \<or> pfn < START_PFN then None else Some (start_va + of_nat pfn * PAGE_SIZE))"

definition page_to_soc_va :: "u64 \<Rightarrow> nat \<Rightarrow> u64 option" where
  "page_to_soc_va soc_va page = do { pfn \<leftarrow> page_to_pfn page; pfn_to_soc_va soc_va pfn }"


definition c_get_order :: "u64 \<Rightarrow> nat" where
  "c_get_order sz = (let sz = sz - 1; sz = drop_bit PAGE_SHIFT sz in fls64 sz)"

section \<open>Freeing\<close>

definition c_find_buddy_index :: "nat \<Rightarrow> nat \<Rightarrow> nat" where
  "c_find_buddy_index page_idx ord = page_idx XOR (2 ^ ord)"

definition page_is_buddy :: "fpga_zone \<Rightarrow> nat \<Rightarrow> nat \<Rightarrow> bool" where
  "page_is_buddy z buddy ord \<longleftrightarrow> PageBuddy (page_map z buddy) \<and> page_order (page_map z buddy) = ord"

text \<open>The merging loop of \<^verbatim>\<open>__free_one_page\<close>: the zone, the page and the order it ends with.\<close>

function free_merge :: "nat \<Rightarrow> fpga_zone \<Rightarrow> nat \<Rightarrow> nat \<Rightarrow> nat \<Rightarrow> fpga_zone \<times> nat \<times> nat" where
  "free_merge mo z page page_idx ord = (
     if ord < mo - 1 then
       let buddy_idx = c_find_buddy_index page_idx ord;
           buddy = page + buddy_idx - page_idx in
       if \<not> page_is_buddy z buddy ord then (z, page, ord)
       else
         let z = upd_area ord (\<lambda>a. a\<lparr>fa_list := remove1 buddy (fa_list a), fa_nr := fa_nr a - 1\<rparr>) z;
             z = rmv_page_order buddy z;
             combined_idx = buddy_idx AND page_idx
         in free_merge mo z (page + combined_idx - page_idx) combined_idx (ord + 1)
     else (z, page, ord))"
  by pat_completeness auto
termination by (relation "measure (\<lambda>(mo, z, page, idx, ord). mo - ord)") auto

declare free_merge.simps [simp del]

definition c_free_one_page :: "nat \<Rightarrow> fpga_zone \<Rightarrow> nat \<Rightarrow> nat \<Rightarrow> nat \<Rightarrow> fpga_zone" where
  "c_free_one_page mo z page pfn ord = (
     let page_idx = pfn AND (2 ^ mo - 1);
         (z, page, ord) = free_merge mo z page page_idx ord;
         z = set_page_order page ord z
     in upd_area ord (\<lambda>a. a\<lparr>fa_list := page # fa_list a, fa_nr := fa_nr a + 1\<rparr>) z)"

definition free_pages_check :: "fpga_zone \<Rightarrow> nat \<Rightarrow> nat" where
  "free_pages_check z page = (if PageBuddy (page_map z page) then 1 else 0)"

definition free_pages_prepare :: "fpga_zone \<Rightarrow> nat \<Rightarrow> nat \<Rightarrow> bool" where
  "free_pages_prepare z page ord = (
     let bad = (if ord \<noteq> 0 then sum_list (map (\<lambda>i. free_pages_check z (page + i)) [1..<2 ^ ord]) else 0);
         bad = bad + free_pages_check z page
     in if bad \<noteq> 0 then True else False)"

definition free_one_page :: "nat \<Rightarrow> nat \<Rightarrow> nat \<Rightarrow> nat \<Rightarrow> fpga_zone \<Rightarrow> fpga_zone" where
  "free_one_page mo page pfn ord z = (if free_pages_prepare z page ord then z else c_free_one_page mo z page pfn ord)"

definition free_pfn :: "nat \<Rightarrow> nat \<Rightarrow> nat \<Rightarrow> fpga_zone \<Rightarrow> fpga_zone option" where
  "free_pfn mo pfn ord z = do { page \<leftarrow> pfn_to_page pfn; Some (free_one_page mo page pfn ord z) }"

definition free_page :: "nat \<Rightarrow> nat \<Rightarrow> nat \<Rightarrow> fpga_zone \<Rightarrow> fpga_zone option" where
  "free_page mo page ord z = do { pfn \<leftarrow> page_to_pfn page; Some (free_one_page mo page pfn ord z) }"

section \<open>Allocating\<close>

fun expand :: "fpga_zone \<Rightarrow> nat \<Rightarrow> nat \<Rightarrow> nat \<Rightarrow> fpga_zone" where
  "expand z page low 0 = z"
| "expand z page low (Suc high) = (
     if low < Suc high then
       let sz = 2 ^ high;
           z = upd_area high (\<lambda>a. a\<lparr>fa_list := (page + sz) # fa_list a, fa_nr := fa_nr a + 1\<rparr>) z;
           z = set_page_order (page + sz) high z
       in expand z page low high
     else z)"

function rmqueue_from :: "nat \<Rightarrow> nat \<Rightarrow> nat \<Rightarrow> fpga_zone \<Rightarrow> nat option \<times> fpga_zone" where
  "rmqueue_from mo ord cur z = (
     if cur < mo then
       case fa_list (z_area z ! cur) of
         [] \<Rightarrow> rmqueue_from mo ord (cur + 1) z
       | page # _ \<Rightarrow>
         let z = upd_area cur (\<lambda>a. a\<lparr>fa_list := remove1 page (fa_list a)\<rparr>) z;
             z = rmv_page_order page z;
             z = upd_area cur (\<lambda>a. a\<lparr>fa_nr := fa_nr a - 1\<rparr>) z
         in (Some page, expand z page ord cur)
     else (None, z))"
  by pat_completeness auto
termination by (relation "measure (\<lambda>(mo, ord, cur, z). mo - cur)") auto

declare rmqueue_from.simps [simp del]

definition rmqueue :: "nat \<Rightarrow> nat \<Rightarrow> fpga_zone \<Rightarrow> nat option \<times> fpga_zone" where
  "rmqueue mo ord z = rmqueue_from mo ord ord z"

definition alloc_page :: "nat \<Rightarrow> nat \<Rightarrow> fpga_zone \<Rightarrow> nat option \<times> fpga_zone" where
  "alloc_page mo ord z = (
     if mo \<le> ord then (None, z)
     else let (page, z) = rmqueue mo ord z in
       case page of Some p \<Rightarrow> (page, upd_page p (\<lambda>x. x\<lparr>pg_private := 0\<rparr>) z)
       | None \<Rightarrow> (page, z))"

definition alloc_pfn :: "nat \<Rightarrow> nat \<Rightarrow> fpga_zone \<Rightarrow> (nat \<times> fpga_zone) option" where
  "alloc_pfn mo ord z = (
     let (page, z) = alloc_page mo ord z in
     case page of Some p \<Rightarrow> do { pfn \<leftarrow> page_to_pfn p; Some (pfn, z) }
     | None \<Rightarrow> Some (0, z))"

section \<open>Start up\<close>

primrec adjust_order :: "nat \<Rightarrow> nat \<Rightarrow> nat \<Rightarrow> nat" where
  "adjust_order start_pfn end_pfn 0 = 0"
| "adjust_order start_pfn end_pfn (Suc ord) =
     (if end_pfn < start_pfn + 2 ^ Suc ord then adjust_order start_pfn end_pfn ord else Suc ord)"

function initial_free_loop :: "nat \<Rightarrow> nat \<Rightarrow> nat \<Rightarrow> fpga_zone \<Rightarrow> fpga_zone option" where
  "initial_free_loop mo start_pfn end_pfn z = (
     if start_pfn < end_pfn then
       let ord = min (mo - 1) (c_ffs (of_nat start_pfn));
           ord = adjust_order start_pfn end_pfn ord
       in do {
         page \<leftarrow> pfn_to_page start_pfn;
         z \<leftarrow> free_page mo page ord z;
         initial_free_loop mo (start_pfn + 2 ^ ord) end_pfn z }
     else Some z)"
  by pat_completeness auto
termination by (relation "measure (\<lambda>(mo, s, e, z). e - s)") (auto simp: Let_def intro!: diff_less_mono2)

declare initial_free_loop.simps [simp del]

definition initial_free_pages :: "nat \<Rightarrow> u64 \<Rightarrow> u64 \<Rightarrow> fpga_zone \<Rightarrow> fpga_zone option" where
  "initial_free_pages mo start_pa end_pa z = (
     let start_pfn = unat (PFN_UP start_pa); end_pfn = unat (PFN_DOWN end_pa) in
     if end_pfn < start_pfn then None else initial_free_loop mo start_pfn end_pfn z)"

text \<open>\<open>mem\<close> is what the allocated \<^verbatim>\<open>page_map\<close> contains, if the allocation succeeds; it is not cleared.\<close>

definition init_buddy :: "nat \<Rightarrow> bool \<Rightarrow> (nat \<Rightarrow> page) option \<Rightarrow> (int \<times> fpga_zone option) option" where
  "init_buddy mo zone_ok mem = (
     if \<not> zone_ok then Some (- ENOMEM, None)
     else case mem of None \<Rightarrow> Some (- ENOMEM, None)
       | Some pm \<Rightarrow> do {
         z \<leftarrow> initial_free_pages mo c_FPGA_MEMORY_MAP_DATA_START c_FPGA_MEMORY_MAP_DATA_END
                \<lparr>z_area = replicate mo \<lparr>fa_list = [], fa_nr = 0\<rparr>, page_map = pm, z_nr_free = 0\<rparr>;
         Some (0, Some z) })"

section \<open>Blocks\<close>

text \<open>A block of order \<open>ord\<close> starts at a multiple of its size.\<close>

definition block :: "nat \<Rightarrow> nat \<Rightarrow> nat set" where
  "block p ord = {p..<p + 2 ^ ord}"

lemma in_block [simp]: "x \<in> block p ord \<longleftrightarrow> p \<le> x \<and> x < p + 2 ^ ord"
  by (auto simp: block_def)

lemma block_start: "p \<in> block p ord" by simp

lemma block_mono: "ord \<le> ord' \<Longrightarrow> block p ord \<subseteq> block p ord'"
  unfolding block_def by (intro ivl_subset [THEN iffD2] disjI2 conjI add_left_mono power_increasing) auto

lemma block_split: "block p (Suc ord) = block p ord \<union> block (p + 2 ^ ord) ord"
  by (auto simp: block_def)

text \<open>The buddy of an aligned frame is its neighbour of the same size, on the side that completes a
  block of the next order.\<close>

lemma xor_pow2:
  fixes n :: nat
  assumes "2 ^ k dvd n"
  shows "n XOR 2 ^ k = (if odd (n div 2 ^ k) then n - 2 ^ k else n + 2 ^ k)"
    and "(n XOR 2 ^ k) AND n = (if odd (n div 2 ^ k) then n - 2 ^ k else n)"
proof -
  obtain m where n: "n = 2 ^ k * m" using assms by (auto elim: dvdE)
  have p: "push_bit k x = 2 ^ k * x" for x :: nat by (simp add: push_bit_eq_mult mult.commute)
  have x: "n XOR 2 ^ k = 2 ^ k * (m XOR 1)"
    using push_bit_xor [of k m 1, symmetric] by (simp only: p n mult_1_right)
  have a: "(n XOR 2 ^ k) AND n = 2 ^ k * ((m XOR 1) AND m)"
    using push_bit_and [of k "m XOR 1" m, symmetric] unfolding x by (simp only: p n)
  have m1: "m XOR 1 = (if odd m then m - 1 else m + 1)" by (simp add: xor_Suc_0_eq)
  have "(m XOR 1) AND m = (if odd m then m - 1 else m)"
  proof (rule bit_eqI)
    fix i
    have "bit ((m XOR 1) AND m) i \<longleftrightarrow> bit m i \<and> i \<noteq> 0" by (auto simp: bit_and_iff bit_xor_iff bit_1_iff simp del: One_nat_def)
    moreover have "bit (if odd m then m - 1 else m) i \<longleftrightarrow> bit m i \<and> i \<noteq> 0"
      by (cases i) (auto simp: bit_0 bit_Suc elim!: oddE)
    ultimately show "bit ((m XOR 1) AND m) i \<longleftrightarrow> bit (if odd m then m - 1 else m) i" by simp
  qed
  then show "(n XOR 2 ^ k) AND n = (if odd (n div 2 ^ k) then n - 2 ^ k else n)"
    using a n by (simp add: right_diff_distrib')
  show "n XOR 2 ^ k = (if odd (n div 2 ^ k) then n - 2 ^ k else n + 2 ^ k)"
    using x m1 n by (simp add: right_diff_distrib' distrib_left)
qed

lemma buddy_frame:
  assumes "2 ^ ord dvd page" "idx = page mod 2 ^ mo" "ord < mo"
  shows "page + c_find_buddy_index idx ord - idx = (if odd (page div 2 ^ ord) then page - 2 ^ ord else page + 2 ^ ord)"
    and "page + (c_find_buddy_index idx ord AND idx) - idx = (if odd (page div 2 ^ ord) then page - 2 ^ ord else page)"
    and "c_find_buddy_index idx ord AND idx = (if odd (page div 2 ^ ord) then page - 2 ^ ord else page) mod 2 ^ mo"
proof -
  have d: "2 ^ ord dvd idx" using assms by (simp add: dvd_mod le_imp_power_dvd)
  have o: "odd (idx div 2 ^ ord) \<longleftrightarrow> odd (page div 2 ^ ord)"
    using assms(2,3) bit_take_bit_iff [of mo page ord] by (simp add: bit_iff_odd take_bit_eq_mod)
  have le: "idx \<le> page" using assms(2) by simp
  have ge: "2 ^ ord \<le> idx" if "odd (idx div 2 ^ ord)"
    using that by (metis div_less even_zero linorder_not_less)
  note x = xor_pow2 [OF d, folded c_find_buddy_index_def]
  show "page + c_find_buddy_index idx ord - idx = (if odd (page div 2 ^ ord) then page - 2 ^ ord else page + 2 ^ ord)"
    using le ge o by (simp add: x)
  show "page + (c_find_buddy_index idx ord AND idx) - idx = (if odd (page div 2 ^ ord) then page - 2 ^ ord else page)"
    unfolding x(2) using le ge o by simp
  have "idx - 2 ^ ord = (page - 2 ^ ord) mod 2 ^ mo" if "odd (idx div 2 ^ ord)"
  proof -
    have "page = 2 ^ mo * (page div 2 ^ mo) + idx" using assms(2) by simp
    then have "page - 2 ^ ord = 2 ^ mo * (page div 2 ^ mo) + (idx - 2 ^ ord)" using ge [OF that] by simp
    moreover have "idx - 2 ^ ord < 2 ^ mo" using assms(2) by (simp add: less_imp_diff_less)
    ultimately show ?thesis by (metis mod_mult_self2 mod_less add.commute)
  qed
  then show "c_find_buddy_index idx ord AND idx = (if odd (page div 2 ^ ord) then page - 2 ^ ord else page) mod 2 ^ mo"
    unfolding x(2) using o assms(2) by simp
qed

section \<open>The invariant\<close>

definition fblocks :: "fpga_zone \<Rightarrow> (nat \<times> nat) set" where
  "fblocks z = {(p, ord). ord < length (z_area z) \<and> p \<in> set (fa_list (z_area z ! ord))}"

definition free_frames :: "fpga_zone \<Rightarrow> nat set" where
  "free_frames z = (\<Union>(p, ord) \<in> fblocks z. block p ord)"

definition buddy_inv :: "nat \<Rightarrow> fpga_zone \<Rightarrow> bool" where
  "buddy_inv mo z \<longleftrightarrow> length (z_area z) = mo
     \<and> (\<forall>a \<in> set (z_area z). distinct (fa_list a) \<and> fa_nr a = of_nat (length (fa_list a)))
     \<and> (\<forall>(p, ord) \<in> fblocks z. 2 ^ ord dvd p \<and> START_PFN \<le> p \<and> p + 2 ^ ord \<le> MAX_PFN)
     \<and> (\<forall>b \<in> fblocks z. \<forall>c \<in> fblocks z. b \<noteq> c \<longrightarrow> block (fst b) (snd b) \<inter> block (fst c) (snd c) = {})
     \<and> (\<forall>p ord. START_PFN \<le> p \<and> p < MAX_PFN \<longrightarrow>
          ((p, ord) \<in> fblocks z \<longleftrightarrow> PageBuddy (page_map z p) \<and> page_order (page_map z p) = ord))"

lemma buddy_invD:
  assumes "buddy_inv mo z"
  shows "length (z_area z) = mo"
    "ord < mo \<Longrightarrow> distinct (fa_list (z_area z ! ord)) \<and> fa_nr (z_area z ! ord) = of_nat (length (fa_list (z_area z ! ord)))"
    "(p, ord) \<in> fblocks z \<Longrightarrow> 2 ^ ord dvd p \<and> START_PFN \<le> p \<and> p + 2 ^ ord \<le> MAX_PFN"
    "(p, ord) \<in> fblocks z \<Longrightarrow> (q, ord') \<in> fblocks z \<Longrightarrow> (p, ord) \<noteq> (q, ord') \<Longrightarrow> block p ord \<inter> block q ord' = {}"
    "START_PFN \<le> p \<Longrightarrow> p < MAX_PFN \<Longrightarrow>
       (p, ord) \<in> fblocks z \<longleftrightarrow> PageBuddy (page_map z p) \<and> page_order (page_map z p) = ord"
proof -
  show "(p, ord) \<in> fblocks z \<Longrightarrow> (q, ord') \<in> fblocks z \<Longrightarrow> (p, ord) \<noteq> (q, ord') \<Longrightarrow> block p ord \<inter> block q ord' = {}"
    using assms unfolding buddy_inv_def by (metis fst_conv snd_conv)
qed (use assms in \<open>auto simp: buddy_inv_def dest: nth_mem\<close>)

text \<open>The two changes of the free lists.\<close>

definition push_block :: "nat \<Rightarrow> nat \<Rightarrow> fpga_zone \<Rightarrow> fpga_zone" where
  "push_block p ord z = upd_area ord (\<lambda>a. a\<lparr>fa_list := p # fa_list a, fa_nr := fa_nr a + 1\<rparr>) (set_page_order p ord z)"

definition pop_block :: "nat \<Rightarrow> nat \<Rightarrow> fpga_zone \<Rightarrow> fpga_zone" where
  "pop_block p ord z = rmv_page_order p (upd_area ord (\<lambda>a. a\<lparr>fa_list := remove1 p (fa_list a), fa_nr := fa_nr a - 1\<rparr>) z)"

lemma page_flag_simps [simp]:
  "PageBuddy (SetPageBuddy p)" "\<not> PageBuddy (ClearPageBuddy p)"
  "PageBuddy (p\<lparr>pg_private := n\<rparr>) = PageBuddy p"
  "pg_private (SetPageBuddy p) = pg_private p"
  by (simp_all add: PageBuddy_def SetPageBuddy_def ClearPageBuddy_def bit_or_iff bit_and_iff bit_not_iff)

lemma push_block_simps:
  "length (z_area (push_block p ord z)) = length (z_area z)"
  "ord < length (z_area z) \<Longrightarrow> z_area (push_block p ord z) = (z_area z)[ord := (z_area z ! ord)\<lparr>fa_list := p # fa_list (z_area z ! ord), fa_nr := fa_nr (z_area z ! ord) + 1\<rparr>]"
  "PageBuddy (page_map (push_block p ord z) q) \<longleftrightarrow> q = p \<or> PageBuddy (page_map z q)"
  "page_order (page_map (push_block p ord z) q) = (if q = p then ord else page_order (page_map z q))"
  by (simp_all add: push_block_def set_page_order_def upd_area_def upd_page_def page_order_def)

lemma pop_block_simps:
  "length (z_area (pop_block p ord z)) = length (z_area z)"
  "ord < length (z_area z) \<Longrightarrow> z_area (pop_block p ord z) = (z_area z)[ord := (z_area z ! ord)\<lparr>fa_list := remove1 p (fa_list (z_area z ! ord)), fa_nr := fa_nr (z_area z ! ord) - 1\<rparr>]"
  "PageBuddy (page_map (pop_block p ord z) q) \<longleftrightarrow> q \<noteq> p \<and> PageBuddy (page_map z q)"
  "q \<noteq> p \<Longrightarrow> page_order (page_map (pop_block p ord z) q) = page_order (page_map z q)"
  by (simp_all add: pop_block_def rmv_page_order_def upd_area_def upd_page_def page_order_def)

lemma fblocks_push: "ord < length (z_area z) \<Longrightarrow> fblocks (push_block p ord z) = insert (p, ord) (fblocks z)"
  by (auto simp: fblocks_def push_block_simps nth_list_update split: if_splits)

lemma fblocks_pop:
  "ord < length (z_area z) \<Longrightarrow> distinct (fa_list (z_area z ! ord)) \<Longrightarrow> fblocks (pop_block p ord z) = fblocks z - {(p, ord)}"
  by (auto simp: fblocks_def pop_block_simps nth_list_update split: if_splits)

lemma free_frames_push: "ord < length (z_area z) \<Longrightarrow> free_frames (push_block p ord z) = free_frames z \<union> block p ord"
  by (auto simp: free_frames_def fblocks_push)

lemma free_frames_pop:
  assumes "buddy_inv mo z" "(p, ord) \<in> fblocks z"
  shows "free_frames (pop_block p ord z) = free_frames z - block p ord"
proof -
  have o: "ord < length (z_area z)" "distinct (fa_list (z_area z ! ord))"
    using assms buddy_invD(1,2) [OF assms(1)] by (auto simp: fblocks_def)
  have "block q ord' \<inter> block p ord = {}" if "(q, ord') \<in> fblocks z - {(p, ord)}" for q ord'
    using that buddy_invD(4) [OF assms(1) _ assms(2)] by blast
  then show ?thesis unfolding free_frames_def fblocks_pop [OF o] using assms(2) by fast
qed

lemma push_block_inv:
  assumes "buddy_inv mo z" "ord < mo" "2 ^ ord dvd p" "START_PFN \<le> p" "p + 2 ^ ord \<le> MAX_PFN" "block p ord \<inter> free_frames z = {}"
  shows "buddy_inv mo (push_block p ord z)"
proof -
  have o: "ord < length (z_area z)" using assms(2) buddy_invD(1) [OF assms(1)] by simp
  have fresh: "(p, ord') \<notin> fblocks z" for ord'
    using assms(6) block_start [of p] unfolding free_frames_def by fastforce
  have dis: "block p ord \<inter> block q ord' = {}" if "(q, ord') \<in> fblocks z" for q ord'
    using that assms(6) unfolding free_frames_def by fast
  have "distinct (fa_list a) \<and> fa_nr a = of_nat (length (fa_list a))" if am: "a \<in> set (z_area (push_block p ord z))" for a
  proof -
    obtain i where "i < length (z_area (push_block p ord z))" and a: "a = z_area (push_block p ord z) ! i"
      using am by (auto simp only: in_set_conv_nth)
    then have i: "i < mo" using buddy_invD(1) [OF assms(1)] by (simp add: push_block_simps(1))
    have "p \<notin> set (fa_list (z_area z ! ord))" using fresh [of ord] o by (simp add: fblocks_def)
    then show ?thesis using i a buddy_invD(1,2) [OF assms(1)] o by (cases "i = ord") (auto simp: push_block_simps(2) [OF o])
  qed
  moreover have "\<forall>(q, ord') \<in> fblocks (push_block p ord z). 2 ^ ord' dvd q \<and> START_PFN \<le> q \<and> q + 2 ^ ord' \<le> MAX_PFN"
    using assms(3-5) buddy_invD(3) [OF assms(1)] by (auto simp only: fblocks_push [OF o])
  moreover have "\<forall>b \<in> fblocks (push_block p ord z). \<forall>c \<in> fblocks (push_block p ord z). b \<noteq> c \<longrightarrow> block (fst b) (snd b) \<inter> block (fst c) (snd c) = {}"
    unfolding fblocks_push [OF o]
  proof (intro ballI impI)
    fix b c assume "b \<in> insert (p, ord) (fblocks z)" "c \<in> insert (p, ord) (fblocks z)" "b \<noteq> c"
    then show "block (fst b) (snd b) \<inter> block (fst c) (snd c) = {}"
      using dis buddy_invD(4) [OF assms(1)] by (cases b; cases c) (metis Int_commute fst_conv insert_iff snd_conv)
  qed
  moreover have "(q, ord') \<in> fblocks (push_block p ord z) \<longleftrightarrow> PageBuddy (page_map (push_block p ord z) q) \<and> page_order (page_map (push_block p ord z) q) = ord'"
    if "START_PFN \<le> q" "q < MAX_PFN" for q ord'
    using buddy_invD(5) [OF assms(1) that] fresh unfolding fblocks_push [OF o] push_block_simps(3,4) by auto
  ultimately show ?thesis unfolding buddy_inv_def using buddy_invD(1) [OF assms(1)] by (simp add: push_block_simps(1))
qed

lemma pop_block_inv:
  assumes "buddy_inv mo z" "(p, ord) \<in> fblocks z"
  shows "buddy_inv mo (pop_block p ord z)"
proof -
  have o: "ord < length (z_area z)" "distinct (fa_list (z_area z ! ord))" "p \<in> set (fa_list (z_area z ! ord))"
    using assms buddy_invD(1,2) [OF assms(1)] by (auto simp: fblocks_def)
  note fp = fblocks_pop [OF o(1,2)]
  have "distinct (fa_list a) \<and> fa_nr a = of_nat (length (fa_list a))" if am: "a \<in> set (z_area (pop_block p ord z))" for a
  proof -
    obtain i where "i < length (z_area (pop_block p ord z))" and a: "a = z_area (pop_block p ord z) ! i"
      using am by (auto simp only: in_set_conv_nth)
    then have i: "i < mo" using buddy_invD(1) [OF assms(1)] by (simp add: pop_block_simps(1))
    have "Suc 0 \<le> length (fa_list (z_area z ! ord))" using o(3) by (cases "fa_list (z_area z ! ord)") auto
    then have "of_nat (length (fa_list (z_area z ! ord)) - Suc 0) = of_nat (length (fa_list (z_area z ! ord))) - (1 :: u64)"
      by (simp add: of_nat_diff)
    then show ?thesis using i a buddy_invD(1,2) [OF assms(1)] o
      by (cases "i = ord") (auto simp: pop_block_simps(2) [OF o(1)] length_remove1)
  qed
  moreover have "\<forall>(q, ord') \<in> fblocks (pop_block p ord z). 2 ^ ord' dvd q \<and> START_PFN \<le> q \<and> q + 2 ^ ord' \<le> MAX_PFN"
    using buddy_invD(3) [OF assms(1)] by (auto simp only: fp)
  moreover have "\<forall>b \<in> fblocks (pop_block p ord z). \<forall>c \<in> fblocks (pop_block p ord z). b \<noteq> c \<longrightarrow> block (fst b) (snd b) \<inter> block (fst c) (snd c) = {}"
    unfolding fp using assms(1) unfolding buddy_inv_def by blast
  moreover have "(q, ord') \<in> fblocks (pop_block p ord z) \<longleftrightarrow> PageBuddy (page_map (pop_block p ord z) q) \<and> page_order (page_map (pop_block p ord z) q) = ord'"
    if "START_PFN \<le> q" "q < MAX_PFN" for q ord'
  proof (cases "q = p")
    case True
    then have "ord' = ord" if "(q, ord') \<in> fblocks z"
      using that buddy_invD(5) [OF assms(1) \<open>START_PFN \<le> q\<close> \<open>q < MAX_PFN\<close>] assms(2) by auto
    then show ?thesis using True by (auto simp: fp pop_block_simps(3))
  next
    case False
    then show ?thesis using buddy_invD(5) [OF assms(1) that] by (simp add: fp pop_block_simps(3,4))
  qed
  ultimately show ?thesis unfolding buddy_inv_def using buddy_invD(1) [OF assms(1)] by (simp add: pop_block_simps(1))
qed

section \<open>Freeing puts the frames back\<close>

text \<open>
  The merging loop keeps the invariant and the union of the free frames and the block it carries. The
  range has to be aligned for the largest block, so that a buddy is never outside of it.
\<close>

lemma merged_block:
  assumes "2 ^ ord dvd (p :: nat)" "q = (if odd (p div 2 ^ ord) then p - 2 ^ ord else p)" "b = (if odd (p div 2 ^ ord) then p - 2 ^ ord else p + 2 ^ ord)"
  shows "block q (Suc ord) = block p ord \<union> block b ord" "2 ^ Suc ord dvd q" "2 ^ ord dvd b"
proof -
  obtain m where p: "p = 2 ^ ord * m" using assms(1) by (auto elim: dvdE)
  have d: "p div 2 ^ ord = m" by (simp add: p)
  have "2 ^ ord \<le> p" if "odd m" using that by (cases m) (auto simp: p)
  then have "block (p - 2 ^ ord) (Suc ord) = block p ord \<union> block (p - 2 ^ ord) ord" if "odd m"
    using that block_split [of "p - 2 ^ ord" ord] by auto
  then show "block q (Suc ord) = block p ord \<union> block b ord"
    using assms(2,3) block_split [of p ord] unfolding d by simp
  show "2 ^ Suc ord dvd q"
  proof (cases "odd m")
    case True
    then obtain k where "m = 2 * k + 1" by (elim oddE)
    then have "q = 2 ^ Suc ord * k" using assms(2) True p by simp
    then show ?thesis by simp
  next
    case False
    then obtain k where "m = 2 * k" by auto
    then have "q = 2 ^ Suc ord * k" using assms(2) False p by simp
    then show ?thesis by simp
  qed
  show "2 ^ ord dvd b" using assms(3) p by (auto simp: dvd_diff_nat)
qed

lemma aligned_le: "(k :: nat) dvd a \<Longrightarrow> k dvd c \<Longrightarrow> a < c + k \<Longrightarrow> a \<le> c"
  by (auto elim!: dvdE) (metis mult_Suc_right less_Suc_eq_le add.commute mult_le_mono2 mult_less_cancel1)

lemma free_merge_spec:
  assumes "buddy_inv mo z" "ord < mo" "2 ^ (mo - 1) dvd START_PFN" "2 ^ (mo - 1) dvd MAX_PFN" "idx = p mod 2 ^ mo"
    "2 ^ ord dvd p" "START_PFN \<le> p" "p + 2 ^ ord \<le> MAX_PFN" "block p ord \<inter> free_frames z = {}"
  shows "\<exists>z' p' ord'. free_merge mo z p idx ord = (z', p', ord') \<and> buddy_inv mo z' \<and> ord' < mo \<and> 2 ^ ord' dvd p'
    \<and> START_PFN \<le> p' \<and> p' + 2 ^ ord' \<le> MAX_PFN \<and> block p' ord' \<inter> free_frames z' = {}
    \<and> free_frames z' \<union> block p' ord' = free_frames z \<union> block p ord"
  using assms
proof (induction "mo - ord" arbitrary: z p idx ord)
  case (Suc n)
  define b where "b = (if odd (p div 2 ^ ord) then p - 2 ^ ord else p + 2 ^ ord)"
  define q where "q = (if odd (p div 2 ^ ord) then p - 2 ^ ord else p)"
  note bf = buddy_frame [OF Suc.prems(6,5,2), folded b_def q_def]
  have bf2: "p + q mod 2 ^ mo - idx = q" using bf(2) unfolding bf(3) .
  note mb = merged_block [OF Suc.prems(6) q_def b_def]
  show ?case
  proof (cases "ord < mo - 1 \<and> page_is_buddy z b ord")
    case False
    then have "free_merge mo z p idx ord = (z, p, ord)"
      by (subst free_merge.simps) (auto simp: Let_def bf)
    then show ?thesis using Suc.prems by simp
  next
    case True
    let ?z = "pop_block b ord z"
    have e: "free_merge mo z p idx ord = free_merge mo ?z q (q mod 2 ^ mo) (Suc ord)"
      using True by (subst free_merge.simps) (simp add: Let_def bf(1,3) bf2 pop_block_def)
    have up: "2 ^ Suc ord dvd START_PFN" "2 ^ Suc ord dvd MAX_PFN"
      using True Suc.prems(3,4) by (meson Suc_leI dvd_trans le_imp_power_dvd)+
    have "p \<in> block q (Suc ord)" unfolding mb(1) using block_start [of p ord] by (rule UnI1)
    then have pq: "p < q + 2 ^ Suc ord" "q \<le> p" unfolding in_block by blast+
    have lo: "START_PFN \<le> q" by (rule aligned_le [OF up(1) mb(2)]) (use pq Suc.prems(7) in linarith)
    have hi: "q + 2 ^ Suc ord \<le> MAX_PFN"
      by (rule aligned_le [OF _ up(2)]) (use pq mb(2) Suc.prems(8) in auto)
    have rb: "START_PFN \<le> b" "b + 2 ^ ord \<le> MAX_PFN"
      using lo hi Suc.prems(7,8) by (auto simp: b_def q_def split: if_splits)
    then have "b < MAX_PFN" using less_le_trans [of b "b + 2 ^ ord" MAX_PFN] by simp
    then have fb: "(b, ord) \<in> fblocks z"
      using True buddy_invD(5) [OF Suc.prems(1) rb(1)] by (simp add: page_is_buddy_def)
    note inv = pop_block_inv [OF Suc.prems(1) fb] and ff = free_frames_pop [OF Suc.prems(1) fb]
    have sub: "block b ord \<subseteq> free_frames z" using fb unfolding free_frames_def by fast
    have "\<exists>z' p' ord'. free_merge mo ?z q (q mod 2 ^ mo) (Suc ord) = (z', p', ord') \<and> buddy_inv mo z' \<and> ord' < mo \<and> 2 ^ ord' dvd p'
      \<and> START_PFN \<le> p' \<and> p' + 2 ^ ord' \<le> MAX_PFN \<and> block p' ord' \<inter> free_frames z' = {}
      \<and> free_frames z' \<union> block p' ord' = free_frames ?z \<union> block q (Suc ord)"
    proof (rule Suc.hyps(1))
      show "n = mo - Suc ord" "Suc ord < mo" using Suc.hyps(2) True by auto
      show "block q (Suc ord) \<inter> free_frames ?z = {}" unfolding mb(1) ff using Suc.prems(9) by fast
    qed (use inv Suc.prems(3,4) mb(2) lo hi in simp_all)
    moreover have "free_frames ?z \<union> block q (Suc ord) = free_frames z \<union> block p ord"
      unfolding mb(1) ff using sub by blast
    ultimately show ?thesis unfolding e by simp
  qed
qed simp

lemma not_buddy:
  assumes "buddy_inv mo z" "START_PFN \<le> q" "q < MAX_PFN" "q \<notin> free_frames z"
  shows "\<not> PageBuddy (page_map z q)"
proof
  assume "PageBuddy (page_map z q)"
  then have "(q, page_order (page_map z q)) \<in> fblocks z" using buddy_invD(5) [OF assms(1-3)] by simp
  then have "q \<in> free_frames z" unfolding free_frames_def by fastforce
  with assms(4) show False by simp
qed

lemma free_one_page_spec:
  assumes "buddy_inv mo z" "ord < mo" "2 ^ (mo - 1) dvd START_PFN" "2 ^ (mo - 1) dvd MAX_PFN"
    "2 ^ ord dvd p" "START_PFN \<le> p" "p + 2 ^ ord \<le> MAX_PFN" "block p ord \<inter> free_frames z = {}"
  shows "buddy_inv mo (free_one_page mo p p ord z)" "free_frames (free_one_page mo p p ord z) = free_frames z \<union> block p ord"
proof -
  have nb: "free_pages_check z q = 0" if "q \<in> block p ord" for q
  proof -
    have "q \<notin> free_frames z" using that assms(8) by blast
    moreover have "START_PFN \<le> q" "q < MAX_PFN" using that assms(6,7) unfolding in_block by linarith+
    ultimately show ?thesis using not_buddy [OF assms(1)] by (simp add: free_pages_check_def)
  qed
  have "free_pages_check z p = 0" using nb [OF block_start] .
  moreover have "\<forall>i \<in> set [1..<2 ^ ord]. free_pages_check z (p + i) = 0" using nb by auto
  ultimately have prep: "\<not> free_pages_prepare z p ord"
    by (simp add: free_pages_prepare_def Let_def sum_list_eq_0_iff)
  have "p AND (2 ^ mo - 1) = p mod 2 ^ mo"
    using take_bit_eq_mask [of mo p] by (simp add: take_bit_eq_mod mask_eq_exp_minus_1)
  from free_merge_spec [OF assms(1-4) this assms(5-8)] obtain z' p' ord' where
    m: "free_merge mo z p (p AND (2 ^ mo - 1)) ord = (z', p', ord')" "buddy_inv mo z'" "ord' < mo" "2 ^ ord' dvd p'"
    "START_PFN \<le> p'" "p' + 2 ^ ord' \<le> MAX_PFN" "block p' ord' \<inter> free_frames z' = {}"
    "free_frames z' \<union> block p' ord' = free_frames z \<union> block p ord" by blast
  have f: "free_one_page mo p p ord z = push_block p' ord' z'"
    using prep m(1) by (simp add: free_one_page_def c_free_one_page_def push_block_def Let_def)
  show "buddy_inv mo (free_one_page mo p p ord z)" unfolding f by (rule push_block_inv [OF m(2-7)])
  show "free_frames (free_one_page mo p p ord z) = free_frames z \<union> block p ord"
    unfolding f using free_frames_push [of ord' z' p'] m(3,8) buddy_invD(1) [OF m(2)] by simp
qed

section \<open>Allocating takes the frames out\<close>

lemma upd_commute:
  "set_page_order p ord (upd_area ord' f z) = upd_area ord' f (set_page_order p ord z)"
  "upd_area ord g (rmv_page_order p z) = rmv_page_order p (upd_area ord g z)"
  by (cases z; simp add: set_page_order_def rmv_page_order_def upd_area_def upd_page_def)+

lemma expand_spec:
  assumes "buddy_inv mo z" "low \<le> high" "high < mo" "2 ^ high dvd p" "START_PFN \<le> p" "p + 2 ^ high \<le> MAX_PFN"
    "block p high \<inter> free_frames z = {}"
  shows "buddy_inv mo (expand z p low high) \<and> free_frames (expand z p low high) = free_frames z \<union> (block p high - block p low)"
  using assms
proof (induction high arbitrary: z)
  case (Suc high)
  show ?case
  proof (cases "low < Suc high")
    case True
    let ?z = "push_block (p + 2 ^ high) high z"
    have sp: "block p (Suc high) = block p high \<union> block (p + 2 ^ high) high" by (rule block_split)
    have dj: "block p high \<inter> block (p + 2 ^ high) high = {}" by auto
    have d: "2 ^ high dvd p" using Suc.prems(4) by (auto dest: dvd_mult_right)
    have h: "high < length (z_area z)" using Suc.prems(3) buddy_invD(1) [OF Suc.prems(1)] by simp
    have e: "expand z p low (Suc high) = expand ?z p low high"
      using True by (simp add: push_block_def upd_commute Let_def)
    have i: "buddy_inv mo ?z"
      by (rule push_block_inv [OF Suc.prems(1)]) (use Suc.prems d sp in auto)
    have f: "free_frames ?z = free_frames z \<union> block (p + 2 ^ high) high" by (rule free_frames_push [OF h])
    have dj': "block p high \<inter> free_frames ?z = {}" unfolding f using Suc.prems(7) sp dj by blast
    have "buddy_inv mo (expand ?z p low high) \<and> free_frames (expand ?z p low high) = free_frames ?z \<union> (block p high - block p low)"
      by (rule Suc.IH [OF i _ _ d Suc.prems(5) _ dj']) (use True Suc.prems(3,6) in auto)
    moreover have "block p low \<subseteq> block p high" using True by (intro block_mono) simp
    ultimately show ?thesis unfolding e f sp using dj by blast
  next
    case False
    then have "low = Suc high" using Suc.prems(2) by simp
    then show ?thesis using Suc.prems(1) by simp
  qed
qed simp

lemma rmqueue_from_spec:
  assumes "buddy_inv mo z" "ord \<le> cur"
  shows "case rmqueue_from mo ord cur z of
      (None, z') \<Rightarrow> z' = z \<and> (\<forall>p ord'. cur \<le> ord' \<longrightarrow> (p, ord') \<notin> fblocks z)
    | (Some p, z') \<Rightarrow> buddy_inv mo z' \<and> block p ord \<subseteq> free_frames z \<and> free_frames z' = free_frames z - block p ord
        \<and> 2 ^ ord dvd p \<and> START_PFN \<le> p \<and> p + 2 ^ ord \<le> MAX_PFN"
  using assms
proof (induction "mo - cur" arbitrary: cur)
  case 0
  then show ?case using buddy_invD(1) [OF 0(2)] by (subst rmqueue_from.simps) (auto simp: fblocks_def)
next
  case (Suc n)
  show ?case
  proof (cases "fa_list (z_area z ! cur)")
    case Nil
    have "rmqueue_from mo ord cur z = rmqueue_from mo ord (Suc cur) z"
      using Nil Suc.hyps(2) by (subst rmqueue_from.simps) auto
    moreover have "case rmqueue_from mo ord (Suc cur) z of
      (None, z') \<Rightarrow> z' = z \<and> (\<forall>p ord'. Suc cur \<le> ord' \<longrightarrow> (p, ord') \<notin> fblocks z)
    | (Some p, z') \<Rightarrow> buddy_inv mo z' \<and> block p ord \<subseteq> free_frames z \<and> free_frames z' = free_frames z - block p ord
        \<and> 2 ^ ord dvd p \<and> START_PFN \<le> p \<and> p + 2 ^ ord \<le> MAX_PFN"
      by (rule Suc.hyps(1) [OF _ Suc.prems(1)]) (use Suc.hyps(2) Suc.prems(2) in auto)
    moreover have "(p, cur) \<notin> fblocks z" for p using Nil by (simp add: fblocks_def)
    then have "(\<forall>p ord'. Suc cur \<le> ord' \<longrightarrow> (p, ord') \<notin> fblocks z) \<longleftrightarrow> (\<forall>p ord'. cur \<le> ord' \<longrightarrow> (p, ord') \<notin> fblocks z)"
      by (metis Suc_leD Suc_leI le_neq_implies_less)
    ultimately show ?thesis by (simp only:)
  next
    case (Cons p ps)
    let ?z = "pop_block p cur z"
    have c: "cur < length (z_area z)" using Suc.hyps(2) buddy_invD(1) [OF Suc.prems(1)] by simp
    then have fb: "(p, cur) \<in> fblocks z" using Cons by (simp add: fblocks_def)
    have "upd_area cur (\<lambda>a. a\<lparr>fa_nr := fa_nr a - 1\<rparr>) (rmv_page_order p (upd_area cur (\<lambda>a. a\<lparr>fa_list := remove1 p (fa_list a)\<rparr>) z)) = ?z"
      unfolding pop_block_def upd_commute(2) using c by (simp add: upd_area_def)
    then have e: "rmqueue_from mo ord cur z = (Some p, expand ?z p ord cur)"
      using Cons Suc.hyps(2) by (subst rmqueue_from.simps) (simp add: Let_def)
    have bd: "2 ^ cur dvd p" "START_PFN \<le> p" "p + 2 ^ cur \<le> MAX_PFN" using buddy_invD(3) [OF Suc.prems(1) fb] by auto
    have inv: "buddy_inv mo ?z" and ff: "free_frames ?z = free_frames z - block p cur"
      using pop_block_inv [OF Suc.prems(1) fb] free_frames_pop [OF Suc.prems(1) fb] by auto
    have x: "buddy_inv mo (expand ?z p ord cur) \<and> free_frames (expand ?z p ord cur) = free_frames ?z \<union> (block p cur - block p ord)"
      by (rule expand_spec [OF inv Suc.prems(2) _ bd]) (use Suc.hyps(2) ff in auto)
    have le: "(2 :: nat) ^ ord \<le> 2 ^ cur" using Suc.prems(2) by (intro power_increasing) auto
    have "block p ord \<subseteq> block p cur" by (rule block_mono [OF Suc.prems(2)])
    moreover have "block p cur \<subseteq> free_frames z" using fb unfolding free_frames_def by fast
    moreover have "2 ^ ord dvd p" using bd(1) Suc.prems(2) by (meson dvd_trans le_imp_power_dvd)
    moreover have "p + 2 ^ ord \<le> MAX_PFN" using bd(3) le by linarith
    ultimately show ?thesis unfolding e using x ff bd(2) by auto
  qed
qed

lemma alloc_page_spec:
  assumes "buddy_inv mo z"
  shows "case alloc_page mo ord z of
      (None, z') \<Rightarrow> z' = z \<and> (\<forall>p ord'. ord \<le> ord' \<longrightarrow> (p, ord') \<notin> fblocks z)
    | (Some p, z') \<Rightarrow> buddy_inv mo z' \<and> block p ord \<subseteq> free_frames z \<and> free_frames z' = free_frames z - block p ord
        \<and> 2 ^ ord dvd p \<and> START_PFN \<le> p \<and> p + 2 ^ ord \<le> MAX_PFN"
proof (cases "mo \<le> ord")
  case True
  then show ?thesis using buddy_invD(1) [OF assms] by (auto simp: alloc_page_def fblocks_def)
next
  case False
  obtain r z' where r: "rmqueue_from mo ord ord z = (r, z')" by fastforce
  show ?thesis
  proof (cases r)
    case None
    then show ?thesis using False r rmqueue_from_spec [OF assms order_refl, of ord] by (simp add: alloc_page_def rmqueue_def)
  next
    case (Some p)
    then have p: "buddy_inv mo z'" "block p ord \<subseteq> free_frames z" "free_frames z' = free_frames z - block p ord"
        "2 ^ ord dvd p" "START_PFN \<le> p" "p + 2 ^ ord \<le> MAX_PFN"
      using r rmqueue_from_spec [OF assms order_refl, of ord] by auto
    let ?z = "upd_page p (\<lambda>x. x\<lparr>pg_private := 0\<rparr>) z'"
    have f: "fblocks ?z = fblocks z'" by (simp add: fblocks_def upd_page_def)
    have "p < MAX_PFN" using p(6) less_le_trans [of p "p + 2 ^ ord" MAX_PFN] by simp
    then have np: "\<not> PageBuddy (page_map z' p)" using not_buddy [OF p(1,5)] p(3) block_start by blast
    have pg: "PageBuddy (page_map ?z q) \<and> page_order (page_map ?z q) = o' \<longleftrightarrow> PageBuddy (page_map z' q) \<and> page_order (page_map z' q) = o'" for q o'
      using np by (auto simp: upd_page_def page_order_def)
    have "buddy_inv mo ?z" using p(1) unfolding buddy_inv_def f pg by (simp add: upd_page_def)
    moreover have "free_frames ?z = free_frames z'" by (simp add: free_frames_def f)
    moreover have "alloc_page mo ord z = (Some p, ?z)" using False r Some by (simp add: alloc_page_def rmqueue_def)
    ultimately show ?thesis using p by simp
  qed
qed

lemma alloc_pfn_spec:
  assumes "buddy_inv mo z"
  shows "\<exists>pfn z'. alloc_pfn mo ord z = Some (pfn, z') \<and> buddy_inv mo z' \<and>
     (if pfn = 0 then z' = z \<and> (\<forall>p ord'. ord \<le> ord' \<longrightarrow> (p, ord') \<notin> fblocks z)
      else block pfn ord \<subseteq> free_frames z \<and> free_frames z' = free_frames z - block pfn ord
        \<and> 2 ^ ord dvd pfn \<and> START_PFN \<le> pfn \<and> pfn + 2 ^ ord \<le> MAX_PFN)"
proof -
  obtain r z' where r: "alloc_page mo ord z = (r, z')" by fastforce
  show ?thesis
  proof (cases r)
    case None
    then show ?thesis using r alloc_page_spec [OF assms, of ord] assms by (simp add: alloc_pfn_def)
  next
    case (Some p)
    then have p: "buddy_inv mo z'" "block p ord \<subseteq> free_frames z" "free_frames z' = free_frames z - block p ord"
        "2 ^ ord dvd p" "START_PFN \<le> p" "p + 2 ^ ord \<le> MAX_PFN"
      using r alloc_page_spec [OF assms, of ord] by auto
    have "p < MAX_PFN" using p(6) less_le_trans [of p "p + 2 ^ ord" MAX_PFN] by simp
    then have "alloc_pfn mo ord z = Some (p, z')" using r Some p(5) by (simp add: alloc_pfn_def page_to_pfn_def)
    then show ?thesis using p by auto
  qed
qed

section \<open>Start up makes every frame free\<close>

lemma adjust_order_le: "adjust_order s e ord \<le> ord"
  by (induction ord) auto

lemma adjust_order_fits: "s < e \<Longrightarrow> s + 2 ^ adjust_order s e ord \<le> e"
  by (induction ord) auto

lemma initial_free_loop_spec:
  assumes "buddy_inv mo z" "0 < mo" "2 ^ (mo - 1) dvd START_PFN" "2 ^ (mo - 1) dvd MAX_PFN"
    "START_PFN \<le> s" "s \<le> MAX_PFN" "free_frames z = {START_PFN..<s}"
  shows "\<exists>z'. initial_free_loop mo s MAX_PFN z = Some z' \<and> buddy_inv mo z' \<and> free_frames z' = {START_PFN..<MAX_PFN}"
  using assms
proof (induction "MAX_PFN - s" arbitrary: s z rule: less_induct)
  case less
  show ?case
  proof (cases "s < MAX_PFN")
    case False
    then show ?thesis using less.prems by (subst initial_free_loop.simps) auto
  next
    case True
    define ord where "ord = adjust_order s MAX_PFN (min (mo - 1) (c_ffs (of_nat s)))"
    have o: "ord \<le> c_ffs (of_nat s)" "ord < mo"
      using adjust_order_le [of s MAX_PFN "min (mo - 1) (c_ffs (of_nat s))"] less.prems(2) unfolding ord_def by auto
    have fits: "s + 2 ^ ord \<le> MAX_PFN" unfolding ord_def by (rule adjust_order_fits [OF True])
    have "s < 2 ^ 64" using True by simp
    then have "(of_nat s :: u64) \<noteq> 0" using less.prems(5) by (auto simp: word_of_nat_eq_0_iff dest: dvd_imp_le)
    note ffs = c_ffs_nonzero [OF this]
    have "\<not> bit s j" if "j < ord" for j
      using that o(1) ffs(2) ffs(3) [of j] by (simp add: bit_of_nat_iff)
    then have "take_bit ord s = 0" by (intro bit_eqI) (simp add: bit_take_bit_iff)
    then have dvd: "2 ^ ord dvd s" by (simp add: take_bit_eq_0_iff)
    have "block s ord \<inter> free_frames z = {}" using less.prems(7) by auto
    note f = free_one_page_spec [OF less.prems(1) o(2) less.prems(3,4) dvd less.prems(5) fits this]
    have e: "initial_free_loop mo s MAX_PFN z = initial_free_loop mo (s + 2 ^ ord) MAX_PFN (free_one_page mo s s ord z)"
      using True less.prems(5) by (subst initial_free_loop.simps) (simp add: Let_def ord_def pfn_to_page_def free_page_def page_to_pfn_def)
    show ?thesis unfolding e
    proof (rule less.hyps)
      show "free_frames (free_one_page mo s s ord z) = {START_PFN..<s + 2 ^ ord}"
        unfolding f(2) less.prems(7) block_def using less.prems(5) by (simp add: ivl_disj_un)
    qed (use f fits True less.prems in \<open>auto intro: diff_less_mono2\<close>)
  qed
qed

lemma init_buddy_spec:
  assumes "0 < mo" "2 ^ (mo - 1) dvd START_PFN" "2 ^ (mo - 1) dvd MAX_PFN"
    "\<And>p. START_PFN \<le> p \<Longrightarrow> p < MAX_PFN \<Longrightarrow> \<not> PageBuddy (pm p)"
  shows "\<exists>z. init_buddy mo True (Some pm) = Some (0, Some z) \<and> buddy_inv mo z \<and> free_frames z = {START_PFN..<MAX_PFN}"
proof -
  let ?z = "\<lparr>z_area = replicate mo \<lparr>fa_list = [], fa_nr = 0\<rparr>, page_map = pm, z_nr_free = 0\<rparr>"
  have fb: "fblocks ?z = {}" by (auto simp: fblocks_def)
  then have ff: "free_frames ?z = {START_PFN..<START_PFN}" by (simp add: free_frames_def)
  have "buddy_inv mo ?z" unfolding buddy_inv_def fb using assms(4) by auto
  from initial_free_loop_spec [OF this assms(1-3) order_refl _ ff] obtain z' where
    "initial_free_loop mo START_PFN MAX_PFN ?z = Some z'" "buddy_inv mo z'" "free_frames z' = {START_PFN..<MAX_PFN}" by auto
  then show ?thesis
    by (simp add: init_buddy_def initial_free_pages_def PFN_UP_def PFN_DOWN_def PAGE_SHIFT_def PAGE_SIZE_def Let_def
        c_FPGA_MEMORY_MAP_DATA_START_def c_FPGA_MEMORY_MAP_DATA_END_def)
qed

section \<open>Single frames as a pool\<close>

text \<open>What the page tables take and give back are single frames, of order 0.\<close>

definition alloc_frame :: "nat \<Rightarrow> fpga_zone \<Rightarrow> (nat option \<times> fpga_zone) option" where
  "alloc_frame mo z = map_option (\<lambda>(pfn, z). (if pfn = 0 then None else Some pfn, z)) (alloc_pfn mo 0 z)"

definition used_frames :: "fpga_zone \<Rightarrow> nat set" where
  "used_frames z = {START_PFN..<MAX_PFN} - free_frames z"

lemma free_frames_range: "buddy_inv mo z \<Longrightarrow> free_frames z \<subseteq> {START_PFN..<MAX_PFN}"
  unfolding free_frames_def block_def by (fastforce dest: buddy_invD(3))

lemma block_0 [simp]: "block p 0 = {p}"
  by (auto simp: block_def)

interpretation frames: id_pool "buddy_inv MAX_ORDER" used_frames "{START_PFN..<MAX_PFN}" "\<lambda>i. True"
  "alloc_frame MAX_ORDER" "\<lambda>i z. free_pfn MAX_ORDER i 0 z"
proof
  show "finite {START_PFN..<MAX_PFN}" by simp
next
  fix z assume i: "buddy_inv MAX_ORDER z"
  obtain pfn z' where p: "alloc_pfn MAX_ORDER 0 z = Some (pfn, z')" "buddy_inv MAX_ORDER z'"
     "if pfn = 0 then z' = z \<and> (\<forall>p ord'. 0 \<le> ord' \<longrightarrow> (p, ord') \<notin> fblocks z)
      else block pfn 0 \<subseteq> free_frames z \<and> free_frames z' = free_frames z - block pfn 0
        \<and> 2 ^ 0 dvd pfn \<and> START_PFN \<le> pfn \<and> pfn + 2 ^ 0 \<le> MAX_PFN"
    using alloc_pfn_spec [OF i, of 0] by (elim exE conjE) (rule that)
  show "\<exists>r z'. alloc_frame MAX_ORDER z = Some (r, z') \<and> buddy_inv MAX_ORDER z' \<and> (case r of
        None \<Rightarrow> z' = z \<and> {START_PFN..<MAX_PFN} \<subseteq> used_frames z
      | Some i \<Rightarrow> i \<in> {START_PFN..<MAX_PFN} \<and> i \<notin> used_frames z \<and> used_frames z' = insert i (used_frames z))"
  proof (cases "pfn = 0")
    case True
    then have "free_frames z = {}" using p(3) by (auto simp: free_frames_def)
    then show ?thesis using True p by (simp add: alloc_frame_def used_frames_def)
  next
    case False
    then have f: "pfn \<in> free_frames z" "free_frames z' = free_frames z - {pfn}" "pfn \<in> {START_PFN..<MAX_PFN}" using p(3) by simp_all
    have "pfn \<notin> used_frames z" "used_frames z' = insert pfn (used_frames z)"
      unfolding used_frames_def f(2) using f(1,3) by blast+
    then show ?thesis using p(1,2) False f(3)
      by (intro exI [of _ "Some pfn"] exI [of _ z']) (simp add: alloc_frame_def)
  qed
next
  fix z i assume i: "buddy_inv MAX_ORDER z" "i \<in> used_frames z"
  then have r: "START_PFN \<le> i" "i + 2 ^ 0 \<le> MAX_PFN" "block i 0 \<inter> free_frames z = {}" by (auto simp: used_frames_def)
  have mo: "0 < MAX_ORDER" "2 ^ (MAX_ORDER - 1) dvd START_PFN" "2 ^ (MAX_ORDER - 1) dvd MAX_PFN" "2 ^ 0 dvd i" by (simp_all add: MAX_ORDER_def)
  show "\<exists>z'. free_pfn MAX_ORDER i 0 z = Some z' \<and> buddy_inv MAX_ORDER z' \<and> used_frames z' = used_frames z - {i}"
  proof (intro exI conjI)
    show "free_pfn MAX_ORDER i 0 z = Some (free_one_page MAX_ORDER i i 0 z)" using r(1,2) by (simp add: free_pfn_def pfn_to_page_def)
    show "buddy_inv MAX_ORDER (free_one_page MAX_ORDER i i 0 z)" by (rule free_one_page_spec(1) [OF i(1) mo r])
    show "used_frames (free_one_page MAX_ORDER i i 0 z) = used_frames z - {i}"
      unfolding used_frames_def free_one_page_spec(2) [OF i(1) mo r] block_0 by blast
  qed
qed

section \<open>Properties\<close>

text \<open>C3. For every number of orders for which the managed range is aligned, the allocator implements a set of free
  frames. An allocation returns; it either takes an aligned block out of the set, or returns 0 and
  changes nothing, and then no listed block is large enough. Freeing an aligned block none of whose
  frames are free puts exactly its frames back, whatever merging takes place. Freeing the start of a
  free block is refused. The invariant is kept throughout.\<close>

theorem buddy_refines_frame_set:
  assumes "buddy_inv mo z" "2 ^ (mo - 1) dvd START_PFN" "2 ^ (mo - 1) dvd MAX_PFN"
  shows "(\<exists>pfn z'. alloc_pfn mo ord z = Some (pfn, z') \<and> buddy_inv mo z' \<and>
       (if pfn = 0 then z' = z \<and> (\<forall>p ord'. ord \<le> ord' \<longrightarrow> (p, ord') \<notin> fblocks z)
        else block pfn ord \<subseteq> free_frames z \<and> free_frames z' = free_frames z - block pfn ord \<and> 2 ^ ord dvd pfn))
     \<and> (ord < mo \<and> 2 ^ ord dvd p \<and> block p ord \<subseteq> {START_PFN..<MAX_PFN} - free_frames z \<longrightarrow>
       (\<exists>z'. free_pfn mo p ord z = Some z' \<and> buddy_inv mo z' \<and> free_frames z' = free_frames z \<union> block p ord))
     \<and> (\<forall>ord'. (p, ord') \<in> fblocks z \<longrightarrow> free_pfn mo p ord z = Some z)"
proof (intro conjI allI impI)
  obtain pfn z' where "alloc_pfn mo ord z = Some (pfn, z')" "buddy_inv mo z'"
     "if pfn = 0 then z' = z \<and> (\<forall>p ord'. ord \<le> ord' \<longrightarrow> (p, ord') \<notin> fblocks z)
      else block pfn ord \<subseteq> free_frames z \<and> free_frames z' = free_frames z - block pfn ord
        \<and> 2 ^ ord dvd pfn \<and> START_PFN \<le> pfn \<and> pfn + 2 ^ ord \<le> MAX_PFN" using alloc_pfn_spec [OF assms(1), of ord]
    by (elim exE conjE) (rule that)
  then show "\<exists>pfn z'. alloc_pfn mo ord z = Some (pfn, z') \<and> buddy_inv mo z' \<and>
       (if pfn = 0 then z' = z \<and> (\<forall>p ord'. ord \<le> ord' \<longrightarrow> (p, ord') \<notin> fblocks z)
        else block pfn ord \<subseteq> free_frames z \<and> free_frames z' = free_frames z - block pfn ord \<and> 2 ^ ord dvd pfn)"
    by (intro exI [of _ pfn] exI [of _ z']) (cases "pfn = 0"; simp)
next
  assume a: "ord < mo \<and> 2 ^ ord dvd p \<and> block p ord \<subseteq> {START_PFN..<MAX_PFN} - free_frames z"
  have "(1::nat) \<le> 2 ^ ord" by simp
  then have "p \<in> block p ord" "p + 2 ^ ord - 1 \<in> block p ord" unfolding in_block by linarith+
  with a have r: "START_PFN \<le> p" "p < MAX_PFN" "p + 2 ^ ord - 1 < MAX_PFN" by (auto simp del: in_block)
  have "p + 2 ^ ord \<le> MAX_PFN" using r(3) by linarith
  moreover have "block p ord \<inter> free_frames z = {}" using a by blast
  ultimately show "\<exists>z'. free_pfn mo p ord z = Some z' \<and> buddy_inv mo z' \<and> free_frames z' = free_frames z \<union> block p ord"
    using free_one_page_spec [OF assms(1) _ assms(2,3) _ r(1)] a r by (simp add: free_pfn_def pfn_to_page_def)
next
  fix ord' assume b: "(p, ord') \<in> fblocks z"
  then have r: "START_PFN \<le> p" "p < MAX_PFN"
    using buddy_invD(3) [OF assms(1) b] less_le_trans [of p "p + 2 ^ ord'" MAX_PFN] by auto
  then have "PageBuddy (page_map z p)" using buddy_invD(5) [OF assms(1) r] b by simp
  then have "free_pages_prepare z p ord" by (simp add: free_pages_prepare_def free_pages_check_def Let_def)
  then show "free_pfn mo p ord z = Some z" using r by (simp add: free_pfn_def pfn_to_page_def free_one_page_def)
qed

definition clean_page_map :: "nat \<Rightarrow> page" where
  "clean_page_map p = \<lparr>pg_flags = 0, pg_private = 0\<rparr>"

lemma clean_zone: "\<exists>z. init_buddy MAX_ORDER True (Some clean_page_map) = Some (0, Some z) \<and> buddy_inv MAX_ORDER z \<and> free_frames z = {START_PFN..<MAX_PFN}"
  by (rule init_buddy_spec) (simp_all add: MAX_ORDER_def clean_page_map_def PageBuddy_def)

theorem buddy_refines_frame_set_witness:
  "\<exists>z pfn z'. buddy_inv 4 z \<and> alloc_pfn 4 3 z = Some (pfn, z') \<and> buddy_inv 4 z'"
proof -
  have "\<exists>z. init_buddy 4 True (Some clean_page_map) = Some (0, Some z) \<and> buddy_inv 4 z \<and> free_frames z = {START_PFN..<MAX_PFN}"
    by (rule init_buddy_spec) (simp_all add: clean_page_map_def PageBuddy_def)
  then obtain z where z: "buddy_inv 4 z" by blast
  from buddy_refines_frame_set [OF this, of 3 256] show ?thesis using z by auto
qed

text \<open>C15. After start up, when the page map happens to have no frame flagged as free, exactly 256 single frames can be
  allocated; they are the frames 256 to 511, each once, and the next request gets 0.\<close>

theorem frames_exhaust:
  assumes "\<And>p. START_PFN \<le> p \<Longrightarrow> p < MAX_PFN \<Longrightarrow> \<not> PageBuddy (pm p)"
  shows "\<exists>z xs z'. init_buddy MAX_ORDER True (Some pm) = Some (0, Some z)
     \<and> alloc_many (alloc_frame MAX_ORDER) 256 z = Some (xs, z') \<and> distinct xs \<and> set xs = {256..<512}
     \<and> alloc_pfn MAX_ORDER 0 z' = Some (0, z')"
proof -
  have "\<exists>z. init_buddy MAX_ORDER True (Some pm) = Some (0, Some z) \<and> buddy_inv MAX_ORDER z \<and> free_frames z = {START_PFN..<MAX_PFN}"
    by (rule init_buddy_spec) (use assms in \<open>simp_all add: MAX_ORDER_def\<close>)
  then obtain z where z: "init_buddy MAX_ORDER True (Some pm) = Some (0, Some z)" "buddy_inv MAX_ORDER z" "free_frames z = {START_PFN..<MAX_PFN}" by blast
  from frames.alloc_all [OF z(2)] obtain xs z' where
    x: "alloc_many (alloc_frame MAX_ORDER) 256 z = Some (xs, z')" "distinct xs" "set xs = {256..<512}" "buddy_inv MAX_ORDER z'"
    "alloc_frame MAX_ORDER z' = Some (None, z')" by (auto simp: used_frames_def z(3))
  have "alloc_pfn MAX_ORDER 0 z' = Some (0, z')" using x(5) by (auto simp: alloc_frame_def split: if_splits)
  then show ?thesis using z(1) x by blast
qed

theorem frames_exhaust_witness:
  "(\<forall>p. \<not> PageBuddy (clean_page_map p)) \<and> (\<exists>z xs z'. init_buddy MAX_ORDER True (Some clean_page_map) = Some (0, Some z)
     \<and> alloc_many (alloc_frame MAX_ORDER) 256 z = Some (xs, z') \<and> distinct xs \<and> set xs = {256..<512})"
  using frames_exhaust [of clean_page_map] by (auto simp: clean_page_map_def PageBuddy_def)

end
