(* ===== verification/Pagefifo.thy ===== *)
theory Pagefifo
  imports Buddy
begin

text \<open>
  The queues of free frames that the processor keeps filled for the FPGA: \<^verbatim>\<open>board/soc/core/page_fifo.c\<close>, with
  the control message of \<^verbatim>\<open>include/fpga/lego_mem_ctrl.h\<close>.

  When the FPGA reports that it took a frame from a queue, one frame is allocated and its bus address,
  40 bits in two fields, is sent. Filling the queues at start up is compiled out of the sources
  (\<^verbatim>\<open>init_freepage_fifo\<close> returns at once); the routine that would do it is modelled all the same.
\<close>

section \<open>Messages and queues\<close>

record lego_mem_ctrl =
  param32 :: u32
  param8 :: u8
  beats :: "4 word"
  lc_cmd :: "4 word"
  lc_addr :: u8
  epid :: u8

text \<open>The endpoints of \<^verbatim>\<open>include/uapi/lego_mem.h\<close>.\<close>

definition LEGOMEM_CONT_NONE :: u16 where "LEGOMEM_CONT_NONE = 0"
definition LEGOMEM_CONT_NET :: u16 where "LEGOMEM_CONT_NET = 0"
definition LEGOMEM_CONT_MEM :: u16 where "LEGOMEM_CONT_MEM = 1"
definition LEGOMEM_CONT_SOC :: u16 where "LEGOMEM_CONT_SOC = 2"

definition LEGOMEM_CTRL_ADDR_FREEPAGE_0 :: u8 where "LEGOMEM_CTRL_ADDR_FREEPAGE_0 = 0"
definition FREEPAGE_FIFO_DEPTH :: u32 where "FREEPAGE_FIFO_DEPTH = 30"

record fifo_info =
  fi_flags :: u32
  fi_order :: u32
  fi_depth :: u32
  fi_addr :: u8
  nr_refills :: int

definition freepage_fifos_init :: "fifo_info list" where
  "freepage_fifos_init = [\<lparr>fi_flags = 1, fi_order = 0, fi_depth = FREEPAGE_FIFO_DEPTH, fi_addr = LEGOMEM_CTRL_ADDR_FREEPAGE_0, nr_refills = 0\<rparr>]"

record fifo_state =
  freepage_fifos :: "fifo_info list"
  ctrl_sent :: "lego_mem_ctrl list"
  fs_zone :: fpga_zone

definition order_to_fifo_info :: "fifo_state \<Rightarrow> u32 \<Rightarrow> nat option" where
  "order_to_fifo_info s ord = (if unat ord < length (freepage_fifos s) then Some (unat ord) else None)"

definition fifo_info_valid :: "fifo_info \<Rightarrow> bool" where
  "fifo_info_valid i \<longleftrightarrow> fi_flags i \<noteq> 0"

definition get_order_from_ctrl :: "lego_mem_ctrl \<Rightarrow> nat" where
  "get_order_from_ctrl c = (let sz = param32 c in if sz = 0 then MAX_ORDER else c_get_order (ucast sz))"

definition prepare_send_ctrl :: "lego_mem_ctrl \<Rightarrow> fifo_info \<Rightarrow> u64 \<Rightarrow> lego_mem_ctrl" where
  "prepare_send_ctrl c i new_pa = (
     let new_pa = new_pa + FPGA_MEMORY_MAP_MAPPING_BASE
     in c\<lparr>param32 := ucast (new_pa AND 0xFFFFFFFF), param8 := ucast (drop_bit 32 new_pa AND 0xFF),
          epid := ucast LEGOMEM_CONT_MEM, lc_cmd := 0, lc_addr := fi_addr i\<rparr>)"

text \<open>The order of the received message is not used: order 0 is compiled in. The message \<open>tx\<close> is changed in place and
  its new contents are returned.\<close>

definition handle_ctrl_freepage_ack :: "lego_mem_ctrl \<Rightarrow> lego_mem_ctrl \<Rightarrow> fifo_state \<Rightarrow> (lego_mem_ctrl \<times> fifo_state) option" where
  "handle_ctrl_freepage_ack rx tx s = (
     let ord = 0 in
     if MAX_ORDER \<le> unat (ord :: u32) then Some (tx, s)
     else do {
       k \<leftarrow> order_to_fifo_info s ord;
       let i = freepage_fifos s ! k;
       (pfn, z) \<leftarrow> alloc_pfn MAX_ORDER (unat (fi_order i)) (fs_zone s);
       let s = s\<lparr>fs_zone := z\<rparr>;
       if pfn = 0 then Some (tx, s)
       else
         let pa = PFN_PHYS (of_nat pfn);
             tx = prepare_send_ctrl tx i pa
         in Some (tx, s\<lparr>ctrl_sent := ctrl_sent s @ [tx], freepage_fifos := (freepage_fifos s)[k := i\<lparr>nr_refills := nr_refills i + 1\<rparr>]\<rparr>) })"

primrec prefill_fifo :: "nat \<Rightarrow> fifo_info \<Rightarrow> lego_mem_ctrl \<Rightarrow> fifo_state \<Rightarrow> (lego_mem_ctrl \<times> fifo_state) option" where
  "prefill_fifo 0 i c s = Some (c, s)"
| "prefill_fifo (Suc n) i c s = do {
     (pfn, z) \<leftarrow> alloc_pfn MAX_ORDER (unat (fi_order i)) (fs_zone s);
     if pfn = 0 then None
     else
       let c = prepare_send_ctrl c i (PFN_PHYS (of_nat pfn))
       in prefill_fifo n i c (s\<lparr>fs_zone := z, ctrl_sent := ctrl_sent s @ [c]\<rparr>) }"

primrec prefill_each :: "fifo_info list \<Rightarrow> lego_mem_ctrl \<Rightarrow> fifo_state \<Rightarrow> (lego_mem_ctrl \<times> fifo_state) option" where
  "prefill_each [] c s = Some (c, s)"
| "prefill_each (i # is) c s = (
     if \<not> fifo_info_valid i then prefill_each is c s
     else do { (c, s) \<leftarrow> prefill_fifo (unat (fi_depth i)) i c s; prefill_each is c s })"

definition prefill_fifos :: "lego_mem_ctrl \<Rightarrow> fifo_state \<Rightarrow> (lego_mem_ctrl \<times> fifo_state) option" where
  "prefill_fifos c s = prefill_each (freepage_fifos s) c s"

definition init_freepage_fifo :: "fifo_state \<Rightarrow> int \<times> fifo_state" where
  "init_freepage_fifo s = (0, s)"

section \<open>Taking single frames\<close>

lemma alloc_pfn_0 [consumes 1, case_names oom frame]:
  assumes "buddy_inv MAX_ORDER z"
  obtains (oom) "alloc_pfn MAX_ORDER 0 z = Some (0, z)" "free_frames z = {}"
  | (frame) pfn z' where "alloc_pfn MAX_ORDER 0 z = Some (pfn, z')" "pfn \<in> free_frames z" "256 \<le> pfn" "pfn < 512"
      "buddy_inv MAX_ORDER z'" "free_frames z' = free_frames z - {pfn}"
proof -
  obtain pfn z' where p: "alloc_pfn MAX_ORDER 0 z = Some (pfn, z')" "buddy_inv MAX_ORDER z'"
     "if pfn = 0 then z' = z \<and> (\<forall>p ord'. 0 \<le> ord' \<longrightarrow> (p, ord') \<notin> fblocks z)
      else block pfn 0 \<subseteq> free_frames z \<and> free_frames z' = free_frames z - block pfn 0
        \<and> 2 ^ 0 dvd pfn \<and> START_PFN \<le> pfn \<and> pfn + 2 ^ 0 \<le> MAX_PFN"
    using alloc_pfn_spec [OF assms, of 0] by (elim exE conjE) (rule that)
  show thesis
  proof (cases "pfn = 0")
    case True
    then have "free_frames z = {}" using p(3) by (auto simp: free_frames_def)
    then show thesis using True p oom by simp
  next
    case False
    then show thesis using p frame [of pfn z'] by simp
  qed
qed

lemma finite_free_frames: "buddy_inv MAX_ORDER z \<Longrightarrow> finite (free_frames z)"
  by (rule finite_subset [OF free_frames_range]) simp_all

text \<open>The bus address of a frame.\<close>

lemma bus_address:
  assumes "pfn < 512"
  shows "unat (PFN_PHYS (of_nat pfn) + FPGA_MEMORY_MAP_MAPPING_BASE) = pfn * 2 ^ 22 + 0x500000000"
    and "unat (PFN_PHYS (of_nat pfn)) = pfn * 2 ^ 22"
proof -
  have "PFN_PHYS (of_nat pfn) + FPGA_MEMORY_MAP_MAPPING_BASE = of_nat (pfn * 2 ^ 22 + 0x500000000)"
    by (simp add: PFN_PHYS_def PAGE_SHIFT_def push_bit_eq_mult FPGA_MEMORY_MAP_MAPPING_BASE_def)
  then show "unat (PFN_PHYS (of_nat pfn) + FPGA_MEMORY_MAP_MAPPING_BASE) = pfn * 2 ^ 22 + 0x500000000"
    using assms by (simp del: of_nat_mult of_nat_add add: unat_of_nat take_bit_nat_eq_self)
  have "PFN_PHYS (of_nat pfn) = of_nat (pfn * 2 ^ 22)" by (simp add: PFN_PHYS_def PAGE_SHIFT_def push_bit_eq_mult)
  then show "unat (PFN_PHYS (of_nat pfn)) = pfn * 2 ^ 22"
    using assms by (simp del: of_nat_mult add: unat_of_nat take_bit_nat_eq_self)
qed

text \<open>The frame that a message carries.\<close>

definition ctrl_pa :: "lego_mem_ctrl \<Rightarrow> u64" where
  "ctrl_pa c = push_bit 32 (ucast (param8 c)) OR ucast (param32 c)"

definition ctrl_pfn :: "lego_mem_ctrl \<Rightarrow> nat" where
  "ctrl_pfn c = unat (PHYS_PFN (ctrl_pa c - FPGA_MEMORY_MAP_MAPPING_BASE))"

lemma ctrl_pa_prepare:
  assumes "unat (pa + FPGA_MEMORY_MAP_MAPPING_BASE) < 2 ^ 40"
  shows "ctrl_pa (prepare_send_ctrl c i pa) = pa + FPGA_MEMORY_MAP_MAPPING_BASE"
proof -
  define x where "x = pa + FPGA_MEMORY_MAP_MAPPING_BASE"
  have "unat (take_bit 40 x) = unat x" using assms unfolding x_def [symmetric] unsigned_take_bit_eq by (simp add: take_bit_nat_eq_self)
  then have t: "take_bit 40 x = x" by (simp only: unsigned_word_eqI)
  have hi: "n < 40" if "bit x n" for n
    using that by (subst (asm) t [symmetric]) (simp add: bit_take_bit_iff)
  have m: "(0xFFFFFFFF :: u64) = mask 32" "(0xFF :: u64) = mask 8" by (simp_all add: mask_eq_exp_minus_1)
  have "bit (push_bit 32 (ucast (ucast (drop_bit 32 x AND 0xFF) :: u8)) OR ucast (ucast (x AND 0xFFFFFFFF) :: u32) :: u64) n = bit x n" for n
    unfolding m using hi [of n] by (auto simp: bit_simps dest: bit_imp_le_length)
  then have "push_bit 32 (ucast (ucast (drop_bit 32 x AND 0xFF) :: u8)) OR ucast (ucast (x AND 0xFFFFFFFF) :: u32) = x"
    by (intro bit_word_eqI) blast
  then show ?thesis by (simp add: ctrl_pa_def prepare_send_ctrl_def Let_def x_def)
qed

lemma ctrl_pfn_prepare: "pfn < 512 \<Longrightarrow> ctrl_pfn (prepare_send_ctrl c i (PFN_PHYS (of_nat pfn))) = pfn"
  using bus_address [of pfn] by (simp add: ctrl_pfn_def ctrl_pa_prepare PHYS_PFN_def unat_drop_bit PAGE_SHIFT_def)

text \<open>Filling a queue of depth \<open>n\<close> takes \<open>n\<close> different frames, or does not return when there are fewer.\<close>

lemma prefill_fifo_spec:
  assumes "buddy_inv MAX_ORDER (fs_zone s)" "fi_order i = 0"
  shows "if card (free_frames (fs_zone s)) < n then prefill_fifo n i c s = None
    else \<exists>c' s' cs. prefill_fifo n i c s = Some (c', s') \<and> ctrl_sent s' = ctrl_sent s @ cs \<and> length cs = n
      \<and> distinct (map ctrl_pfn cs) \<and> ctrl_pfn ` set cs \<subseteq> free_frames (fs_zone s) \<and> buddy_inv MAX_ORDER (fs_zone s')
      \<and> free_frames (fs_zone s') = free_frames (fs_zone s) - ctrl_pfn ` set cs \<and> freepage_fifos s' = freepage_fifos s"
  using assms(1)
proof (induction n arbitrary: c s)
  case (Suc n)
  from Suc.prems show ?case
  proof (cases rule: alloc_pfn_0)
    case oom
    then show ?thesis using assms(2) by simp
  next
    case (frame pfn z')
    let ?c = "prepare_send_ctrl c i (PFN_PHYS (of_nat pfn))" and ?F = "free_frames (fs_zone s)"
    let ?s = "s\<lparr>fs_zone := z', ctrl_sent := ctrl_sent s @ [?c]\<rparr>"
    have p: "pfn \<noteq> 0" "ctrl_pfn ?c = pfn" using frame(3) ctrl_pfn_prepare [OF frame(4)] by auto
    have st: "prefill_fifo (Suc n) i c s = prefill_fifo n i ?c ?s" using frame(1) p(1) assms(2) by (simp add: Let_def)
    have k: "card ?F = Suc (card (?F - {pfn}))"
      using card_Suc_Diff1 [OF finite_free_frames [OF Suc.prems] frame(2)] by simp
    have ih: "if card (free_frames (fs_zone ?s)) < n then prefill_fifo n i ?c ?s = None
      else \<exists>c' s' cs. prefill_fifo n i ?c ?s = Some (c', s') \<and> ctrl_sent s' = ctrl_sent ?s @ cs \<and> length cs = n
        \<and> distinct (map ctrl_pfn cs) \<and> ctrl_pfn ` set cs \<subseteq> free_frames (fs_zone ?s) \<and> buddy_inv MAX_ORDER (fs_zone s')
        \<and> free_frames (fs_zone s') = free_frames (fs_zone ?s) - ctrl_pfn ` set cs \<and> freepage_fifos s' = freepage_fifos ?s"
      using frame(5) by (intro Suc.IH) simp
    show ?thesis
    proof (cases "card ?F < Suc n")
      case True
      then show ?thesis using ih k frame(6) st by simp
    next
      case False
      then obtain c' s' cs where r: "prefill_fifo n i ?c ?s = Some (c', s')" "ctrl_sent s' = ctrl_sent s @ ?c # cs" "length cs = n"
        "distinct (map ctrl_pfn cs)" "ctrl_pfn ` set cs \<subseteq> ?F - {pfn}" "buddy_inv MAX_ORDER (fs_zone s')"
        "free_frames (fs_zone s') = ?F - {pfn} - ctrl_pfn ` set cs" "freepage_fifos s' = freepage_fifos s"
        using ih k frame(6) by auto
      have "distinct (map ctrl_pfn (?c # cs)) \<and> ctrl_pfn ` set (?c # cs) \<subseteq> ?F \<and> free_frames (fs_zone s') = ?F - ctrl_pfn ` set (?c # cs)"
        using r(4,5,7) p(2) frame(2) by auto
      then show ?thesis using False r(1-3,6,8) st by (simp del: list.map list.set)
    qed
  qed
qed simp

section \<open>Properties\<close>

definition fifo_ok :: "fifo_state \<Rightarrow> bool" where
  "fifo_ok s \<longleftrightarrow> buddy_inv MAX_ORDER (fs_zone s) \<and> freepage_fifos s \<noteq> [] \<and> fi_order (freepage_fifos s ! 0) = 0"

lemma ack_frames:
  assumes "fifo_ok s"
  shows "if free_frames (fs_zone s) = {} then handle_ctrl_freepage_ack rx tx s = Some (tx, s)
    else \<exists>tx' s'. handle_ctrl_freepage_ack rx tx s = Some (tx', s') \<and> fifo_ok s' \<and> ctrl_sent s' = ctrl_sent s @ [tx']
      \<and> ctrl_pfn tx' \<in> free_frames (fs_zone s) \<and> free_frames (fs_zone s') = free_frames (fs_zone s) - {ctrl_pfn tx'}"
proof -
  have z: "buddy_inv MAX_ORDER (fs_zone s)" and f: "freepage_fifos s \<noteq> []" "fi_order (freepage_fifos s ! 0) = 0"
    using assms by (auto simp: fifo_ok_def)
  note H = handle_ctrl_freepage_ack_def order_to_fifo_info_def Let_def
  have mo: "MAX_ORDER \<noteq> 0" by (simp add: MAX_ORDER_def)
  from z show ?thesis
  proof (cases rule: alloc_pfn_0)
    case oom
    then show ?thesis using f mo by (simp add: H)
  next
    case (frame pfn z')
    then have "free_frames (fs_zone s) \<noteq> {}" "pfn \<noteq> 0" by auto
    then show ?thesis using frame f mo ctrl_pfn_prepare [OF frame(4)] by (simp add: H fifo_ok_def nth_list_update)
  qed
qed

text \<open>C13. An acknowledgement is answered with the 40-bit bus address of a frame that was free, from which the frame can be
  recovered; that frame, and no other, is no longer free. When no frame is free nothing is sent and nothing
  changes.\<close>

theorem freepage_ack_sends_frame:
  assumes "fifo_ok s"
  shows "if free_frames (fs_zone s) = {} then handle_ctrl_freepage_ack rx tx s = Some (tx, s)
    else \<exists>tx' s'. handle_ctrl_freepage_ack rx tx s = Some (tx', s') \<and> fifo_ok s' \<and> ctrl_sent s' = ctrl_sent s @ [tx']
      \<and> ctrl_pfn tx' \<in> free_frames (fs_zone s) \<and> free_frames (fs_zone s') = free_frames (fs_zone s) - {ctrl_pfn tx'}"
  by (rule ack_frames [OF assms])

theorem freepage_ack_sends_frame_witness:
  "\<exists>s tx' s'. fifo_ok s \<and> handle_ctrl_freepage_ack \<lparr>param32 = 0, param8 = 0, beats = 0, lc_cmd = 0, lc_addr = 0, epid = 0\<rparr>
     \<lparr>param32 = 0, param8 = 0, beats = 0, lc_cmd = 0, lc_addr = 0, epid = 0\<rparr> s = Some (tx', s') \<and> ctrl_sent s' = [tx'] \<and> ctrl_pfn tx' \<in> {256..<512}"
proof -
  obtain z where z: "buddy_inv MAX_ORDER z" "free_frames z = {START_PFN..<MAX_PFN}" using clean_zone by blast
  let ?s = "\<lparr>freepage_fifos = freepage_fifos_init, ctrl_sent = [], fs_zone = z\<rparr>"
  have ok: "fifo_ok ?s" using z(1) by (simp add: fifo_ok_def freepage_fifos_init_def)
  have "free_frames (fs_zone ?s) \<noteq> {}" using z(2) by simp
  with freepage_ack_sends_frame [OF ok, of "\<lparr>param32 = 0, param8 = 0, beats = 0, lc_cmd = 0, lc_addr = 0, epid = 0\<rparr>"
      "\<lparr>param32 = 0, param8 = 0, beats = 0, lc_cmd = 0, lc_addr = 0, epid = 0\<rparr>"] ok z(2)
  show ?thesis by (intro exI [of _ ?s]) auto
qed

text \<open>C23. Filling the queue as it is declared sends thirty messages with thirty different frames that were free, which then
  are no longer free; with fewer than thirty free frames the program ends.\<close>

theorem prefill_thirty_frames:
  assumes "buddy_inv MAX_ORDER (fs_zone s)" "freepage_fifos s = freepage_fifos_init"
  shows "if card (free_frames (fs_zone s)) < 30 then prefill_fifos c s = None
    else \<exists>c' s' cs. prefill_fifos c s = Some (c', s') \<and> ctrl_sent s' = ctrl_sent s @ cs \<and> length cs = 30
      \<and> distinct (map ctrl_pfn cs) \<and> ctrl_pfn ` set cs \<subseteq> free_frames (fs_zone s)
      \<and> free_frames (fs_zone s') = free_frames (fs_zone s) - ctrl_pfn ` set cs"
proof -
  let ?i = "freepage_fifos_init ! 0"
  have i: "fi_order ?i = 0" "fifo_info_valid ?i" "unat (fi_depth ?i) = 30" "freepage_fifos_init = [?i]"
    by (simp_all add: freepage_fifos_init_def fifo_info_valid_def FREEPAGE_FIFO_DEPTH_def)
  have p: "prefill_fifos c s = prefill_fifo 30 ?i c s"
    unfolding prefill_fifos_def assms(2) by (subst i(4)) (simp add: i(1-3) split: bind_splits)
  from prefill_fifo_spec [OF assms(1) i(1), of 30 c] show ?thesis unfolding p by (auto split: if_splits)
qed

theorem prefill_thirty_frames_witness:
  "\<exists>s c' s' cs. buddy_inv MAX_ORDER (fs_zone s) \<and> freepage_fifos s = freepage_fifos_init
     \<and> prefill_fifos \<lparr>param32 = 0, param8 = 0, beats = 0, lc_cmd = 0, lc_addr = 0, epid = 0\<rparr> s = Some (c', s')
     \<and> ctrl_sent s' = cs \<and> length cs = 30 \<and> distinct (map ctrl_pfn cs)"
proof -
  obtain z where z: "buddy_inv MAX_ORDER z" "free_frames z = {START_PFN..<MAX_PFN}" using clean_zone by blast
  let ?s = "\<lparr>freepage_fifos = freepage_fifos_init, ctrl_sent = [], fs_zone = z\<rparr>"
  have s: "buddy_inv MAX_ORDER (fs_zone ?s)" "freepage_fifos ?s = freepage_fifos_init" "\<not> card (free_frames (fs_zone ?s)) < 30"
    using z by simp_all
  from prefill_thirty_frames [OF s(1,2), of "\<lparr>param32 = 0, param8 = 0, beats = 0, lc_cmd = 0, lc_addr = 0, epid = 0\<rparr>"] s
  show ?thesis by (intro exI [of _ ?s]) auto
qed

end
