(* ===== verification/Pgtable.thy ===== *)
theory Pgtable
  imports Sched Pagefifo NetHeader
begin

text \<open>
  The page tables of the board: \<^verbatim>\<open>board/soc/core/pgtable.h\<close>, \<^verbatim>\<open>pgtable.c\<close>, \<^verbatim>\<open>shadow_pgtable.c\<close> and
  \<^verbatim>\<open>tlbflush.c\<close>, with the layout of \<^verbatim>\<open>include/fpga/pgtable.h\<close>.

  One hash table of page table entries, in the memory of the FPGA, translates the pages of all
  processes; a shadow of it in the memory of the processor is where free slots are searched. An entry
  is named by its address, and \<open>pg_mem\<close> is the memory that holds both tables.

  Two routines of \<^verbatim>\<open>vm.c\<close> are called back from here: \<^verbatim>\<open>vma_tree_new\<close>, to mark a page that cannot be
  mapped, and \<^verbatim>\<open>__free_va\<close>, to release such marks. They are the arguments \<open>new_va\<close> and \<open>free_va\<close>. The
  state is extensible, so that these callbacks may change more than the page tables.

  The invariant \<open>pg_core\<close> says that the two tables agree, that the free slots of the buckets are counted
  correctly, that an entry is in the bucket of its address and in no other place, and that the frames
  mapped by valid entries are in use and not shared.
\<close>

section \<open>Layout\<close>

definition FPGA_TAG_OFFSET :: nat where "FPGA_TAG_OFFSET = 20"
definition PHYSICAL_MEM_SIZE_BITS :: nat where "PHYSICAL_MEM_SIZE_BITS = 40"
definition FPGA_NUM_PTE_PER_BUCKET_BITS :: nat where "FPGA_NUM_PTE_PER_BUCKET_BITS = 4"
definition FPGA_NUM_PTE_PER_BUCKET :: nat where "FPGA_NUM_PTE_PER_BUCKET = 2 ^ FPGA_NUM_PTE_PER_BUCKET_BITS"
definition SCALE_FACTOR_SHIFT :: nat where "SCALE_FACTOR_SHIFT = 1"
definition FPGA_NUM_PGTABLE_BUCKETS_BITS :: nat where
  "FPGA_NUM_PGTABLE_BUCKETS_BITS = PHYSICAL_MEM_SIZE_BITS - PAGE_SHIFT - FPGA_NUM_PTE_PER_BUCKET_BITS + SCALE_FACTOR_SHIFT"
definition FPGA_NUM_PGTABLE_BUCKETS :: nat where "FPGA_NUM_PGTABLE_BUCKETS = 2 ^ FPGA_NUM_PGTABLE_BUCKETS_BITS"
definition FPGA_BUCKET_NUMBER_LENGTH :: nat where "FPGA_BUCKET_NUMBER_LENGTH = FPGA_NUM_PGTABLE_BUCKETS_BITS"

definition FPGA_MEMORY_MAP_PGTABLE_START :: u64 where "FPGA_MEMORY_MAP_PGTABLE_START = FPGA_MEMORY_MAP_MAPPING_BASE + 0x20000000"
definition FPGA_MEMORY_MAP_PGTABLE_END :: u64 where "FPGA_MEMORY_MAP_PGTABLE_END = FPGA_MEMORY_MAP_MAPPING_BASE + 0x40000000"
definition FPGA_MEMORY_MAP_PGTABLE_SIZE :: u64 where
  "FPGA_MEMORY_MAP_PGTABLE_SIZE = FPGA_MEMORY_MAP_PGTABLE_END - FPGA_MEMORY_MAP_PGTABLE_START"

lemma pgtable_sizes [simp]:
  "FPGA_NUM_PTE_PER_BUCKET = 16" "FPGA_NUM_PGTABLE_BUCKETS_BITS = 15" "FPGA_NUM_PGTABLE_BUCKETS = 32768"
  "FPGA_BUCKET_NUMBER_LENGTH = 15" "FPGA_MEMORY_MAP_PGTABLE_SIZE = 0x20000000" "FPGA_TAG_OFFSET = 20"
  by (simp_all add: FPGA_NUM_PTE_PER_BUCKET_def FPGA_NUM_PTE_PER_BUCKET_BITS_def FPGA_NUM_PGTABLE_BUCKETS_BITS_def
      FPGA_NUM_PGTABLE_BUCKETS_def FPGA_BUCKET_NUMBER_LENGTH_def PHYSICAL_MEM_SIZE_BITS_def SCALE_FACTOR_SHIFT_def
      PAGE_SHIFT_def FPGA_MEMORY_MAP_PGTABLE_SIZE_def FPGA_MEMORY_MAP_PGTABLE_END_def FPGA_MEMORY_MAP_PGTABLE_START_def
      FPGA_MEMORY_MAP_MAPPING_BASE_def FPGA_TAG_OFFSET_def)

text \<open>The vm flags of \<^verbatim>\<open>include/uapi/opcode.h\<close>.\<close>

definition LEGOMEM_VM_FLAGS_WRITE :: u64 where "LEGOMEM_VM_FLAGS_WRITE = 0x1"
definition LEGOMEM_VM_FLAGS_POPULATE :: u64 where "LEGOMEM_VM_FLAGS_POPULATE = 0x2"
definition LEGOMEM_VM_FLAGS_ZERO :: u64 where "LEGOMEM_VM_FLAGS_ZERO = 0x4"
definition LEGOMEM_VM_FLAGS_CONFLICT :: u64 where "LEGOMEM_VM_FLAGS_CONFLICT = 0x8"
definition LEGOMEM_VM_FLAGS_USE_SPARE_PFN :: u64 where "LEGOMEM_VM_FLAGS_USE_SPARE_PFN = 0x10"

record lego_mem_pte =
  pte_ppa :: "60 word"
  page_type :: "2 word"
  pte_allocated :: bool
  pte_valid :: bool
  pte_tag :: u64

text \<open>The packed sizes of \<^verbatim>\<open>struct lego_mem_pte\<close> and \<^verbatim>\<open>struct lego_mem_bucket\<close>.\<close>

definition PTE_SIZE :: nat where "PTE_SIZE = 16"
definition BUCKET_SIZE :: nat where "BUCKET_SIZE = FPGA_NUM_PTE_PER_BUCKET * PTE_SIZE"

record conflict_info =
  ci_pi :: ptr
  ci_vi :: nat
  ci_start :: u64
  ci_page_size :: u64

record shadow_bucket_info =
  sb_nr_free :: int
  nr_conflicts :: int
  conflict_head :: "conflict_info list"
  sb_lock :: bool

record tlb_req =
  tr_header :: lego_header
  tr_va :: u64
  tr_size :: u32

text \<open>\<open>fpga_dram\<close> is the data memory of the FPGA as the processor sees it, by the address of a word, and \<open>dma_sent\<close>
  what has been sent to it.\<close>

record pgstate =
  pg_mem :: "ptr \<Rightarrow> lego_mem_pte"
  devmem_pgtable_base :: ptr
  devmem_pgtable_limit :: ptr
  g_shadow_pgtable :: ptr
  global_spare_pfn :: nat
  shadow_bucket_infos :: "nat \<Rightarrow> shadow_bucket_info"
  nr_allocated_ptes :: u64
  pg_zone :: fpga_zone
  fpga_mem_start_soc_va :: u64
  fpga_dram :: "u64 \<Rightarrow> u64"
  global_tlbflush_req :: "tlb_req option"
  dma_sent :: "tlb_req list"

definition upd_pte :: "ptr \<Rightarrow> (lego_mem_pte \<Rightarrow> lego_mem_pte) \<Rightarrow> 'a pgstate_scheme \<Rightarrow> 'a pgstate_scheme" where
  "upd_pte p g s = s\<lparr>pg_mem := (pg_mem s)(p := g (pg_mem s p))\<rparr>"

definition upd_bucket :: "nat \<Rightarrow> (shadow_bucket_info \<Rightarrow> shadow_bucket_info) \<Rightarrow> 'a pgstate_scheme \<Rightarrow> 'a pgstate_scheme" where
  "upd_bucket b g s = s\<lparr>shadow_bucket_infos := (shadow_bucket_infos s)(b := g (shadow_bucket_infos s b))\<rparr>"

section \<open>Buckets and tags (pgtable.h)\<close>

definition hash_lower_bits :: "u64 \<Rightarrow> nat \<Rightarrow> u64" where
  "hash_lower_bits addr shift = drop_bit shift addr AND (2 ^ FPGA_BUCKET_NUMBER_LENGTH - 1)"

definition addr_to_bucket_index :: "u64 \<Rightarrow> nat \<Rightarrow> u32" where
  "addr_to_bucket_index addr page_size_shift = ucast (hash_lower_bits addr page_size_shift)"

definition addr_to_bucket :: "'a pgstate_scheme \<Rightarrow> ptr \<Rightarrow> u64 \<Rightarrow> nat \<Rightarrow> ptr option" where
  "addr_to_bucket s base addr page_size_shift = (
     let index = addr_to_bucket_index addr page_size_shift;
         bucket = base + unat index * BUCKET_SIZE
     in if devmem_pgtable_limit s \<le> bucket then None else Some bucket)"

definition generate_tag :: "u32 \<Rightarrow> u64 \<Rightarrow> u64" where
  "generate_tag pid va = push_bit (64 - FPGA_TAG_OFFSET) (ucast (pid AND 0xFFFF)) OR drop_bit FPGA_TAG_OFFSET va"

text \<open>The entries of a bucket, in the order of the loops over them.\<close>

definition bucket_ptes :: "ptr \<Rightarrow> ptr list" where
  "bucket_ptes bucket = map (\<lambda>i. bucket + i * PTE_SIZE) [0..<FPGA_NUM_PTE_PER_BUCKET]"

definition addr_to_fpga_pte :: "proc_info \<Rightarrow> u64 \<Rightarrow> nat \<Rightarrow> 'a pgstate_scheme \<Rightarrow> ptr option option" where
  "addr_to_fpga_pte p addr page_size_shift s = do {
     bucket \<leftarrow> addr_to_bucket s (fpga_pgtable p) addr page_size_shift;
     let t = generate_tag (pi_pid p) addr;
     Some (find (\<lambda>pte. pte_allocated (pg_mem s pte) \<and> pte_tag (pg_mem s pte) = t) (bucket_ptes bucket)) }"

definition addr_to_shadow_pte :: "proc_info \<Rightarrow> u64 \<Rightarrow> nat \<Rightarrow> 'a pgstate_scheme \<Rightarrow> ptr option option" where
  "addr_to_shadow_pte p addr page_size_shift s = do {
     bucket \<leftarrow> addr_to_bucket s (soc_shadow_pgtable p) addr page_size_shift;
     let t = generate_tag (pi_pid p) addr;
     Some (find (\<lambda>pte. pte_allocated (pg_mem s pte) \<and> pte_tag (pg_mem s pte) = t) (bucket_ptes bucket)) }"

definition shadow_pte_to_bucket_index :: "proc_info \<Rightarrow> ptr \<Rightarrow> u32" where
  "shadow_pte_to_bucket_index p pte = (
     let index = (of_nat ((pte - soc_shadow_pgtable p) div PTE_SIZE) :: u64);
         index = index div of_nat FPGA_NUM_PTE_PER_BUCKET
     in ucast index)"

section \<open>Flushing translations (tlbflush.c)\<close>

definition OP_REQ_CACHE_INVALID :: u8 where "OP_REQ_CACHE_INVALID = 0x70"

definition MAKE_CONT :: "u16 \<Rightarrow> u16 \<Rightarrow> u16 \<Rightarrow> u16 \<Rightarrow> u16" where
  "MAKE_CONT c1 c2 c3 c4 = (c1 AND 0xF) OR push_bit 4 (c2 AND 0xF) OR push_bit 8 (c3 AND 0xF) OR push_bit 12 (c4 AND 0xF)"

text \<open>\<open>p\<close> is the buffer that the DMA library returns, if it has one.\<close>

definition init_tlbflush_setup :: "tlb_req option \<Rightarrow> 'a pgstate_scheme \<Rightarrow> 'a pgstate_scheme option" where
  "init_tlbflush_setup p s = (case p of None \<Rightarrow> None | Some r \<Rightarrow> Some (s\<lparr>global_tlbflush_req := Some r\<rparr>))"

definition tlb_flush :: "proc_info \<Rightarrow> u64 \<Rightarrow> u64 \<Rightarrow> 'a pgstate_scheme \<Rightarrow> 'a pgstate_scheme option" where
  "tlb_flush p va sz s = do {
     r \<leftarrow> global_tlbflush_req s;
     let r = \<lparr>tr_header = (tr_header r)\<lparr>lh_pid := ucast (pi_pid p), lh_opcode := OP_REQ_CACHE_INVALID,
                 cont := MAKE_CONT LEGOMEM_CONT_MEM LEGOMEM_CONT_NONE LEGOMEM_CONT_NONE LEGOMEM_CONT_NONE, lh_size := 28\<rparr>,
              tr_va = va, tr_size = ucast sz\<rparr>;
     Some (s\<lparr>global_tlbflush_req := Some r, dma_sent := dma_sent s @ [r]\<rparr>) }"

section \<open>The shadow table (shadow\_pgtable.c)\<close>

text \<open>The index is an \<^verbatim>\<open>int\<close> compared with an \<^verbatim>\<open>unsigned long\<close>.\<close>

definition index_to_shadow_bucket_info :: "u32 \<Rightarrow> nat option" where
  "index_to_shadow_bucket_info index = (
     if of_nat FPGA_NUM_PGTABLE_BUCKETS \<le> (scast index :: u64) then None else Some (unat index))"

text \<open>
  \<open>mem_ok\<close> says whether the allocations succeed: the result of \<^verbatim>\<open>malloc\<close> is used unchecked.
\<close>

partial_function (option) conflict_loop ::
  "(ptr \<Rightarrow> nat \<Rightarrow> u64 \<Rightarrow> u64 \<Rightarrow> u64 \<Rightarrow> 'a pgstate_scheme \<Rightarrow> (u64 \<times> 'a pgstate_scheme) option) \<Rightarrow> bool
   \<Rightarrow> ptr \<Rightarrow> nat \<Rightarrow> u64 \<Rightarrow> u64 \<Rightarrow> u64 \<Rightarrow> nat \<Rightarrow> bool \<Rightarrow> 'a pgstate_scheme \<Rightarrow> (bool \<times> 'a pgstate_scheme) option" where
  "conflict_loop new_va mem_ok p v start end page_size page_size_shift has_conflict s = (
     if start < end then do {
       b \<leftarrow> index_to_shadow_bucket_info (addr_to_bucket_index start page_size_shift);
       if sb_nr_free (shadow_bucket_infos s b) = 0 then (
         if \<not> mem_ok \<or> sb_lock (shadow_bucket_infos s b) then None
         else do {
           let c = \<lparr>ci_pi = p, ci_vi = v, ci_start = start, ci_page_size = page_size\<rparr>;
           let s = upd_bucket b (\<lambda>i. i\<lparr>conflict_head := c # conflict_head i, nr_conflicts := nr_conflicts i + 1\<rparr>) s;
           (_, s) \<leftarrow> new_va p v start page_size LEGOMEM_VM_FLAGS_CONFLICT s;
           conflict_loop new_va mem_ok p v (start + page_size) end page_size page_size_shift True s })
       else conflict_loop new_va mem_ok p v (start + page_size) end page_size page_size_shift has_conflict s }
     else Some (has_conflict, s))"

definition check_and_insert_shadow_conflicts ::
  "(ptr \<Rightarrow> nat \<Rightarrow> u64 \<Rightarrow> u64 \<Rightarrow> u64 \<Rightarrow> 'a pgstate_scheme \<Rightarrow> (u64 \<times> 'a pgstate_scheme) option) \<Rightarrow> bool
   \<Rightarrow> ptr \<Rightarrow> nat \<Rightarrow> u64 \<Rightarrow> u64 \<Rightarrow> nat \<Rightarrow> u64 \<Rightarrow> 'a pgstate_scheme \<Rightarrow> (bool \<times> 'a pgstate_scheme) option" where
  "check_and_insert_shadow_conflicts new_va mem_ok p v addr page_size page_size_shift len s =
     conflict_loop new_va mem_ok p v addr (addr + len) page_size page_size_shift False s"

text \<open>The lock of the bucket is held while the conflicts are released, so a release that comes back to the same
  bucket never ends.\<close>

partial_function (option) conflicts_loop ::
  "(ptr \<Rightarrow> nat \<Rightarrow> u64 \<Rightarrow> u64 \<Rightarrow> 'a pgstate_scheme \<Rightarrow> (int \<times> 'a pgstate_scheme) option) \<Rightarrow> nat
   \<Rightarrow> 'a pgstate_scheme \<Rightarrow> 'a pgstate_scheme option" where
  "conflicts_loop free_va b s = (
     case conflict_head (shadow_bucket_infos s b) of [] \<Rightarrow> Some s
     | c # cs \<Rightarrow> do {
       let s = upd_bucket b (\<lambda>i. i\<lparr>conflict_head := cs, nr_conflicts := nr_conflicts i - 1\<rparr>) s;
       (_, s) \<leftarrow> free_va (ci_pi c) (ci_vi c) (ci_start c) (ci_page_size c) s;
       conflicts_loop free_va b s })"

definition free_all_conflicts ::
  "(ptr \<Rightarrow> nat \<Rightarrow> u64 \<Rightarrow> u64 \<Rightarrow> 'a pgstate_scheme \<Rightarrow> (int \<times> 'a pgstate_scheme) option) \<Rightarrow> nat
   \<Rightarrow> 'a pgstate_scheme \<Rightarrow> 'a pgstate_scheme option" where
  "free_all_conflicts free_va b s = (
     if sb_lock (shadow_bucket_infos s b) then None
     else do {
       s \<leftarrow> conflicts_loop free_va b (upd_bucket b (\<lambda>i. i\<lparr>sb_lock := True\<rparr>) s);
       Some (upd_bucket b (\<lambda>i. i\<lparr>sb_lock := False\<rparr>) s) })"

definition zap_shadow_pte ::
  "(ptr \<Rightarrow> nat \<Rightarrow> u64 \<Rightarrow> u64 \<Rightarrow> 'a pgstate_scheme \<Rightarrow> (int \<times> 'a pgstate_scheme) option)
   \<Rightarrow> proc_info \<Rightarrow> ptr \<Rightarrow> u64 \<Rightarrow> 'a pgstate_scheme \<Rightarrow> 'a pgstate_scheme option" where
  "zap_shadow_pte free_va p pte page_size s = (
     if \<not> pte_allocated (pg_mem s pte) then Some s
     else do {
       b \<leftarrow> index_to_shadow_bucket_info (shadow_pte_to_bucket_index p pte);
       let s = upd_bucket b (\<lambda>i. i\<lparr>sb_nr_free := sb_nr_free i + 1\<rparr>) s;
       let s = s\<lparr>nr_allocated_ptes := nr_allocated_ptes s - 1\<rparr>;
       s \<leftarrow> free_all_conflicts free_va b s;
       Some (upd_pte pte (\<lambda>e. e\<lparr>pte_tag := 0, pte_allocated := False, pte_valid := False\<rparr>) s) })"

definition alloc_one_shadow_pte :: "proc_info \<Rightarrow> u64 \<Rightarrow> nat \<Rightarrow> 'a pgstate_scheme \<Rightarrow> (ptr option \<times> 'a pgstate_scheme) option" where
  "alloc_one_shadow_pte p addr page_size_shift s = do {
     bucket \<leftarrow> addr_to_bucket s (soc_shadow_pgtable p) addr page_size_shift;
     b \<leftarrow> index_to_shadow_bucket_info (addr_to_bucket_index addr page_size_shift);
     case find (\<lambda>pte. \<not> pte_allocated (pg_mem s pte)) (bucket_ptes bucket) of
       None \<Rightarrow> Some (None, s)
     | Some pte \<Rightarrow>
       let s = upd_pte pte (\<lambda>e. e\<lparr>pte_tag := generate_tag (pi_pid p) addr, pte_allocated := True, pte_valid := False\<rparr>) s;
           s = upd_bucket b (\<lambda>i. i\<lparr>sb_nr_free := sb_nr_free i - 1\<rparr>) s
       in Some (Some pte, s\<lparr>nr_allocated_ptes := nr_allocated_ptes s + 1\<rparr>) }"

definition zero_pte :: lego_mem_pte where
  "zero_pte = \<lparr>pte_ppa = 0, page_type = 0, pte_allocated = False, pte_valid = False, pte_tag = 0\<rparr>"

text \<open>\<open>mem\<close> is the address of the memory allocated for the shadow table. It is cleared; the table starts at that
  address.\<close>

definition init_shadow_pgtable :: "ptr option \<Rightarrow> 'a pgstate_scheme \<Rightarrow> (int \<times> 'a pgstate_scheme) option" where
  "init_shadow_pgtable mem s = (
     let s = s\<lparr>shadow_bucket_infos := (\<lambda>b. if b < FPGA_NUM_PGTABLE_BUCKETS
               then \<lparr>sb_nr_free = int FPGA_NUM_PTE_PER_BUCKET, nr_conflicts = 0, conflict_head = [], sb_lock = False\<rparr>
               else shadow_bucket_infos s b)\<rparr>
     in case mem of None \<Rightarrow> None
     | Some base \<Rightarrow> Some (0, s\<lparr>g_shadow_pgtable := base,
         pg_mem := (\<lambda>p. if base \<le> p \<and> p < base + unat FPGA_MEMORY_MAP_PGTABLE_SIZE then zero_pte else pg_mem s p)\<rparr>))"

section \<open>The table of the FPGA (pgtable.c)\<close>

definition shadow_to_fpga_pte :: "proc_info \<Rightarrow> ptr \<Rightarrow> ptr option" where
  "shadow_to_fpga_pte p pte = (
     let offset = (of_nat pte - of_nat (soc_shadow_pgtable p) :: u64) in
     if FPGA_MEMORY_MAP_PGTABLE_SIZE \<le> offset then None else Some (fpga_pgtable p + unat offset))"

definition zap_pte :: "proc_info \<Rightarrow> ptr \<Rightarrow> u64 \<Rightarrow> u64 \<Rightarrow> 'a pgstate_scheme \<Rightarrow> 'a pgstate_scheme option" where
  "zap_pte p soc_shadow_pte page_size addr s = (
     case shadow_to_fpga_pte p soc_shadow_pte of None \<Rightarrow> Some s
     | Some pte \<Rightarrow>
       if \<not> pte_allocated (pg_mem s pte) then Some s
       else do {
         s \<leftarrow> (if pte_valid (pg_mem s pte) then do {
                let phys = ucast (pte_ppa (pg_mem s pte)) - FPGA_MEMORY_MAP_MAPPING_BASE;
                z \<leftarrow> free_pfn MAX_ORDER (unat (PHYS_PFN phys)) (c_get_order page_size) (pg_zone s);
                Some (upd_pte pte (\<lambda>e. e\<lparr>pte_valid := False, pte_ppa := 0\<rparr>) (s\<lparr>pg_zone := z\<rparr>)) }
              else Some s);
         Some (upd_pte pte (\<lambda>e. e\<lparr>pte_allocated := False, pte_tag := 0\<rparr>) s) })"

partial_function (option) free_pte_loop ::
  "(ptr \<Rightarrow> nat \<Rightarrow> u64 \<Rightarrow> u64 \<Rightarrow> 'a pgstate_scheme \<Rightarrow> (int \<times> 'a pgstate_scheme) option)
   \<Rightarrow> proc_info \<Rightarrow> u64 \<Rightarrow> u64 \<Rightarrow> u64 \<Rightarrow> 'a pgstate_scheme \<Rightarrow> 'a pgstate_scheme option" where
  "free_pte_loop free_va p start end page_size s = (
     if start < end then do {
       r \<leftarrow> addr_to_shadow_pte p start PAGE_SHIFT s;
       case r of None \<Rightarrow> free_pte_loop free_va p (start + page_size) end page_size s
       | Some pte \<Rightarrow> do {
         s \<leftarrow> zap_shadow_pte free_va p pte page_size s;
         s \<leftarrow> zap_pte p pte page_size start s;
         free_pte_loop free_va p (start + page_size) end page_size s } }
     else Some s)"

definition free_fpga_pte_range ::
  "(ptr \<Rightarrow> nat \<Rightarrow> u64 \<Rightarrow> u64 \<Rightarrow> 'a pgstate_scheme \<Rightarrow> (int \<times> 'a pgstate_scheme) option)
   \<Rightarrow> proc_info \<Rightarrow> u64 \<Rightarrow> u64 \<Rightarrow> u64 \<Rightarrow> 'a pgstate_scheme \<Rightarrow> 'a pgstate_scheme option" where
  "free_fpga_pte_range free_va p start end page_size s = do {
     s \<leftarrow> free_pte_loop free_va p start end page_size s;
     tlb_flush p start (end - start) s }"

text \<open>\<^verbatim>\<open>clear_fpga_page\<close> of \<^verbatim>\<open>buddy.h\<close> writes words of eight bytes.\<close>

primrec clear_words :: "nat \<Rightarrow> u64 \<Rightarrow> (u64 \<Rightarrow> u64) \<Rightarrow> u64 \<Rightarrow> u64" where
  "clear_words 0 ptr m = m"
| "clear_words (Suc n) ptr m = clear_words n (ptr + 8) (m(ptr := 0))"

definition clear_fpga_page :: "u64 \<Rightarrow> u64 \<Rightarrow> (u64 \<Rightarrow> u64) \<Rightarrow> u64 \<Rightarrow> u64" where
  "clear_fpga_page page sz m = clear_words (unat (sz div 8)) page m"

definition alloc_one_fpga_pte ::
  "proc_info \<Rightarrow> ptr \<Rightarrow> u64 \<Rightarrow> u64 \<Rightarrow> u64 \<Rightarrow> 'a pgstate_scheme \<Rightarrow> (ptr option \<times> 'a pgstate_scheme) option" where
  "alloc_one_fpga_pte p soc_shadow_pte addr vm_flags page_size s = (
     case shadow_to_fpga_pte p soc_shadow_pte of None \<Rightarrow> Some (None, s)
     | Some pte \<Rightarrow>
       if pte_allocated (pg_mem s pte) then Some (None, s)
       else
         let s = upd_pte pte (\<lambda>e. e\<lparr>pte_allocated := True, pte_tag := pte_tag (pg_mem s soc_shadow_pte)\<rparr>) s in
         if vm_flags AND LEGOMEM_VM_FLAGS_POPULATE \<noteq> 0 then do {
           (pfn, z) \<leftarrow> alloc_pfn MAX_ORDER (c_get_order page_size) (pg_zone s);
           let s = s\<lparr>pg_zone := z\<rparr>;
           let spare = vm_flags AND LEGOMEM_VM_FLAGS_USE_SPARE_PFN \<noteq> 0;
           if pfn = 0 \<and> (\<not> spare \<or> global_spare_pfn s = 0) then Some (None, s)
           else do {
             let pfn = (if pfn = 0 then global_spare_pfn s else pfn);
             let s = upd_pte pte (\<lambda>e. e\<lparr>pte_ppa := ucast (PFN_PHYS (of_nat pfn) + FPGA_MEMORY_MAP_MAPPING_BASE), pte_valid := True\<rparr>) s;
             soc_va \<leftarrow> pfn_to_soc_va (fpga_mem_start_soc_va s) pfn;
             Some (Some pte, if vm_flags AND LEGOMEM_VM_FLAGS_ZERO \<noteq> 0
               then s\<lparr>fpga_dram := clear_fpga_page soc_va PAGE_SIZE (fpga_dram s)\<rparr> else s) } }
         else Some (Some pte, upd_pte pte (\<lambda>e. e\<lparr>pte_valid := False, pte_ppa := 0\<rparr>) s))"

partial_function (option) alloc_pte_loop ::
  "proc_info \<Rightarrow> u64 \<Rightarrow> u64 \<Rightarrow> u64 \<Rightarrow> u64 \<Rightarrow> 'a pgstate_scheme \<Rightarrow> 'a pgstate_scheme option" where
  "alloc_pte_loop p start end vm_flags page_size s = (
     if start < end then do {
       (r, s) \<leftarrow> alloc_one_shadow_pte p start PAGE_SHIFT s;
       case r of None \<Rightarrow> alloc_pte_loop p (start + page_size) end vm_flags page_size s
       | Some pte \<Rightarrow> do {
         (_, s) \<leftarrow> alloc_one_fpga_pte p pte start vm_flags page_size s;
         alloc_pte_loop p (start + page_size) end vm_flags page_size s } }
     else Some s)"

definition alloc_fpga_pte_range ::
  "proc_info \<Rightarrow> u64 \<Rightarrow> u64 \<Rightarrow> u64 \<Rightarrow> u64 \<Rightarrow> 'a pgstate_scheme \<Rightarrow> 'a pgstate_scheme option" where
  "alloc_fpga_pte_range p start end vm_flags page_size s = alloc_pte_loop p start end vm_flags page_size s"

text \<open>\<open>mem\<close> is the address at which the table of the FPGA is mapped, if mapping it succeeds.\<close>

primrec reset_ptes :: "nat \<Rightarrow> ptr \<Rightarrow> (ptr \<Rightarrow> lego_mem_pte) \<Rightarrow> ptr \<Rightarrow> lego_mem_pte" where
  "reset_ptes 0 base m = m"
| "reset_ptes (Suc n) base m = (reset_ptes n base m)(base + n * PTE_SIZE := zero_pte)"

definition init_fpga_pgtable :: "ptr option \<Rightarrow> 'a pgstate_scheme \<Rightarrow> 'a pgstate_scheme option" where
  "init_fpga_pgtable mem s = do {
     (pfn, z) \<leftarrow> alloc_pfn MAX_ORDER 0 (pg_zone s);
     if pfn = 0 then None
     else case mem of None \<Rightarrow> None
     | Some base \<Rightarrow>
       let nr_pte = unat FPGA_MEMORY_MAP_PGTABLE_SIZE div PTE_SIZE in
       Some (s\<lparr>pg_zone := z, global_spare_pfn := pfn, devmem_pgtable_base := base,
               pg_mem := reset_ptes nr_pte base (pg_mem s),
               devmem_pgtable_limit := base + unat FPGA_MEMORY_MAP_PGTABLE_SIZE\<rparr>) }"

section \<open>Tags and buckets\<close>

text \<open>The bucket of an address can be read off its tag.\<close>

definition tag_bucket :: "u64 \<Rightarrow> nat" where
  "tag_bucket t = unat (drop_bit 2 t AND (2 ^ 15 - 1))"

lemma mask_15: "(2 ^ 15 - 1 :: 'a::len word) = mask 15"
  by (simp add: mask_eq_exp_minus_1)

lemma generate_tag_low: "drop_bit 2 (generate_tag pid va) AND (2 ^ 15 - 1) = hash_lower_bits va 22"
  unfolding hash_lower_bits_def generate_tag_def pgtable_sizes mask_15
  by (rule bit_word_eqI) (auto simp: bit_simps)

lemma bucket_index: "unat (addr_to_bucket_index va 22) = tag_bucket (generate_tag pid va)"
  and bucket_index_less: "unat (addr_to_bucket_index va 22) < 32768"
proof -
  have "hash_lower_bits va 22 = take_bit 15 (drop_bit 22 va)"
    unfolding hash_lower_bits_def pgtable_sizes mask_15 take_bit_eq_mask ..
  then have u: "unat (hash_lower_bits va 22) = take_bit 15 (unat (drop_bit 22 va))" by (simp add: unsigned_take_bit_eq)
  then have l: "unat (hash_lower_bits va 22) < 32768" using take_bit_nat_less_exp [of 15 "unat (drop_bit 22 va)"] by simp
  then have e: "unat (addr_to_bucket_index va 22) = unat (hash_lower_bits va 22)"
    unfolding addr_to_bucket_index_def unsigned_ucast_eq by (simp add: take_bit_nat_eq_self)
  show "unat (addr_to_bucket_index va 22) = tag_bucket (generate_tag pid va)"
    unfolding e tag_bucket_def generate_tag_low ..
  show "unat (addr_to_bucket_index va 22) < 32768" using e l by simp
qed

lemma generate_tag_inj:
  "generate_tag pid va = generate_tag pid' va' \<longleftrightarrow> pid AND 0xFFFF = pid' AND 0xFFFF \<and> drop_bit 20 va = drop_bit 20 va'"
proof
  assume e: "generate_tag pid va = generate_tag pid' va'"
  have m: "(0xFFFF :: u32) = mask 16" by (simp add: mask_eq_exp_minus_1)
  have b: "bit (generate_tag p v) n \<longleftrightarrow> n < 64 \<and> (if 44 \<le> n then bit p (n - 44) \<and> n - 44 < 16 else bit v (n + 20))" for p v n
    unfolding generate_tag_def pgtable_sizes m by (auto simp: bit_simps add.commute [of 20] dest: bit_imp_le_length)
  have eb: "bit (generate_tag pid va) n = bit (generate_tag pid' va') n" for n using e by simp
  show "pid AND 0xFFFF = pid' AND 0xFFFF \<and> drop_bit 20 va = drop_bit 20 va'"
  proof (intro conjI bit_word_eqI)
    fix n show "bit (pid AND 0xFFFF) n = bit (pid' AND 0xFFFF) n"
      using eb [of "n + 44"] unfolding b m by (auto simp: bit_simps)
    show "bit (drop_bit 20 va) n = bit (drop_bit 20 va') n"
      using eb [of n] unfolding b by (auto simp: bit_simps add.commute [of 20] dest: bit_imp_le_length split: if_splits)
  qed
next
  assume "pid AND 0xFFFF = pid' AND 0xFFFF \<and> drop_bit 20 va = drop_bit 20 va'"
  then show "generate_tag pid va = generate_tag pid' va'" by (simp add: generate_tag_def)
qed

text \<open>The pages of a range that does not wrap have different tags, and up to 32768 of them have different buckets.\<close>

definition page_va :: "u64 \<Rightarrow> nat \<Rightarrow> u64" where
  "page_va start k = start + of_nat k * PAGE_SIZE"

lemma page_va_0 [simp]: "page_va start 0 = start"
  by (simp add: page_va_def)

lemma page_va_Suc: "page_va (start + PAGE_SIZE) k = page_va start (Suc k)"
  by (simp add: page_va_def algebra_simps)

lemma unat_page_va: "unat start + k * 2 ^ 22 < 2 ^ 64 \<Longrightarrow> unat (page_va start k) = unat start + k * 2 ^ 22"
proof -
  assume a: "unat start + k * 2 ^ 22 < 2 ^ 64"
  have e: "page_va start k = of_nat (unat start + k * 2 ^ 22)" by (simp add: page_va_def PAGE_SIZE_def)
  show ?thesis unfolding e unat_of_nat using a by (simp del: of_nat_add of_nat_mult add: take_bit_nat_eq_self)
qed

lemma page_tags_distinct:
  assumes "unat start + k * 2 ^ 22 < 2 ^ 64" "unat start + j * 2 ^ 22 < 2 ^ 64"
    "generate_tag pid (page_va start k) = generate_tag pid (page_va start j)"
  shows "k = j"
proof -
  have "unat (drop_bit 20 (page_va start k)) = unat (drop_bit 20 (page_va start j))"
    using assms(3) by (simp add: generate_tag_inj)
  then have "(unat start + k * 2 ^ 22) div 2 ^ 20 = (unat start + j * 2 ^ 22) div 2 ^ 20"
    unfolding unat_drop_bit unat_page_va [OF assms(1)] unat_page_va [OF assms(2)] .
  moreover have "(unat start + m * 2 ^ 22) div 2 ^ 20 = unat start div 2 ^ 20 + m * 4" for m
    using div_mult_self1 [of "2 ^ 20" "unat start" "m * 4"] by (simp add: ac_simps)
  ultimately show ?thesis by simp
qed

lemma page_bucket:
  assumes "unat start + k * 2 ^ 22 < 2 ^ 64"
  shows "tag_bucket (generate_tag pid (page_va start k)) = (unat start div 2 ^ 22 + k) mod 2 ^ 15"
proof -
  have "tag_bucket (generate_tag pid (page_va start k)) = take_bit 15 (unat (drop_bit 22 (page_va start k)))"
    unfolding tag_bucket_def generate_tag_low by (simp only: hash_lower_bits_def pgtable_sizes mask_15 take_bit_eq_mask [symmetric] unsigned_take_bit_eq)
  also have "\<dots> = ((unat start + k * 2 ^ 22) div 2 ^ 22) mod 2 ^ 15"
    unfolding unat_drop_bit unat_page_va [OF assms] take_bit_eq_mod ..
  also have "(unat start + k * 2 ^ 22) div 2 ^ 22 = unat start div 2 ^ 22 + k" by simp
  finally show ?thesis .
qed

lemma page_buckets_distinct:
  assumes "unat start + k * 2 ^ 22 < 2 ^ 64" "unat start + j * 2 ^ 22 < 2 ^ 64" "k < 32768" "j < 32768"
    "tag_bucket (generate_tag pid (page_va start k)) = tag_bucket (generate_tag pid (page_va start j))"
  shows "k = j"
proof -
  let ?a = "unat start div 2 ^ 22"
  have "(?a + k) mod 32768 = (?a + j) mod 32768" using assms(5) unfolding page_bucket [OF assms(1)] page_bucket [OF assms(2)] by simp
  then have "k mod 32768 = j mod 32768" by (simp add: nat_mod_eq_iff mod_eq_dvd_iff_nat)
  then show ?thesis using assms(3,4) by simp
qed

section \<open>The invariant\<close>

text \<open>
  A slot is an index into both tables. What a state maps, \<open>slots\<close>, gives for a slot in use its tag and,
  once a frame has been assigned, the frame. \<open>slots_ok\<close> is the invariant on that level: each tag is in its
  bucket and only once, the free slots and the slots in use are counted correctly, and the frames are in
  use, different from each other and from the spare frame.
\<close>

definition sh :: "'a pgstate_scheme \<Rightarrow> nat \<Rightarrow> ptr" where "sh s i = g_shadow_pgtable s + i * PTE_SIZE"
definition fp :: "'a pgstate_scheme \<Rightarrow> nat \<Rightarrow> ptr" where "fp s i = devmem_pgtable_base s + i * PTE_SIZE"

definition pte_frame :: "lego_mem_pte \<Rightarrow> nat" where
  "pte_frame e = unat (PHYS_PFN (ucast (pte_ppa e) - FPGA_MEMORY_MAP_MAPPING_BASE))"

definition slots :: "'a pgstate_scheme \<Rightarrow> nat \<Rightarrow> (u64 \<times> nat option) option" where
  "slots s i = (let e = pg_mem s (fp s i) in
     if i < 524288 \<and> pte_allocated e then Some (pte_tag e, if pte_valid e then Some (pte_frame e) else None) else None)"

definition used_in :: "(nat \<Rightarrow> (u64 \<times> nat option) option) \<Rightarrow> nat \<Rightarrow> nat set" where
  "used_in \<sigma> b = {i. i div 16 = b \<and> \<sigma> i \<noteq> None}"

definition slots_ok ::
  "(nat \<Rightarrow> (u64 \<times> nat option) option) \<Rightarrow> (nat \<Rightarrow> shadow_bucket_info) \<Rightarrow> u64 \<Rightarrow> nat set \<Rightarrow> bool" where
  "slots_ok \<sigma> info n U \<longleftrightarrow> dom \<sigma> \<subseteq> {..<524288}
    \<and> (\<forall>i t fr. \<sigma> i = Some (t, fr) \<longrightarrow> tag_bucket t = i div 16)
    \<and> (\<forall>i j t fr fr'. \<sigma> i = Some (t, fr) \<longrightarrow> \<sigma> j = Some (t, fr') \<longrightarrow> i = j)
    \<and> (\<forall>b < 32768. sb_nr_free (info b) = 16 - int (card (used_in \<sigma> b)))
    \<and> n = of_nat (card (dom \<sigma>))
    \<and> (\<forall>i t f. \<sigma> i = Some (t, Some f) \<longrightarrow> f \<in> U)
    \<and> (\<forall>i j t t' f. \<sigma> i = Some (t, Some f) \<longrightarrow> \<sigma> j = Some (t', Some f) \<longrightarrow> i = j)"

lemma finite_used_in: "finite (used_in \<sigma> b)"
proof (rule finite_subset)
  show "used_in \<sigma> b \<subseteq> {..<16 * b + 16}" by (auto simp: used_in_def)
qed simp

lemma card_used_in: "card (used_in \<sigma> b) \<le> 16"
proof -
  have "used_in \<sigma> b \<subseteq> {16 * b..<16 * b + 16}" by (auto simp: used_in_def)
  from card_mono [OF _ this] show ?thesis by simp
qed

lemma slots_okD:
  assumes "slots_ok \<sigma> info n U"
  shows "dom \<sigma> \<subseteq> {..<524288}" "finite (dom \<sigma>)"
    "\<sigma> i = Some (t, fr) \<Longrightarrow> i < 524288 \<and> tag_bucket t = i div 16"
    "\<sigma> i = Some (t, fr) \<Longrightarrow> \<sigma> j = Some (t, fr') \<Longrightarrow> i = j"
    "b < 32768 \<Longrightarrow> sb_nr_free (info b) = 16 - int (card (used_in \<sigma> b))"
    "n = of_nat (card (dom \<sigma>))"
    "\<sigma> i = Some (t, Some f) \<Longrightarrow> f \<in> U"
    "\<sigma> i = Some (t, Some f) \<Longrightarrow> \<sigma> j = Some (t', Some f) \<Longrightarrow> i = j"
proof -
  show d: "dom \<sigma> \<subseteq> {..<524288}" using assms by (simp add: slots_ok_def)
  then show "finite (dom \<sigma>)" by (rule finite_subset) simp
  show "\<sigma> i = Some (t, fr) \<Longrightarrow> i < 524288 \<and> tag_bucket t = i div 16" using assms d by (auto simp: slots_ok_def)
qed (use assms in \<open>auto simp: slots_ok_def\<close>)

lemma slots_okI:
  assumes "dom \<sigma> \<subseteq> {..<524288}" "\<forall>i t fr. \<sigma> i = Some (t, fr) \<longrightarrow> tag_bucket t = i div 16"
    "\<forall>i j t fr fr'. \<sigma> i = Some (t, fr) \<longrightarrow> \<sigma> j = Some (t, fr') \<longrightarrow> i = j"
    "\<And>b. b < 32768 \<Longrightarrow> sb_nr_free (info b) = 16 - int (card (used_in \<sigma> b))"
    "n = of_nat (card (dom \<sigma>))" "\<forall>i t f. \<sigma> i = Some (t, Some f) \<longrightarrow> f \<in> U"
    "\<forall>i j t t' f. \<sigma> i = Some (t, Some f) \<longrightarrow> \<sigma> j = Some (t', Some f) \<longrightarrow> i = j"
  shows "slots_ok \<sigma> info n U"
  unfolding slots_ok_def using assms by (intro conjI allI impI; (assumption | blast))

lemma slots_ok_map:
  assumes ok: "slots_ok \<sigma> info n U" and i: "i < 524288" "\<sigma> i = None" "tag_bucket t = i div 16"
    and t: "\<And>j fr. \<sigma> j \<noteq> Some (t, fr)"
    and f: "\<And>f. fr = Some f \<Longrightarrow> f \<in> U' \<and> (\<forall>j t. \<sigma> j \<noteq> Some (t, Some f))" and U: "U \<subseteq> U'"
  shows "slots_ok (\<sigma>(i \<mapsto> (t, fr))) (info(i div 16 := (info (i div 16))\<lparr>sb_nr_free := sb_nr_free (info (i div 16)) - 1\<rparr>)) (n + 1) U'"
proof -
  note D = slots_okD [OF ok]
  have c: "used_in (\<sigma>(i \<mapsto> (t, fr))) b = (if b = i div 16 then insert i (used_in \<sigma> b) else used_in \<sigma> b)" for b
    by (auto simp: used_in_def)
  have k: "card (insert i (used_in \<sigma> b)) = Suc (card (used_in \<sigma> b))" for b
    using i(2) finite_used_in by (simp add: used_in_def)
  have "card (dom (\<sigma>(i \<mapsto> (t, fr)))) = Suc (card (dom \<sigma>))" using D(2) i(2) by (simp add: domIff)
  then have n: "n + 1 = of_nat (card (dom (\<sigma>(i \<mapsto> (t, fr)))))" using D(6) by simp
  have "\<forall>j t' f'. (\<sigma>(i \<mapsto> (t, fr))) j = Some (t', Some f') \<longrightarrow> f' \<in> U'"
    using D(7) U f by (auto split: if_splits)
  moreover have "\<forall>j k t1 t2 g. (\<sigma>(i \<mapsto> (t, fr))) j = Some (t1, Some g) \<longrightarrow> (\<sigma>(i \<mapsto> (t, fr))) k = Some (t2, Some g) \<longrightarrow> j = k"
    using D(8) f by (auto split: if_splits)
  moreover have "\<forall>j k t' fr1 fr2. (\<sigma>(i \<mapsto> (t, fr))) j = Some (t', fr1) \<longrightarrow> (\<sigma>(i \<mapsto> (t, fr))) k = Some (t', fr2) \<longrightarrow> j = k"
    using D(4) t by (auto split: if_splits)
  moreover have "\<forall>j t' fr'. (\<sigma>(i \<mapsto> (t, fr))) j = Some (t', fr') \<longrightarrow> tag_bucket t' = j div 16"
    using D(3) i(3) by auto
  moreover have "dom (\<sigma>(i \<mapsto> (t, fr))) \<subseteq> {..<524288}" using D(1) i(1) by simp
  moreover have "sb_nr_free ((info(i div 16 := (info (i div 16))\<lparr>sb_nr_free := sb_nr_free (info (i div 16)) - 1\<rparr>)) b)
      = 16 - int (card (used_in (\<sigma>(i \<mapsto> (t, fr))) b))" if "b < 32768" for b
    unfolding c using D(5) [OF that] by (cases "b = i div 16") (simp_all add: k)
  ultimately show ?thesis using n by (intro slots_okI)
qed

lemma slots_ok_unmap:
  assumes ok: "slots_ok \<sigma> info n U" and i: "\<sigma> i = Some (t, fr)"
  shows "slots_ok (\<sigma>(i := None)) (info(i div 16 := (info (i div 16))\<lparr>sb_nr_free := sb_nr_free (info (i div 16)) + 1\<rparr>)) (n - 1) (U - set_option fr)"
proof -
  note D = slots_okD [OF ok]
  have c: "used_in (\<sigma>(i := None)) b = used_in \<sigma> b - {i}" for b
    by (auto simp: used_in_def)
  have k: "int (card (used_in \<sigma> b - {i})) = (if b = i div 16 then int (card (used_in \<sigma> b)) - 1 else int (card (used_in \<sigma> b)))" for b
  proof (cases "b = i div 16")
    case True
    then have "i \<in> used_in \<sigma> b" using i by (simp add: used_in_def)
    then have "card (used_in \<sigma> b) = Suc (card (used_in \<sigma> b - {i}))" using finite_used_in by (metis card_Suc_Diff1)
    then show ?thesis using True by simp
  next
    case False
    then have "i \<notin> used_in \<sigma> b" by (simp add: used_in_def)
    then show ?thesis using False by simp
  qed
  have "card (dom \<sigma>) = Suc (card (dom \<sigma> - {i}))" using D(2) i by (metis card_Suc_Diff1 domI)
  then have n: "n - 1 = of_nat (card (dom \<sigma> - {i}))" using D(6) by simp
  have "\<forall>j t' f'. (\<sigma>(i := None)) j = Some (t', Some f') \<longrightarrow> f' \<in> U - set_option fr"
  proof (intro allI impI)
    fix j t' f' assume "(\<sigma>(i := None)) j = Some (t', Some f')"
    then have j: "j \<noteq> i" "\<sigma> j = Some (t', Some f')" by (auto split: if_splits)
    have "f' \<notin> set_option fr" using D(8) [OF j(2), of i t] i j(1) by (cases fr) auto
    then show "f' \<in> U - set_option fr" using D(7) [OF j(2)] by blast
  qed
  moreover have "\<forall>j k t1 t2 g. (\<sigma>(i := None)) j = Some (t1, Some g) \<longrightarrow> (\<sigma>(i := None)) k = Some (t2, Some g) \<longrightarrow> j = k"
    using D(8) by (auto split: if_splits)
  moreover have "\<forall>j k t' fr1 fr2. (\<sigma>(i := None)) j = Some (t', fr1) \<longrightarrow> (\<sigma>(i := None)) k = Some (t', fr2) \<longrightarrow> j = k"
    using D(4) by (auto split: if_splits)
  moreover have "\<forall>j t' fr'. (\<sigma>(i := None)) j = Some (t', fr') \<longrightarrow> tag_bucket t' = j div 16" using D(3) by auto
  moreover have "dom (\<sigma>(i := None)) \<subseteq> {..<524288}" using D(1) by auto
  moreover have "sb_nr_free ((info(i div 16 := (info (i div 16))\<lparr>sb_nr_free := sb_nr_free (info (i div 16)) + 1\<rparr>)) b)
      = 16 - int (card (used_in (\<sigma>(i := None)) b))" if "b < 32768" for b
    unfolding c k using D(5) [OF that] by (cases "b = i div 16") simp_all
  moreover have "n - 1 = of_nat (card (dom (\<sigma>(i := None))))" using n by simp
  ultimately show ?thesis by (intro slots_okI)
qed

text \<open>
  The shadow table lies below the table of the FPGA: \<^verbatim>\<open>addr_to_bucket\<close> compares the address of every bucket,
  also of the shadow table, with the end of the table of the FPGA.
\<close>

definition tables_ok :: "'a pgstate_scheme \<Rightarrow> bool" where
  "tables_ok s \<longleftrightarrow> g_shadow_pgtable s + 2 ^ 29 \<le> devmem_pgtable_base s \<and> devmem_pgtable_base s + 2 ^ 29 \<le> 2 ^ 64
    \<and> devmem_pgtable_limit s = devmem_pgtable_base s + 2 ^ 29
    \<and> (\<forall>i < 524288. let e = pg_mem s (sh s i); g = pg_mem s (fp s i) in
        pte_allocated e = pte_allocated g \<and> (pte_allocated g \<longrightarrow> pte_tag e = pte_tag g) \<and> (pte_valid g \<longrightarrow> pte_allocated g))
    \<and> (\<forall>b < 32768. conflict_head (shadow_bucket_infos s b) = [] \<and> \<not> sb_lock (shadow_bucket_infos s b))
    \<and> global_tlbflush_req s \<noteq> None"

definition pg_core :: "'a pgstate_scheme \<Rightarrow> bool" where
  "pg_core s \<longleftrightarrow> tables_ok s \<and> buddy_inv MAX_ORDER (pg_zone s)
    \<and> slots_ok (slots s) (shadow_bucket_infos s) (nr_allocated_ptes s) (used_frames (pg_zone s))"

definition proc_tables :: "proc_info \<Rightarrow> 'a pgstate_scheme \<Rightarrow> bool" where
  "proc_tables p s \<longleftrightarrow> fpga_pgtable p = devmem_pgtable_base s \<and> soc_shadow_pgtable p = g_shadow_pgtable s"

lemma tables_okD:
  assumes "tables_ok s"
  shows "g_shadow_pgtable s + 2 ^ 29 \<le> devmem_pgtable_base s" "devmem_pgtable_base s + 2 ^ 29 \<le> 2 ^ 64"
    "devmem_pgtable_limit s = devmem_pgtable_base s + 2 ^ 29"
    "i < 524288 \<Longrightarrow> pte_allocated (pg_mem s (sh s i)) = pte_allocated (pg_mem s (fp s i))"
    "i < 524288 \<Longrightarrow> pte_allocated (pg_mem s (fp s i)) \<Longrightarrow> pte_tag (pg_mem s (sh s i)) = pte_tag (pg_mem s (fp s i))"
    "i < 524288 \<Longrightarrow> pte_valid (pg_mem s (fp s i)) \<Longrightarrow> pte_allocated (pg_mem s (fp s i))"
    "b < 32768 \<Longrightarrow> conflict_head (shadow_bucket_infos s b) = []" "b < 32768 \<Longrightarrow> \<not> sb_lock (shadow_bucket_infos s b)"
    "\<exists>r. global_tlbflush_req s = Some r"
  using assms by (auto simp: tables_ok_def Let_def)

lemma pg_coreD:
  assumes "pg_core s"
  shows "tables_ok s" "buddy_inv MAX_ORDER (pg_zone s)"
    "slots_ok (slots s) (shadow_bucket_infos s) (nr_allocated_ptes s) (used_frames (pg_zone s))"
  using assms by (auto simp: pg_core_def)

lemma sh_eq [simp]: "sh s i = sh s j \<longleftrightarrow> i = j" and fp_eq [simp]: "fp s i = fp s j \<longleftrightarrow> i = j"
  by (simp_all add: sh_def fp_def PTE_SIZE_def)

lemma sh_fp: "tables_ok s \<Longrightarrow> i < 524288 \<Longrightarrow> sh s i \<noteq> fp s j"
  using tables_okD(1) [of s] by (simp add: sh_def fp_def PTE_SIZE_def)

text \<open>The change of one slot in both tables, with the counters.\<close>

definition set_slot ::
  "nat \<Rightarrow> lego_mem_pte \<Rightarrow> lego_mem_pte \<Rightarrow> int \<Rightarrow> fpga_zone \<Rightarrow> 'a pgstate_scheme \<Rightarrow> 'a pgstate_scheme" where
  "set_slot i e g d z s = s\<lparr>pg_mem := (pg_mem s)(sh s i := e, fp s i := g),
     shadow_bucket_infos := (shadow_bucket_infos s)(i div 16 :=
       (shadow_bucket_infos s (i div 16))\<lparr>sb_nr_free := sb_nr_free (shadow_bucket_infos s (i div 16)) + d\<rparr>),
     nr_allocated_ptes := nr_allocated_ptes s - of_int d, pg_zone := z\<rparr>"

lemma set_slot_simps [simp]:
  "sh (set_slot i e g d z s) = sh s" "fp (set_slot i e g d z s) = fp s"
  "pg_mem (set_slot i e g d z s) = (pg_mem s)(sh s i := e, fp s i := g)"
  "pg_zone (set_slot i e g d z s) = z" "global_spare_pfn (set_slot i e g d z s) = global_spare_pfn s"
  "g_shadow_pgtable (set_slot i e g d z s) = g_shadow_pgtable s"
  "devmem_pgtable_base (set_slot i e g d z s) = devmem_pgtable_base s"
  "devmem_pgtable_limit (set_slot i e g d z s) = devmem_pgtable_limit s"
  "nr_allocated_ptes (set_slot i e g d z s) = nr_allocated_ptes s - of_int d"
  "shadow_bucket_infos (set_slot i e g d z s) = (shadow_bucket_infos s)(i div 16 :=
       (shadow_bucket_infos s (i div 16))\<lparr>sb_nr_free := sb_nr_free (shadow_bucket_infos s (i div 16)) + d\<rparr>)"
  "global_tlbflush_req (set_slot i e g d z s) = global_tlbflush_req s"
  "dma_sent (set_slot i e g d z s) = dma_sent s" "fpga_dram (set_slot i e g d z s) = fpga_dram s"
  by (simp_all add: set_slot_def sh_def [abs_def] fp_def [abs_def])

lemma tables_ok_set_slot:
  assumes "tables_ok s" "i < 524288" "pte_allocated e = pte_allocated g" "pte_tag e = pte_tag g" "pte_valid g \<longrightarrow> pte_allocated g"
  shows "tables_ok (set_slot i e g d z s)"
  using assms sh_fp [OF assms(1)] sh_fp [OF assms(1), symmetric] tables_okD [OF assms(1)]
  by (auto simp: tables_ok_def Let_def fun_upd_def)

lemma slots_set_slot:
  assumes "tables_ok s" "i < 524288"
  shows "slots (set_slot i e g d z s) = (slots s)(i := if pte_allocated g
     then Some (pte_tag g, if pte_valid g then Some (pte_frame g) else None) else None)"
proof
  fix j show "slots (set_slot i e g d z s) j = ((slots s)(i := if pte_allocated g
     then Some (pte_tag g, if pte_valid g then Some (pte_frame g) else None) else None)) j"
    using assms(2) sh_fp [OF assms(1,2), of j] by (auto simp: slots_def Let_def)
qed

lemma slots_mem: "pg_mem s = pg_mem s' \<Longrightarrow> devmem_pgtable_base s = devmem_pgtable_base s' \<Longrightarrow> slots s = slots s'"
  by (simp add: slots_def [abs_def] fp_def)

lemma pg_core_dram [simp]: "pg_core (s\<lparr>fpga_dram := d\<rparr>) = pg_core s" and slots_dram [simp]: "slots (s\<lparr>fpga_dram := d\<rparr>) = slots s"
  using slots_mem [of "s\<lparr>fpga_dram := d\<rparr>" s] by (auto simp: pg_core_def tables_ok_def sh_def fp_def)

lemma pg_core_dma [simp]: "pg_core s \<Longrightarrow> pg_core (s\<lparr>global_tlbflush_req := Some r, dma_sent := d\<rparr>)"
    and slots_dma [simp]: "slots (s\<lparr>global_tlbflush_req := r', dma_sent := d\<rparr>) = slots s"
  using slots_mem [of "s\<lparr>global_tlbflush_req := Some r, dma_sent := d\<rparr>" s] slots_mem [of "s\<lparr>global_tlbflush_req := r', dma_sent := d\<rparr>" s]
  by (auto simp: pg_core_def tables_ok_def sh_def fp_def)

section \<open>Mapping one page\<close>

lemma find_bucket:
  "(find P (bucket_ptes (base + b * BUCKET_SIZE)) = None \<and> (\<forall>i. i div 16 = b \<longrightarrow> \<not> P (base + i * PTE_SIZE)))
   \<or> (\<exists>i. i div 16 = b \<and> P (base + i * PTE_SIZE) \<and> find P (bucket_ptes (base + b * BUCKET_SIZE)) = Some (base + i * PTE_SIZE))"
proof -
  have e: "base + b * BUCKET_SIZE + k * PTE_SIZE = base + (16 * b + k) * PTE_SIZE" for k
    by (simp add: BUCKET_SIZE_def PTE_SIZE_def)
  show ?thesis
  proof (cases "find P (bucket_ptes (base + b * BUCKET_SIZE))")
    case None
    have "\<not> P (base + i * PTE_SIZE)" if "i div 16 = b" for i
    proof -
      have "i = 16 * b + i mod 16" using that by auto
      then have "base + i * PTE_SIZE = base + b * BUCKET_SIZE + (i mod 16) * PTE_SIZE" using e by metis
      then have "base + i * PTE_SIZE \<in> set (bucket_ptes (base + b * BUCKET_SIZE))" by (auto simp: bucket_ptes_def)
      then show ?thesis using None unfolding find_None_iff by blast
    qed
    then show ?thesis using None by blast
  next
    case (Some x)
    then have "P x" "x \<in> set (bucket_ptes (base + b * BUCKET_SIZE))" by (auto simp: find_Some_iff)
    then obtain k where k: "k < 16" "x = base + b * BUCKET_SIZE + k * PTE_SIZE" "P x" by (auto simp: bucket_ptes_def)
    then have "(16 * b + k) div 16 = b" "x = base + (16 * b + k) * PTE_SIZE" using e by auto
    then show ?thesis using Some k(3) by blast
  qed
qed

lemma find_bucket_cases:
  obtains (none) "find P (bucket_ptes (base + b * BUCKET_SIZE)) = None" "\<And>i. i div 16 = b \<Longrightarrow> \<not> P (base + i * PTE_SIZE)"
  | (slot) i where "i div 16 = b" "P (base + i * PTE_SIZE)" "find P (bucket_ptes (base + b * BUCKET_SIZE)) = Some (base + i * PTE_SIZE)"
  using find_bucket [of P base b]
proof (elim disjE exE conjE)
  assume "find P (bucket_ptes (base + b * BUCKET_SIZE)) = None" "\<forall>i. i div 16 = b \<longrightarrow> \<not> P (base + i * PTE_SIZE)"
  then show thesis by (intro none) simp_all
qed (rule slot)

lemma find_shadow_cases:
  obtains (none) "find P (bucket_ptes (g_shadow_pgtable s + b * BUCKET_SIZE)) = None" "\<And>i. i div 16 = b \<Longrightarrow> \<not> P (sh s i)"
  | (slot) i where "i div 16 = b" "P (sh s i)" "find P (bucket_ptes (g_shadow_pgtable s + b * BUCKET_SIZE)) = Some (sh s i)"
  by (rule find_bucket_cases [of P "g_shadow_pgtable s" b]) (simp_all add: that sh_def)

lemma find_fpga_cases:
  obtains (none) "find P (bucket_ptes (devmem_pgtable_base s + b * BUCKET_SIZE)) = None" "\<And>i. i div 16 = b \<Longrightarrow> \<not> P (fp s i)"
  | (slot) i where "i div 16 = b" "P (fp s i)" "find P (bucket_ptes (devmem_pgtable_base s + b * BUCKET_SIZE)) = Some (fp s i)"
  by (rule find_bucket_cases [of P "devmem_pgtable_base s" b]) (simp_all add: that fp_def)

lemma scast_small: "unat x < 2 ^ 31 \<Longrightarrow> (scast (x :: u32) :: u64) = of_nat (unat x)"
proof -
  assume a: "unat x < 2 ^ 31"
  have u: "uint x = int (unat x)" by simp
  have "int (unat x) < 2 ^ 31" using a by (metis of_nat_less_iff of_nat_numeral of_nat_power)
  then have "signed_take_bit 31 (int (unat x)) = int (unat x)"
    by (intro signed_take_bit_int_eq_self) linarith+
  then have "sint x = int (unat x)" unfolding sint_uint u by simp
  then have "scast x = (of_int (int (unat x)) :: u64)" by (metis of_int_sint)
  then show ?thesis by (simp only: of_int_of_nat_eq)
qed

lemma bucket_info: "index_to_shadow_bucket_info (addr_to_bucket_index va 22) = Some (tag_bucket (generate_tag pid va))"
  using bucket_index_less [of va] unfolding index_to_shadow_bucket_info_def bucket_index [of va pid, symmetric]
  by (subst scast_small) (auto simp: word_le_nat_alt unsigned_ucast_eq take_bit_nat_eq_self)

lemma tag_bucket_less: "tag_bucket (generate_tag pid va) < 32768"
  using bucket_index_less bucket_index by metis

lemma shadow_bucket:
  assumes "tables_ok s" "proc_tables p s"
  shows "addr_to_bucket s (soc_shadow_pgtable p) va 22 = Some (g_shadow_pgtable s + tag_bucket (generate_tag pid va) * BUCKET_SIZE)"
  using assms(2) tables_okD(1,3) [OF assms(1)] tag_bucket_less [of pid va] bucket_index [of va pid]
  by (auto simp: addr_to_bucket_def Let_def proc_tables_def BUCKET_SIZE_def PTE_SIZE_def)

lemma fpga_bucket:
  assumes "tables_ok s" "proc_tables p s"
  shows "addr_to_bucket s (fpga_pgtable p) va 22 = Some (devmem_pgtable_base s + tag_bucket (generate_tag pid va) * BUCKET_SIZE)"
  using assms(2) tables_okD(3) [OF assms(1)] tag_bucket_less [of pid va] bucket_index [of va pid]
  by (auto simp: addr_to_bucket_def Let_def proc_tables_def BUCKET_SIZE_def PTE_SIZE_def)

lemma slot_in_bucket: "b < 32768 \<Longrightarrow> i div 16 = b \<Longrightarrow> i < (524288 :: nat)"
  by linarith

lemma shadow_to_fpga:
  assumes "tables_ok s" "proc_tables p s" "i < 524288"
  shows "shadow_to_fpga_pte p (sh s i) = Some (fp s i)"
proof -
  have "(of_nat (sh s i) - of_nat (soc_shadow_pgtable p) :: u64) = of_nat (i * PTE_SIZE)"
    using assms(2) by (simp add: sh_def proc_tables_def)
  moreover have "unat (of_nat (i * PTE_SIZE) :: u64) = i * PTE_SIZE"
    using assms(3) unfolding PTE_SIZE_def unat_of_nat by (simp del: of_nat_mult add: take_bit_nat_eq_self)
  ultimately show ?thesis using assms(2,3)
    by (simp add: shadow_to_fpga_pte_def Let_def fp_def proc_tables_def word_le_nat_alt PTE_SIZE_def del: of_nat_mult)
qed

lemma get_order_page [simp]: "c_get_order PAGE_SIZE = 0"
  by code_simp

lemma ppa_frame:
  assumes "pfn < 512"
  shows "pte_frame (e\<lparr>pte_ppa := ucast (PFN_PHYS (of_nat pfn) + FPGA_MEMORY_MAP_MAPPING_BASE)\<rparr>) = pfn"
proof -
  let ?p = "PFN_PHYS (of_nat pfn) :: u64"
  note s = bus_address(1) [OF assms] and u = bus_address(2) [OF assms]
  have "ucast (ucast (?p + FPGA_MEMORY_MAP_MAPPING_BASE) :: 60 word) = ?p + FPGA_MEMORY_MAP_MAPPING_BASE"
    using assms s by (intro word_unat_eq_iff [THEN iffD2]) (simp add: unsigned_ucast_eq unsigned_take_bit_eq take_bit_nat_eq_self)
  then show ?thesis using u by (simp add: pte_frame_def PHYS_PFN_def unat_drop_bit PAGE_SHIFT_def)
qed

text \<open>The frames of a slot that the allocator gives.\<close>

lemma used_frames_alloc:
  assumes "buddy_inv MAX_ORDER z" "free_frames z' = free_frames z - F" "F \<subseteq> free_frames z"
  shows "used_frames z' = used_frames z \<union> F" "F \<inter> used_frames z = {}"
  using assms(2,3) free_frames_range [OF assms(1)] unfolding used_frames_def by blast+

lemma proc_tables_cong:
  "devmem_pgtable_base s = devmem_pgtable_base s' \<Longrightarrow> g_shadow_pgtable s = g_shadow_pgtable s' \<Longrightarrow> proc_tables p s = proc_tables p s'"
  by (simp add: proc_tables_def)

lemma slots_None: "tables_ok s \<Longrightarrow> i < 524288 \<Longrightarrow> slots s i = None \<longleftrightarrow> \<not> pte_allocated (pg_mem s (sh s i))"
  using tables_okD(4) [of s i] by (simp add: slots_def Let_def)

lemma map_slot:
  assumes inv: "pg_core s" and i: "i < 524288" "slots s i = None" "tag_bucket t = i div 16" and t: "\<And>j fr. slots s j \<noteq> Some (t, fr)"
    and z: "buddy_inv MAX_ORDER z" "used_frames (pg_zone s) \<subseteq> used_frames z"
      "\<And>f. fr = Some f \<Longrightarrow> f \<in> used_frames z \<and> (\<forall>j t. slots s j \<noteq> Some (t, Some f))"
    and g: "pte_allocated g" "pte_tag g = t" "pte_valid g \<longleftrightarrow> fr \<noteq> None" "\<And>f. fr = Some f \<Longrightarrow> pte_frame g = f"
      "pte_allocated e" "pte_tag e = t"
  shows "pg_core (set_slot i e g (- 1) z s)" "slots (set_slot i e g (- 1) z s) = (slots s)(i \<mapsto> (t, fr))"
proof -
  note D = pg_coreD [OF inv]
  show sl: "slots (set_slot i e g (- 1) z s) = (slots s)(i \<mapsto> (t, fr))"
    unfolding slots_set_slot [OF D(1) i(1)] using g(1-4) by (cases fr) auto
  have "slots_ok ((slots s)(i \<mapsto> (t, fr))) ((shadow_bucket_infos s)(i div 16 := (shadow_bucket_infos s (i div 16))
      \<lparr>sb_nr_free := sb_nr_free (shadow_bucket_infos s (i div 16)) - 1\<rparr>)) (nr_allocated_ptes s + 1) (used_frames z)"
    by (rule slots_ok_map [OF D(3) i t z(3,2)])
  then show "pg_core (set_slot i e g (- 1) z s)"
    unfolding pg_core_def sl using z(1) tables_ok_set_slot [OF D(1) i(1), of e g "- 1" z] g by simp
qed

text \<open>One iteration of the loop that maps a range. The slot is the first free one of the bucket.\<close>

lemma shadow_alloc:
  fixes va :: u64
  assumes inv: "pg_core s" and p: "proc_tables p s"
  defines "t \<equiv> generate_tag (pi_pid p) va"
  shows "(alloc_one_shadow_pte p va 22 s = Some (None, s) \<and> (\<forall>i. i div 16 = tag_bucket t \<longrightarrow> slots s i \<noteq> None))
    \<or> (\<exists>i. i < 524288 \<and> i div 16 = tag_bucket t \<and> slots s i = None \<and> alloc_one_shadow_pte p va 22 s =
         Some (Some (sh s i), set_slot i ((pg_mem s (sh s i))\<lparr>pte_tag := t, pte_allocated := True, pte_valid := False\<rparr>)
            (pg_mem s (fp s i)) (- 1) (pg_zone s) s))"
proof -
  note D = pg_coreD [OF inv] and T = tables_okD [OF pg_coreD(1) [OF inv]]
  have b: "tag_bucket t < 32768" unfolding t_def by (rule tag_bucket_less)
  note S = alloc_one_shadow_pte_def [of p va 22 s, unfolded shadow_bucket [OF D(1) p, of va "pi_pid p"] bucket_info [of va "pi_pid p"],
      folded t_def, simplified]
  show ?thesis
  proof (cases rule: find_shadow_cases [of "\<lambda>pte. \<not> pte_allocated (pg_mem s pte)" s "tag_bucket t"])
    case none
    then have "slots s i \<noteq> None" if "i div 16 = tag_bucket t" for i
      using slots_None [OF D(1) slot_in_bucket [OF b that]] that by blast
    then show ?thesis using none(1) by (simp add: S)
  next
    case 2: (slot i)
    note i = slot_in_bucket [OF b 2(1)]
    have e: "pg_mem s = (pg_mem s)(fp s i := pg_mem s (fp s i))" by simp
    have "upd_bucket (tag_bucket t) (\<lambda>i. i\<lparr>sb_nr_free := sb_nr_free i - 1\<rparr>) (upd_pte (sh s i) (\<lambda>e. e\<lparr>pte_tag := t, pte_allocated := True, pte_valid := False\<rparr>) s)
        \<lparr>nr_allocated_ptes := nr_allocated_ptes s + 1\<rparr>
      = set_slot i ((pg_mem s (sh s i))\<lparr>pte_tag := t, pte_allocated := True, pte_valid := False\<rparr>) (pg_mem s (fp s i)) (- 1) (pg_zone s) s"
      using sh_fp [OF D(1) i, of i] by (simp add: set_slot_def upd_bucket_def upd_pte_def 2(1) fun_upd_twist)
    then show ?thesis using 2 i slots_None [OF D(1) i] by (auto simp: S Let_def upd_bucket_def upd_pte_def)
  qed
qed

lemma upd_pte_set_slot [simp]: "upd_pte (fp s i) G (set_slot i e g d z s) = set_slot i e (G g) d z s"
  by (simp add: upd_pte_def set_slot_def fp_def)

lemma set_slot_zone [simp]: "(set_slot i e g d z s)\<lparr>pg_zone := z'\<rparr> = set_slot i e g d z' s"
  by (simp add: set_slot_def)

lemma pte_frame_upd [simp]:
  "pte_frame (e\<lparr>pte_valid := v\<rparr>) = pte_frame e" "pte_frame (e\<lparr>pte_allocated := v\<rparr>) = pte_frame e" "pte_frame (e\<lparr>pte_tag := t\<rparr>) = pte_frame e"
  by (simp_all add: pte_frame_def)

lemma fpga_alloc:
  assumes inv: "pg_core s" and p: "proc_tables p s" and i: "i < 524288" "slots s i = None" "tag_bucket t = i div 16"
    and t: "\<And>j fr. slots s j \<noteq> Some (t, fr)" and fl: "fl AND LEGOMEM_VM_FLAGS_USE_SPARE_PFN = 0" and e: "pte_allocated e" "pte_tag e = t"
  shows "\<exists>r s' fr. alloc_one_fpga_pte p (sh s i) va fl PAGE_SIZE (set_slot i e (pg_mem s (fp s i)) (- 1) (pg_zone s) s) = Some (r, s')
     \<and> pg_core s' \<and> slots s' = (slots s)(i \<mapsto> (t, fr)) \<and> proc_tables p s' \<and> global_spare_pfn s' = global_spare_pfn s \<and> set_option fr \<subseteq> free_frames (pg_zone s)
     \<and> free_frames (pg_zone s') = free_frames (pg_zone s) - set_option fr
     \<and> (fr \<noteq> None \<longleftrightarrow> fl AND LEGOMEM_VM_FLAGS_POPULATE \<noteq> 0 \<and> free_frames (pg_zone s) \<noteq> {})"
proof -
  note D = pg_coreD [OF inv] and T = tables_okD [OF pg_coreD(1) [OF inv]]
  let ?z = "pg_zone s" and ?g = "pg_mem s (fp s i)"
  have un: "\<not> pte_allocated ?g" "\<not> pte_valid ?g" using slots_None [OF D(1) i(1)] i(2) T(4,6) [OF i(1)] by auto
  have sf: "sh s i \<noteq> fp s i" by (rule sh_fp [OF D(1) i(1)])
  note A = alloc_one_fpga_pte_def [of p "sh s i" va fl PAGE_SIZE "set_slot i e ?g (- 1) ?z s",
      unfolded shadow_to_fpga [OF D(1) p i(1)], simplified, unfolded un if_not_P if_P, simplified]
  have P: "proc_tables p (set_slot i e g d z s)" "proc_tables p (set_slot i e g d z s\<lparr>fpga_dram := m\<rparr>)" for e g d z m
    using p by (simp_all add: proc_tables_def)
  note M = map_slot [OF inv i t]
  show ?thesis
  proof (cases "fl AND LEGOMEM_VM_FLAGS_POPULATE = 0")
    case True
    let ?g' = "?g\<lparr>pte_allocated := True, pte_tag := t, pte_valid := False, pte_ppa := 0\<rparr>"
    have "pg_core (set_slot i e ?g' (- 1) ?z s)" "slots (set_slot i e ?g' (- 1) ?z s) = (slots s)(i \<mapsto> (t, None))"
      using M [where z = ?z and fr = None and g = ?g' and e = e] D(2) e by simp_all
    then show ?thesis using True un sf P e
      by (intro exI [of _ "Some (fp s i)"] exI [of _ "set_slot i e ?g' (- 1) ?z s"] exI [of _ None]) (simp add: A Let_def)
  next
    case pop: False
    from D(2) show ?thesis
    proof (cases rule: alloc_pfn_0)
      case 1: oom
      let ?g' = "?g\<lparr>pte_allocated := True, pte_tag := t\<rparr>"
      have "pg_core (set_slot i e ?g' (- 1) ?z s)" "slots (set_slot i e ?g' (- 1) ?z s) = (slots s)(i \<mapsto> (t, None))"
        using M [where z = ?z and fr = None and g = ?g' and e = e] D(2) e un by simp_all
      then show ?thesis using pop un sf P e 1 fl
        by (intro exI [of _ None] exI [of _ "set_slot i e ?g' (- 1) ?z s"]) (simp add: A Let_def)
    next
      case 2: (frame f z')
      let ?g' = "?g\<lparr>pte_allocated := True, pte_tag := t, pte_ppa := ucast (PFN_PHYS (of_nat f) + FPGA_MEMORY_MAP_MAPPING_BASE), pte_valid := True\<rparr>"
      have u: "used_frames z' = used_frames ?z \<union> {f}" "f \<notin> used_frames ?z"
        using used_frames_alloc [OF D(2), of z' "{f}"] 2(2,6) by auto
      have nf: "slots s j \<noteq> Some (t', Some f)" for j t' using slots_okD(7) [OF D(3)] u(2) by blast
      have m: "pg_core (set_slot i e ?g' (- 1) z' s)" "slots (set_slot i e ?g' (- 1) z' s) = (slots s)(i \<mapsto> (t, Some f))"
        using M [where z = z' and fr = "Some f" and g = ?g' and e = e] 2 e u nf ppa_frame [OF 2(4)] by (simp_all add: subset_insertI)
      have "pfn_to_soc_va (fpga_mem_start_soc_va s) f = Some (fpga_mem_start_soc_va s + of_nat f * PAGE_SIZE)"
        using 2(3,4) by (simp add: pfn_to_soc_va_def)
      moreover have "fpga_mem_start_soc_va (set_slot i e g d z s) = fpga_mem_start_soc_va s" for e g d z by (simp add: set_slot_def)
      ultimately show ?thesis using pop un sf P e 2 fl m
        by (cases "fl AND LEGOMEM_VM_FLAGS_ZERO = 0"; simp add: A Let_def; intro exI [of _ "Some f"]; auto)
    qed
  qed
qed

section \<open>Mapping and unmapping ranges\<close>

text \<open>
  What a range of pages of a process becomes. \<open>m k\<close> is what happened to page \<open>k\<close>: nothing, when its bucket was
  full, or the frame it got, if any.
\<close>

definition range_tag :: "proc_info \<Rightarrow> u64 \<Rightarrow> nat \<Rightarrow> u64" where
  "range_tag p start k = generate_tag (pi_pid p) (page_va start k)"

definition bucket_full :: "'a pgstate_scheme \<Rightarrow> u64 \<Rightarrow> bool" where
  "bucket_full s t \<longleftrightarrow> (\<forall>i. i div 16 = tag_bucket t \<longrightarrow> slots s i \<noteq> None)"

definition range_maps :: "proc_info \<Rightarrow> u64 \<Rightarrow> nat \<Rightarrow> (nat \<Rightarrow> nat option option) \<Rightarrow> (u64 \<times> nat option) set" where
  "range_maps p start n m = {(range_tag p start k, fr) |k fr. k < n \<and> m k = Some fr}"

definition range_frames :: "nat \<Rightarrow> (nat \<Rightarrow> nat option option) \<Rightarrow> nat set" where
  "range_frames n m = {f. \<exists>k < n. m k = Some (Some f)}"

lemma range_tag_0 [simp]: "range_tag p start 0 = generate_tag (pi_pid p) start"
  by (simp add: range_tag_def)

lemma range_tag_Suc: "range_tag p (start + PAGE_SIZE) k = range_tag p start (Suc k)"
  by (simp add: range_tag_def page_va_Suc)

lemma range_maps_Suc: "range_maps p start (Suc n) m =
    range_maps p (start + PAGE_SIZE) n (\<lambda>k. m (Suc k)) \<union> (case m 0 of None \<Rightarrow> {} | Some fr \<Rightarrow> {(generate_tag (pi_pid p) start, fr)})"
  (is "?l = ?r")
proof (intro set_eqI iffI)
  fix x assume "x \<in> ?l"
  then obtain k fr where k: "x = (range_tag p start k, fr)" "k < Suc n" "m k = Some fr" by (auto simp: range_maps_def)
  then show "x \<in> ?r" by (cases k) (auto simp: range_maps_def range_tag_Suc)
next
  fix x assume "x \<in> ?r"
  then consider k fr where "x = (range_tag p start (Suc k), fr)" "k < n" "m (Suc k) = Some fr" | fr where "m 0 = Some fr" "x = (range_tag p start 0, fr)"
    by (auto simp: range_maps_def range_tag_Suc split: option.splits)
  then show "x \<in> ?l" by cases (auto simp: range_maps_def simp del: range_tag_0)
qed

lemma range_frames_Suc: "range_frames (Suc n) m = range_frames n (\<lambda>k. m (Suc k)) \<union> (case m 0 of Some (Some f) \<Rightarrow> {f} | _ \<Rightarrow> {})"
  (is "?l = ?r")
proof (intro set_eqI iffI)
  fix f assume "f \<in> ?l"
  then obtain k where "k < Suc n" "m k = Some (Some f)" by (auto simp: range_frames_def)
  then show "f \<in> ?r" by (cases k) (auto simp: range_frames_def)
next
  fix f assume "f \<in> ?r"
  then consider k where "k < n" "m (Suc k) = Some (Some f)" | "m 0 = Some (Some f)"
    by (auto simp: range_frames_def split: option.splits)
  then show "f \<in> ?l" by cases (auto simp: range_frames_def)
qed

lemma page_loop_less:
  assumes "unat start + Suc n * 2 ^ 22 < 2 ^ 64"
  shows "start < page_va start (Suc n)" "unat (start + PAGE_SIZE) + n * 2 ^ 22 < 2 ^ 64"
    "page_va start (Suc n) = page_va (start + PAGE_SIZE) n" "unat (start + PAGE_SIZE) = unat start + 2 ^ 22"
proof -
  have "unat (page_va start 1) = unat start + 2 ^ 22" using unat_page_va [of start 1] assms by simp
  then show e: "unat (start + PAGE_SIZE) = unat start + 2 ^ 22" by (simp add: page_va_def)
  then show "unat (start + PAGE_SIZE) + n * 2 ^ 22 < 2 ^ 64" using assms by simp
  show "page_va start (Suc n) = page_va (start + PAGE_SIZE) n" by (simp add: page_va_Suc)
  show "start < page_va start (Suc n)" unfolding word_less_nat_alt using unat_page_va [OF assms] by simp
qed

definition alloc_done ::
  "proc_info \<Rightarrow> u64 \<Rightarrow> nat \<Rightarrow> u64 \<Rightarrow> 'a pgstate_scheme \<Rightarrow> 'a pgstate_scheme \<Rightarrow> (nat \<Rightarrow> nat option option) \<Rightarrow> bool" where
  "alloc_done p start n fl s s' m \<longleftrightarrow> pg_core s' \<and> proc_tables p s' \<and> global_spare_pfn s' = global_spare_pfn s
     \<and> ran (slots s') = ran (slots s) \<union> range_maps p start n m
     \<and> (\<forall>k < n. m k = None \<longleftrightarrow> bucket_full s (range_tag p start k))
     \<and> range_frames n m \<subseteq> free_frames (pg_zone s) \<and> free_frames (pg_zone s') = free_frames (pg_zone s) - range_frames n m
     \<and> (\<forall>k < n. m k = Some None \<longrightarrow> fl AND LEGOMEM_VM_FLAGS_POPULATE = 0 \<or> card (free_frames (pg_zone s)) < n)
     \<and> (fl AND LEGOMEM_VM_FLAGS_POPULATE = 0 \<longrightarrow> range_frames n m = {})"

lemma alloc_doneI:
  assumes "pg_core s'" "proc_tables p s'" "ran (slots s') = ran (slots s) \<union> range_maps p start n m"
    "\<And>k. k < n \<Longrightarrow> m k = None \<longleftrightarrow> bucket_full s (range_tag p start k)"
    "range_frames n m \<subseteq> free_frames (pg_zone s)" "free_frames (pg_zone s') = free_frames (pg_zone s) - range_frames n m"
    "\<And>k. k < n \<Longrightarrow> m k = Some None \<Longrightarrow> fl AND LEGOMEM_VM_FLAGS_POPULATE = 0 \<or> card (free_frames (pg_zone s)) < n"
    "fl AND LEGOMEM_VM_FLAGS_POPULATE = 0 \<Longrightarrow> range_frames n m = {}" "global_spare_pfn s' = global_spare_pfn s"
  shows "alloc_done p start n fl s s' m"
  unfolding alloc_done_def using assms by (intro conjI allI impI; (assumption | blast))

lemma alloc_doneD:
  assumes "alloc_done p start n fl s s' m"
  shows "pg_core s'" "proc_tables p s'" "ran (slots s') = ran (slots s) \<union> range_maps p start n m"
    "k < n \<Longrightarrow> m k = None \<longleftrightarrow> bucket_full s (range_tag p start k)"
    "range_frames n m \<subseteq> free_frames (pg_zone s)" "free_frames (pg_zone s') = free_frames (pg_zone s) - range_frames n m"
    "k < n \<Longrightarrow> m k = Some None \<Longrightarrow> fl AND LEGOMEM_VM_FLAGS_POPULATE = 0 \<or> card (free_frames (pg_zone s)) < n"
    "fl AND LEGOMEM_VM_FLAGS_POPULATE = 0 \<Longrightarrow> range_frames n m = {}" "global_spare_pfn s' = global_spare_pfn s"
  using assms unfolding alloc_done_def by blast+

lemma alloc_done_skip:
  assumes "bucket_full s (range_tag p start 0)" "alloc_done p (start + PAGE_SIZE) n fl s s' m"
  shows "alloc_done p start (Suc n) fl s s' (case_nat None m)"
proof (rule alloc_doneI)
  note D = alloc_doneD [OF assms(2)]
  show "pg_core s'" "proc_tables p s'" "global_spare_pfn s' = global_spare_pfn s" by (fact D)+
  show "ran (slots s') = ran (slots s) \<union> range_maps p start (Suc n) (case_nat None m)" using D(3) by (simp add: range_maps_Suc)
  show "range_frames (Suc n) (case_nat None m) \<subseteq> free_frames (pg_zone s)"
    "free_frames (pg_zone s') = free_frames (pg_zone s) - range_frames (Suc n) (case_nat None m)" using D(5,6) by (simp_all add: range_frames_Suc)
  show "fl AND LEGOMEM_VM_FLAGS_POPULATE = 0 \<Longrightarrow> range_frames (Suc n) (case_nat None m) = {}" using D(8) by (simp add: range_frames_Suc)
  fix k assume k: "k < Suc n"
  show "case_nat None m k = None \<longleftrightarrow> bucket_full s (range_tag p start k)"
    using assms(1) D(4) k by (cases k) (simp_all add: range_tag_Suc)
  assume "case_nat None m k = Some None"
  then show "fl AND LEGOMEM_VM_FLAGS_POPULATE = 0 \<or> card (free_frames (pg_zone s)) < Suc n"
    using D(7) [of "k - 1"] k by (cases k) auto
qed

lemma alloc_done_cons:
  assumes i: "i div 16 = tag_bucket (range_tag p start 0)" "slots s i = None" "slots s1 = (slots s)(i \<mapsto> (range_tag p start 0, fr))"
    and sp: "global_spare_pfn s1 = global_spare_pfn s" and tb: "\<And>k. k < n \<Longrightarrow> tag_bucket (range_tag p start (Suc k)) \<noteq> tag_bucket (range_tag p start 0)"
    and f: "set_option fr \<subseteq> free_frames (pg_zone s)" "free_frames (pg_zone s1) = free_frames (pg_zone s) - set_option fr" "finite (free_frames (pg_zone s))"
      "fr \<noteq> None \<longleftrightarrow> fl AND LEGOMEM_VM_FLAGS_POPULATE \<noteq> 0 \<and> free_frames (pg_zone s) \<noteq> {}"
    and d: "alloc_done p (start + PAGE_SIZE) n fl s1 s' m"
  shows "alloc_done p start (Suc n) fl s s' (case_nat (Some fr) m)"
proof (rule alloc_doneI)
  note D = alloc_doneD [OF d]
  show "pg_core s'" "proc_tables p s'" by (fact D)+
  show "global_spare_pfn s' = global_spare_pfn s" using D(9) sp by simp
  show "ran (slots s') = ran (slots s) \<union> range_maps p start (Suc n) (case_nat (Some fr) m)"
    using D(3) i by (simp add: range_maps_Suc ran_map_upd)
  have rf: "range_frames (Suc n) (case_nat (Some fr) m) = range_frames n m \<union> set_option fr"
    by (cases fr) (auto simp: range_frames_Suc)
  show "range_frames (Suc n) (case_nat (Some fr) m) \<subseteq> free_frames (pg_zone s)"
    "free_frames (pg_zone s') = free_frames (pg_zone s) - range_frames (Suc n) (case_nat (Some fr) m)"
    unfolding rf using D(5,6) f(1,2) by auto
  show "range_frames (Suc n) (case_nat (Some fr) m) = {}" if "fl AND LEGOMEM_VM_FLAGS_POPULATE = 0"
    unfolding rf using D(8) that f(4) by (cases fr) auto
  have sb: "slots s1 j = slots s j" if "j div 16 \<noteq> tag_bucket (range_tag p start 0)" for j
    using i(1,3) that by auto
  have c: "card (free_frames (pg_zone s)) \<le> Suc (card (free_frames (pg_zone s1)))"
    unfolding f(2) using card_Diff_singleton_if [of "free_frames (pg_zone s)"] by (cases fr) auto
  fix k assume k: "k < Suc n"
  show "case_nat (Some fr) m k = None \<longleftrightarrow> bucket_full s (range_tag p start k)"
  proof (cases k)
    case 0
    then show ?thesis using i(1,2) by (auto simp: bucket_full_def simp del: range_tag_0)
  next
    case (Suc j)
    then have "bucket_full s1 (range_tag p start k) = bucket_full s (range_tag p start k)"
      using tb [of j] k sb unfolding bucket_full_def by (metis Suc_less_SucD)
    then show ?thesis using D(4) [of j] k Suc by (simp add: range_tag_Suc)
  qed
  assume e: "case_nat (Some fr) m k = Some None"
  show "fl AND LEGOMEM_VM_FLAGS_POPULATE = 0 \<or> card (free_frames (pg_zone s)) < Suc n"
  proof (cases k)
    case 0
    then show ?thesis using e f(4) by auto
  next
    case (Suc j)
    then show ?thesis using D(7) [of j] e k c by auto
  qed
qed

lemma alloc_loop_spec:
  assumes "pg_core s" "proc_tables p s" "fl AND LEGOMEM_VM_FLAGS_USE_SPARE_PFN = 0" "unat start + n * 2 ^ 22 < 2 ^ 64" "n \<le> 32768"
    "\<And>k j fr. k < n \<Longrightarrow> slots s j \<noteq> Some (range_tag p start k, fr)"
  shows "\<exists>s' m. alloc_pte_loop p start (page_va start n) fl PAGE_SIZE s = Some s' \<and> alloc_done p start n fl s s' m"
  using assms
proof (induction n arbitrary: s start)
  case 0
  then show ?case by (subst alloc_pte_loop.simps) (auto simp: range_maps_def range_frames_def alloc_done_def)
next
  case (Suc n)
  note inv = Suc.prems(1) and p = Suc.prems(2) and w = page_loop_less [OF Suc.prems(4)] and fl = Suc.prems(3)
  let ?t = "range_tag p start"
  have fresh: "\<And>j fr. slots s j \<noteq> Some (?t 0, fr)" using Suc.prems(6) [of 0] by simp
  have loop: "alloc_pte_loop p start (page_va start (Suc n)) fl PAGE_SIZE s = do {
      (r, s) \<leftarrow> alloc_one_shadow_pte p start 22 s;
      case r of None \<Rightarrow> alloc_pte_loop p (start + PAGE_SIZE) (page_va (start + PAGE_SIZE) n) fl PAGE_SIZE s
      | Some pte \<Rightarrow> do {
        (_, s) \<leftarrow> alloc_one_fpga_pte p pte start fl PAGE_SIZE s;
        alloc_pte_loop p (start + PAGE_SIZE) (page_va (start + PAGE_SIZE) n) fl PAGE_SIZE s } }"
    unfolding w(3) [symmetric] using w(1) by (subst alloc_pte_loop.simps) (simp add: PAGE_SHIFT_def)
  have tb: "tag_bucket (?t (Suc k)) \<noteq> tag_bucket (?t 0)" if "k < n" for k
    using page_buckets_distinct [of start "Suc k" 0 "pi_pid p"] Suc.prems(4,5) that by (auto simp: range_tag_def)
  consider "alloc_one_shadow_pte p start 22 s = Some (None, s)" "bucket_full s (?t 0)"
    | i where "i < 524288" "i div 16 = tag_bucket (?t 0)" "slots s i = None" "alloc_one_shadow_pte p start 22 s =
         Some (Some (sh s i), set_slot i ((pg_mem s (sh s i))\<lparr>pte_tag := ?t 0, pte_allocated := True, pte_valid := False\<rparr>)
            (pg_mem s (fp s i)) (- 1) (pg_zone s) s)"
    using shadow_alloc [OF inv p, of start, folded range_tag_0 bucket_full_def] by (elim disjE exE conjE) (rule that; assumption)+
  then show ?case
  proof cases
    case 1
    have "\<exists>s' m. alloc_pte_loop p (start + PAGE_SIZE) (page_va (start + PAGE_SIZE) n) fl PAGE_SIZE s = Some s' \<and> alloc_done p (start + PAGE_SIZE) n fl s s' m"
      using Suc.IH [OF inv p fl w(2)] Suc.prems(5,6) by (simp add: range_tag_Suc)
    then show ?thesis using 1(1) by (auto simp: loop intro: alloc_done_skip [OF 1(2)])
  next
    case 2
    have e: "pte_allocated ((pg_mem s (sh s i))\<lparr>pte_tag := ?t 0, pte_allocated := True, pte_valid := False\<rparr>)"
      "pte_tag ((pg_mem s (sh s i))\<lparr>pte_tag := ?t 0, pte_allocated := True, pte_valid := False\<rparr>) = ?t 0" by simp_all
    obtain r s1 fr where f: "alloc_one_fpga_pte p (sh s i) start fl PAGE_SIZE (set_slot i ((pg_mem s (sh s i))\<lparr>pte_tag := ?t 0, pte_allocated := True, pte_valid := False\<rparr>)
            (pg_mem s (fp s i)) (- 1) (pg_zone s) s) = Some (r, s1)" "pg_core s1" "slots s1 = (slots s)(i \<mapsto> (?t 0, fr))" "proc_tables p s1"
       "global_spare_pfn s1 = global_spare_pfn s"
       "set_option fr \<subseteq> free_frames (pg_zone s)" "free_frames (pg_zone s1) = free_frames (pg_zone s) - set_option fr"
       "fr \<noteq> None \<longleftrightarrow> fl AND LEGOMEM_VM_FLAGS_POPULATE \<noteq> 0 \<and> free_frames (pg_zone s) \<noteq> {}"
      using fpga_alloc [OF inv p 2(1,3) 2(2) [symmetric] fresh fl e, of start] by (elim exE conjE) (rule that)
    have "slots s1 j \<noteq> Some (range_tag p (start + PAGE_SIZE) k, fr')" if "k < n" for k j fr'
      using Suc.prems(6) [of "Suc k"] tb [OF that] that unfolding f(3) range_tag_Suc by auto
    then obtain s' m where "alloc_pte_loop p (start + PAGE_SIZE) (page_va (start + PAGE_SIZE) n) fl PAGE_SIZE s1 = Some s'" "alloc_done p (start + PAGE_SIZE) n fl s1 s' m"
      using Suc.IH [OF f(2,4) fl w(2)] Suc.prems(5) by auto
    moreover from alloc_done_cons [OF 2(2,3) f(3) f(5) tb f(6,7) finite_free_frames [OF pg_coreD(2) [OF inv]] f(8) this(2)]
    have "alloc_done p start (Suc n) fl s s' (case_nat (Some fr) m)" .
    ultimately show ?thesis using 2(4) f(1) by (auto simp: loop)
  qed
qed

text \<open>Lookup in either table finds the slot of a tag.\<close>

lemma shadow_lookup:
  fixes va :: u64
  assumes inv: "pg_core s" and p: "proc_tables p s"
  defines "t \<equiv> generate_tag (pi_pid p) va"
  shows "(addr_to_shadow_pte p va 22 s = Some None \<and> (\<forall>i fr. slots s i \<noteq> Some (t, fr)))
    \<or> (\<exists>i fr. i < 524288 \<and> slots s i = Some (t, fr) \<and> addr_to_shadow_pte p va 22 s = Some (Some (sh s i)))"
proof -
  note D = pg_coreD [OF inv] and T = tables_okD [OF pg_coreD(1) [OF inv]]
  have b: "tag_bucket t < 32768" unfolding t_def by (rule tag_bucket_less)
  let ?P = "\<lambda>pte. pte_allocated (pg_mem s pte) \<and> pte_tag (pg_mem s pte) = t"
  have S: "addr_to_shadow_pte p va 22 s = Some (find ?P (bucket_ptes (g_shadow_pgtable s + tag_bucket t * BUCKET_SIZE)))"
    unfolding addr_to_shadow_pte_def shadow_bucket [OF D(1) p, of va "pi_pid p"] by (simp add: t_def)
  have sl: "(\<exists>fr. slots s i = Some (t, fr)) \<longleftrightarrow> ?P (sh s i)" if "i < 524288" for i
    using T(4,5) [OF that] that by (auto simp: slots_def Let_def)
  show ?thesis
  proof (cases rule: find_shadow_cases [of ?P s "tag_bucket t"])
    case none
    have "slots s i \<noteq> Some (t, fr)" for i fr
    proof
      assume a: "slots s i = Some (t, fr)"
      then have i: "i < 524288" "i div 16 = tag_bucket t" using slots_okD(3) [OF D(3) a] by auto
      have "?P (sh s i)" unfolding sl [OF i(1), symmetric] using a by blast
      then show False using none(2) [OF i(2)] by contradiction
    qed
    then show ?thesis using none(1) S by simp
  next
    case (slot i)
    note i = slot_in_bucket [OF b slot(1)]
    obtain fr where "slots s i = Some (t, fr)" using slot(2) unfolding sl [OF i, symmetric] by (elim exE) (rule that)
    then show ?thesis using i slot(3) S by (intro disjI2 exI [of _ i] exI [of _ fr]) simp
  qed
qed

lemma fpga_lookup:
  assumes "pg_core s" "proc_tables p s" "slots s i = Some (generate_tag (pi_pid p) va, fr)"
  shows "addr_to_fpga_pte p va 22 s = Some (Some (fp s i))"
proof -
  let ?t = "generate_tag (pi_pid p) va"
  note D = pg_coreD [OF assms(1)]
  have i: "i < 524288" "tag_bucket ?t = i div 16" using slots_okD(3) [OF D(3) assms(3)] by auto
  let ?P = "\<lambda>pte. pte_allocated (pg_mem s pte) \<and> pte_tag (pg_mem s pte) = ?t"
  have S: "addr_to_fpga_pte p va 22 s = Some (find ?P (bucket_ptes (devmem_pgtable_base s + tag_bucket ?t * BUCKET_SIZE)))"
    unfolding addr_to_fpga_pte_def fpga_bucket [OF D(1) assms(2), of va "pi_pid p"] by simp
  have Pi: "?P (fp s i)" using assms(3) by (auto simp: slots_def Let_def split: if_splits)
  then obtain j where j: "j div 16 = tag_bucket ?t" "?P (fp s j)" "find ?P (bucket_ptes (devmem_pgtable_base s + tag_bucket ?t * BUCKET_SIZE)) = Some (fp s j)"
    using i(2) by (cases rule: find_fpga_cases [of ?P s "tag_bucket ?t"]) auto
  have "j < 524288" by (rule slot_in_bucket [OF tag_bucket_less j(1)])
  then have "\<exists>fr. slots s j = Some (?t, fr)" using j(2) by (simp add: slots_def Let_def)
  then have "j = i" using slots_okD(4) [OF D(3)] assms(3) by metis
  then show ?thesis using S j(3) by simp
qed

section \<open>Unmapping\<close>

lemma shadow_index:
  assumes "proc_tables p s" "i < 524288"
  shows "index_to_shadow_bucket_info (shadow_pte_to_bucket_index p (sh s i)) = Some (i div 16)"
proof -
  have u: "unat (of_nat i :: u64) = i" using assms(2) by (simp add: unat_of_nat take_bit_nat_eq_self)
  have "shadow_pte_to_bucket_index p (sh s i) = ucast (of_nat i div (16 :: u64))"
    using assms(1) by (simp add: shadow_pte_to_bucket_index_def sh_def proc_tables_def PTE_SIZE_def)
  moreover have "unat (of_nat i div (16 :: u64)) = i div 16" using u by (simp add: unat_div)
  ultimately have x: "unat (shadow_pte_to_bucket_index p (sh s i)) = i div 16"
    using assms(2) by (simp add: unsigned_ucast_eq take_bit_nat_eq_self unsigned_take_bit_eq)
  then have "(scast (shadow_pte_to_bucket_index p (sh s i)) :: u64) = of_nat (i div 16)"
    using assms(2) by (subst scast_small) simp_all
  moreover have "unat (of_nat (i div 16) :: u64) = i div 16" using assms(2) unfolding unat_of_nat by (simp add: take_bit_nat_eq_self)
  ultimately show ?thesis using assms(2) x by (simp add: index_to_shadow_bucket_info_def word_le_nat_alt)
qed

lemma unlock_unlocked: "\<not> sb_lock i \<Longrightarrow> i\<lparr>sb_lock := False\<rparr> = i"
  by (cases i) simp

lemma no_conflicts:
  assumes "conflict_head (shadow_bucket_infos s b) = []" "\<not> sb_lock (shadow_bucket_infos s b)"
  shows "free_all_conflicts free_va b s = Some s"
proof -
  let ?s = "upd_bucket b (\<lambda>i. i\<lparr>sb_lock := True\<rparr>) s"
  have "conflicts_loop free_va b ?s = Some ?s"
    using assms(1) by (subst conflicts_loop.simps) (simp add: upd_bucket_def)
  moreover have "upd_bucket b (\<lambda>i. i\<lparr>sb_lock := False\<rparr>) ?s = s" using unlock_unlocked [OF assms(2)] by (simp add: upd_bucket_def)
  ultimately show ?thesis using assms(2) by (simp add: free_all_conflicts_def)
qed

lemma unmap_slot:
  assumes inv: "pg_core s" and i: "slots s i = Some (t, fr)"
    and z: "buddy_inv MAX_ORDER z" "used_frames z = used_frames (pg_zone s) - set_option fr"
    and e: "\<not> pte_allocated e" "\<not> pte_allocated g" "\<not> pte_valid g" "pte_tag e = pte_tag g"
  shows "pg_core (set_slot i e g 1 z s)" "slots (set_slot i e g 1 z s) = (slots s)(i := None)"
proof -
  note D = pg_coreD [OF inv]
  have l: "i < 524288" using slots_okD(3) [OF D(3) i] by simp
  show sl: "slots (set_slot i e g 1 z s) = (slots s)(i := None)" unfolding slots_set_slot [OF D(1) l] using e by simp
  show "pg_core (set_slot i e g 1 z s)"
    unfolding pg_core_def sl using z tables_ok_set_slot [OF D(1) l, of e g 1 z] e slots_ok_unmap [OF D(3) i] by simp
qed

lemma free_used: "buddy_inv MAX_ORDER z \<Longrightarrow> free_frames z = {START_PFN..<MAX_PFN} - used_frames z"
  using free_frames_range [of MAX_ORDER z] unfolding used_frames_def by blast

lemma zap_step:
  assumes inv: "pg_core s" and p: "proc_tables p s" and i: "slots s i = Some (t, fr)"
  shows "\<exists>s1 s2. zap_shadow_pte free_va p (sh s i) PAGE_SIZE s = Some s1 \<and> zap_pte p (sh s i) PAGE_SIZE va s1 = Some s2
     \<and> pg_core s2 \<and> slots s2 = (slots s)(i := None) \<and> proc_tables p s2 \<and> global_spare_pfn s2 = global_spare_pfn s
     \<and> free_frames (pg_zone s2) = free_frames (pg_zone s) \<union> set_option fr"
proof -
  note D = pg_coreD [OF inv] and T = tables_okD [OF pg_coreD(1) [OF inv]]
  let ?z = "pg_zone s" and ?g = "pg_mem s (fp s i)"
  let ?e = "(pg_mem s (sh s i))\<lparr>pte_tag := 0, pte_allocated := False, pte_valid := False\<rparr>"
  have l: "i < 524288" "i div 16 < 32768" using slots_okD(3) [OF D(3) i] by auto
  have g: "pte_allocated ?g" "pte_tag ?g = t" "fr = (if pte_valid ?g then Some (pte_frame ?g) else None)"
    using i by (auto simp: slots_def Let_def split: if_splits)
  have a: "pte_allocated (pg_mem s (sh s i))" using T(4) [OF l(1)] g(1) by simp
  have sf: "sh s i \<noteq> fp s i" by (rule sh_fp [OF D(1) l(1)])
  let ?s0 = "upd_bucket (i div 16) (\<lambda>i. i\<lparr>sb_nr_free := sb_nr_free i + 1\<rparr>) s"
  have "free_all_conflicts free_va (i div 16) (?s0\<lparr>nr_allocated_ptes := nr_allocated_ptes s - 1\<rparr>) = Some (?s0\<lparr>nr_allocated_ptes := nr_allocated_ptes s - 1\<rparr>)"
    using T(7,8) [OF l(2)] by (intro no_conflicts) (simp_all add: upd_bucket_def)
  moreover have "upd_pte (sh s i) (\<lambda>e. e\<lparr>pte_tag := 0, pte_allocated := False, pte_valid := False\<rparr>) (?s0\<lparr>nr_allocated_ptes := nr_allocated_ptes s - 1\<rparr>)
      = set_slot i ?e ?g 1 ?z s" using sf by (simp add: set_slot_def upd_pte_def upd_bucket_def fun_upd_twist)
  ultimately have z1: "zap_shadow_pte free_va p (sh s i) PAGE_SIZE s = Some (set_slot i ?e ?g 1 ?z s)"
    using a shadow_index [OF p l(1)] by (simp add: zap_shadow_pte_def Let_def upd_bucket_def)
  have P: "proc_tables p (set_slot i e g d z s)" for e g d z using p by (simp add: proc_tables_def)
  note Z = zap_pte_def [of p "sh s i" PAGE_SIZE va "set_slot i ?e ?g 1 ?z s", unfolded shadow_to_fpga [OF D(1) p l(1)], simplified, simplified g(1), simplified]
  show ?thesis
  proof (cases fr)
    case None
    then have v: "\<not> pte_valid ?g" using g(3) by (simp split: if_splits)
    let ?g' = "?g\<lparr>pte_allocated := False, pte_tag := 0\<rparr>"
    have "pg_core (set_slot i ?e ?g' 1 ?z s)" "slots (set_slot i ?e ?g' 1 ?z s) = (slots s)(i := None)"
      using unmap_slot [OF inv i, of ?z ?e ?g'] D(2) v None by simp_all
    then show ?thesis using z1 None v P
      by (intro exI [of _ "set_slot i ?e ?g 1 ?z s"] exI [of _ "set_slot i ?e ?g' 1 ?z s"]) (simp add: Z)
  next
    case (Some f)
    then have v: "pte_valid ?g" "pte_frame ?g = f" using g(3) by (simp_all split: if_splits)
    have fu: "f \<in> used_frames ?z" using slots_okD(7) [OF D(3)] i Some by blast
    then obtain z' where z': "free_pfn MAX_ORDER f 0 ?z = Some z'" "buddy_inv MAX_ORDER z'" "used_frames z' = used_frames ?z - {f}"
      using frames.release_law [OF D(2) fu] by auto
    have ff: "free_frames z' = free_frames ?z \<union> {f}"
      using fu unfolding free_used [OF z'(2)] free_used [OF D(2)] z'(3) by (auto simp: used_frames_def)
    let ?g' = "?g\<lparr>pte_valid := False, pte_ppa := 0, pte_allocated := False, pte_tag := 0\<rparr>"
    have "pg_core (set_slot i ?e ?g' 1 z' s)" "slots (set_slot i ?e ?g' 1 z' s) = (slots s)(i := None)"
      using unmap_slot [OF inv i, of z' ?e ?g'] z' Some by simp_all
    then show ?thesis using z1 z'(1) v ff Some P
      by (intro exI [of _ "set_slot i ?e ?g 1 ?z s"] exI [of _ "set_slot i ?e ?g' 1 z' s"]) (simp add: Z Let_def pte_frame_def)
  qed
qed

definition free_done :: "proc_info \<Rightarrow> u64 \<Rightarrow> nat \<Rightarrow> 'a pgstate_scheme \<Rightarrow> 'a pgstate_scheme \<Rightarrow> bool" where
  "free_done p start n s s' \<longleftrightarrow> pg_core s' \<and> proc_tables p s' \<and> global_spare_pfn s' = global_spare_pfn s
     \<and> ran (slots s') = {x \<in> ran (slots s). \<forall>k < n. fst x \<noteq> range_tag p start k}
     \<and> free_frames (pg_zone s') = free_frames (pg_zone s) \<union> {f. \<exists>k < n. (range_tag p start k, Some f) \<in> ran (slots s)}"

lemma ran_unmap:
  assumes "slots_ok \<sigma> info n U" "\<sigma> i = Some (t, fr)"
  shows "ran (\<sigma>(i := None)) = {x \<in> ran \<sigma>. fst x \<noteq> t}"
proof (intro set_eqI iffI)
  fix x assume "x \<in> ran (\<sigma>(i := None))"
  then obtain j where j: "j \<noteq> i" "\<sigma> j = Some x" by (auto simp: ran_def split: if_splits)
  then have "fst x \<noteq> t" using slots_okD(4) [OF assms(1), of j t "snd x" i fr] assms(2) by (cases x) auto
  then show "x \<in> {x \<in> ran \<sigma>. fst x \<noteq> t}" using j(2) by (auto intro: ranI)
next
  fix x assume x: "x \<in> {x \<in> ran \<sigma>. fst x \<noteq> t}"
  then obtain j where j: "\<sigma> j = Some x" by (auto simp: ran_def)
  then have "(\<sigma>(i := None)) j = Some x" using x assms(2) by auto
  then show "x \<in> ran (\<sigma>(i := None))" by (rule ranI)
qed

lemma all_less_Suc_shift: "(\<forall>k < Suc n. P k) \<longleftrightarrow> P 0 \<and> (\<forall>k < n. P (Suc k))"
  and ex_less_Suc_shift: "(\<exists>k < Suc n. P k) \<longleftrightarrow> P 0 \<or> (\<exists>k < n. P (Suc k))"
  using less_Suc_eq_0_disj by auto

lemma free_loop_spec:
  assumes "pg_core s" "proc_tables p s" "unat start + n * 2 ^ 22 < 2 ^ 64"
  shows "\<exists>s'. free_pte_loop free_va p start (page_va start n) PAGE_SIZE s = Some s' \<and> free_done p start n s s'"
  using assms
proof (induction n arbitrary: s start)
  case 0
  then show ?case by (subst free_pte_loop.simps) (simp add: free_done_def)
next
  case (Suc n)
  note inv = Suc.prems(1) and p = Suc.prems(2) and w = page_loop_less [OF Suc.prems(3)]
  have loop: "free_pte_loop free_va p start (page_va start (Suc n)) PAGE_SIZE s = do {
      r \<leftarrow> addr_to_shadow_pte p start 22 s;
      case r of None \<Rightarrow> free_pte_loop free_va p (start + PAGE_SIZE) (page_va (start + PAGE_SIZE) n) PAGE_SIZE s
      | Some pte \<Rightarrow> do {
        s \<leftarrow> zap_shadow_pte free_va p pte PAGE_SIZE s;
        s \<leftarrow> zap_pte p pte PAGE_SIZE start s;
        free_pte_loop free_va p (start + PAGE_SIZE) (page_va (start + PAGE_SIZE) n) PAGE_SIZE s } }"
    unfolding w(3) [symmetric] using w(1) by (subst free_pte_loop.simps) (simp add: PAGE_SHIFT_def)
  let ?t = "range_tag p start"
  consider "addr_to_shadow_pte p start 22 s = Some None" "\<forall>i fr. slots s i \<noteq> Some (?t 0, fr)"
    | i fr where "slots s i = Some (?t 0, fr)" "addr_to_shadow_pte p start 22 s = Some (Some (sh s i))"
    using shadow_lookup [OF inv p, of start, folded range_tag_0] by (elim disjE exE conjE) (rule that; assumption)+
  then show ?case
  proof cases
    case 1
    obtain s' where s': "free_pte_loop free_va p (start + PAGE_SIZE) (page_va (start + PAGE_SIZE) n) PAGE_SIZE s = Some s'" "free_done p (start + PAGE_SIZE) n s s'"
      using Suc.IH [OF inv p w(2)] by blast
    have "(?t 0, fr) \<notin> ran (slots s)" for fr using 1(2) by (auto simp: ran_def)
    then have "free_done p start (Suc n) s s'" using s'(2)
      unfolding free_done_def all_less_Suc_shift ex_less_Suc_shift range_tag_Suc by auto
    then show ?thesis using s'(1) 1(1) by (simp add: loop)
  next
    case 2
    obtain s1 s2 where z: "zap_shadow_pte free_va p (sh s i) PAGE_SIZE s = Some s1" "zap_pte p (sh s i) PAGE_SIZE start s1 = Some s2"
      "pg_core s2" "slots s2 = (slots s)(i := None)" "proc_tables p s2" "global_spare_pfn s2 = global_spare_pfn s" "free_frames (pg_zone s2) = free_frames (pg_zone s) \<union> set_option fr"
      using zap_step [OF inv p 2(1), of free_va start] by (elim exE conjE) (rule that)
    obtain s' where s': "free_pte_loop free_va p (start + PAGE_SIZE) (page_va (start + PAGE_SIZE) n) PAGE_SIZE s2 = Some s'" "free_done p (start + PAGE_SIZE) n s2 s'"
      using Suc.IH [OF z(3,5) w(2)] by blast
    note r = ran_unmap [OF pg_coreD(3) [OF inv] 2(1)]
    have t: "?t (Suc k) \<noteq> ?t 0" if "k < n" for k
      using page_tags_distinct [of start "Suc k" 0 "pi_pid p"] Suc.prems(3) that by (auto simp: range_tag_def)
    have f: "(?t 0, Some f) \<in> ran (slots s) \<longleftrightarrow> f \<in> set_option fr" for f
      using slots_okD(4) [OF pg_coreD(3) [OF inv] 2(1)] 2(1) by (auto simp: ran_def)
    have "free_done p start (Suc n) s s'" using s'(2) t f
      unfolding free_done_def all_less_Suc_shift ex_less_Suc_shift range_tag_Suc z(4,6,7) r by auto
    then show ?thesis using s'(1) z(1,2) 2(2) by (simp add: loop)
  qed
qed

section \<open>The invariant of the page tables\<close>

text \<open>The spare frame is in use and not mapped.\<close>

definition pg_inv :: "'a pgstate_scheme \<Rightarrow> bool" where
  "pg_inv s \<longleftrightarrow> pg_core s \<and> global_spare_pfn s \<in> used_frames (pg_zone s)
     \<and> (\<forall>t. (t, Some (global_spare_pfn s)) \<notin> ran (slots s))"

lemma alloc_done_inv:
  assumes "pg_inv s" "alloc_done p start n fl s s' m"
  shows "pg_inv s'"
proof -
  note D = alloc_doneD [OF assms(2)]
  have i: "pg_core s" "global_spare_pfn s \<in> used_frames (pg_zone s)" "\<And>t. (t, Some (global_spare_pfn s)) \<notin> ran (slots s)"
    using assms(1) by (auto simp: pg_inv_def)
  have n: "global_spare_pfn s \<notin> range_frames n m" using D(5) i(2) by (auto simp: used_frames_def)
  have "global_spare_pfn s \<in> used_frames (pg_zone s')" using i(2) D(6) by (auto simp: used_frames_def)
  moreover have "(t, Some (global_spare_pfn s)) \<notin> range_maps p start n m" for t
    using n by (auto simp: range_maps_def range_frames_def)
  ultimately show ?thesis using D(1,3,9) i(3) by (simp add: pg_inv_def)
qed

lemma free_done_inv:
  assumes "pg_inv s" "free_done p start n s s'"
  shows "pg_inv s'"
  using assms unfolding pg_inv_def free_done_def by (auto simp: used_frames_def)

lemma flush_spec:
  assumes "pg_core s"
  shows "\<exists>s'. tlb_flush p va sz s = Some s' \<and> (pg_inv s \<longrightarrow> pg_inv s') \<and> slots s' = slots s \<and> pg_zone s' = pg_zone s \<and> pg_core s'
     \<and> (proc_tables q s \<longrightarrow> proc_tables q s') \<and> global_spare_pfn s' = global_spare_pfn s
     \<and> (\<exists>r. dma_sent s' = dma_sent s @ [r] \<and> lh_pid (tr_header r) = ucast (pi_pid p) \<and> tr_va r = va \<and> tr_size r = ucast sz)"
proof -
  obtain r where "global_tlbflush_req s = Some r" using tables_okD(9) [OF pg_coreD(1) [OF assms]] by blast
  then show ?thesis using assms by (auto simp: tlb_flush_def Let_def pg_inv_def proc_tables_def)
qed

text \<open>The conflict check sees exactly the full buckets.\<close>

lemma bucket_full_count:
  assumes "pg_core s" "tag_bucket t < 32768"
  shows "bucket_full s t \<longleftrightarrow> sb_nr_free (shadow_bucket_infos s (tag_bucket t)) = 0"
proof -
  let ?b = "tag_bucket t" and ?I = "{16 * tag_bucket t..<16 * tag_bucket t + 16}"
  have I: "i \<in> ?I \<longleftrightarrow> i div 16 = ?b" for i by auto
  have s: "used_in (slots s) ?b \<subseteq> ?I" unfolding used_in_def subset_iff I by simp
  have "bucket_full s t \<longleftrightarrow> ?I \<subseteq> used_in (slots s) ?b"
    unfolding bucket_full_def used_in_def subset_iff I by simp
  also have "\<dots> \<longleftrightarrow> used_in (slots s) ?b = ?I" unfolding set_eq_subset using s by blast
  also have "\<dots> \<longleftrightarrow> card (used_in (slots s) ?b) = card ?I"
    using card_subset_eq [OF _ s] by (metis finite_atLeastLessThan)
  also have "card ?I = 16" by simp
  also have "card (used_in (slots s) ?b) = 16 \<longleftrightarrow> int (card (used_in (slots s) ?b)) = 16" by simp
  also have "\<dots> \<longleftrightarrow> sb_nr_free (shadow_bucket_infos s ?b) = 0"
    using slots_okD(5) [OF pg_coreD(3) [OF assms(1)] assms(2)] by auto
  finally show ?thesis .
qed

lemma conflict_loop_True:
  assumes "conflict_loop new_va mem_ok q v start end page_size page_size_shift True s = Some r"
  shows "fst r"
proof -
  have "True \<longrightarrow> fst r"
    by (rule conflict_loop.raw_induct [where P = "\<lambda>_ _ _ _ _ _ _ _ h _ r. h \<longrightarrow> fst r", OF _ assms])
      (auto split: if_splits bind_splits prod.splits)
  then show ?thesis by simp
qed

lemma conflict_check:
  assumes "pg_core s" "unat start + n * 2 ^ 22 < 2 ^ 64"
  shows "(\<forall>k < n. \<not> bucket_full s (range_tag p start k)) \<Longrightarrow>
      conflict_loop new_va mem_ok q v start (page_va start n) PAGE_SIZE 22 False s = Some (False, s)"
    and "conflict_loop new_va mem_ok q v start (page_va start n) PAGE_SIZE 22 False s = Some (False, s') \<Longrightarrow>
      s' = s \<and> (\<forall>k < n. \<not> bucket_full s (range_tag p start k))"
proof -
  have "((\<forall>k < n. \<not> bucket_full s (range_tag p start k)) \<longrightarrow>
      conflict_loop new_va mem_ok q v start (page_va start n) PAGE_SIZE 22 False s = Some (False, s))
    \<and> (conflict_loop new_va mem_ok q v start (page_va start n) PAGE_SIZE 22 False s = Some (False, s') \<longrightarrow>
      s' = s \<and> (\<forall>k < n. \<not> bucket_full s (range_tag p start k)))"
    using assms(2)
  proof (induction n arbitrary: start)
    case 0
    then show ?case by (subst (1 2) conflict_loop.simps) simp
  next
    case (Suc n)
    note w = page_loop_less [OF Suc.prems]
    let ?t = "generate_tag (pi_pid p) start"
    have full: "bucket_full s ?t \<longleftrightarrow> sb_nr_free (shadow_bucket_infos s (tag_bucket ?t)) = 0"
      by (rule bucket_full_count [OF assms(1) tag_bucket_less])
    show ?case
    proof (cases "bucket_full s ?t")
      case True
      have "conflict_loop new_va mem_ok q v start (page_va start (Suc n)) PAGE_SIZE 22 False s \<noteq> Some (False, s')"
        using w(1) True [unfolded full] conflict_loop_True [of new_va mem_ok q v "start + PAGE_SIZE" "page_va start (Suc n)" PAGE_SIZE 22 _ "(False, s')"]
        by (subst conflict_loop.simps) (auto simp: bucket_info [of start "pi_pid p"] Let_def split: bind_splits prod.splits if_splits)
      then show ?thesis using True unfolding all_less_Suc_shift range_tag_0 by blast
    next
      case False
      have "conflict_loop new_va mem_ok q v start (page_va start (Suc n)) PAGE_SIZE 22 False s
          = conflict_loop new_va mem_ok q v (start + PAGE_SIZE) (page_va (start + PAGE_SIZE) n) PAGE_SIZE 22 False s"
        using w(1,3) False [unfolded full] by (subst conflict_loop.simps) (simp add: bucket_info [of start "pi_pid p"])
      then show ?thesis using Suc.IH [OF w(2)] False unfolding all_less_Suc_shift range_tag_0 range_tag_Suc by simp
    qed
  qed
  then show "(\<forall>k < n. \<not> bucket_full s (range_tag p start k)) \<Longrightarrow>
      conflict_loop new_va mem_ok q v start (page_va start n) PAGE_SIZE 22 False s = Some (False, s)"
    and "conflict_loop new_va mem_ok q v start (page_va start n) PAGE_SIZE 22 False s = Some (False, s') \<Longrightarrow>
      s' = s \<and> (\<forall>k < n. \<not> bucket_full s (range_tag p start k))"
    by blast+
qed

section \<open>Start up and reachable states\<close>

text \<open>The part of \<^verbatim>\<open>main\<close> of \<^verbatim>\<open>core.c\<close> that sets up memory, in its order. The result of \<^verbatim>\<open>init_buddy\<close> is ignored there,
  and what follows uses the zone.\<close>

definition init_memory ::
  "tlb_req option \<Rightarrow> bool \<Rightarrow> (nat \<Rightarrow> page) option \<Rightarrow> ptr option \<Rightarrow> ptr option \<Rightarrow> 'a pgstate_scheme \<Rightarrow> 'a pgstate_scheme option" where
  "init_memory req zone_ok pm base sbase s = do {
     s \<leftarrow> init_tlbflush_setup req s;
     (_, z) \<leftarrow> init_buddy MAX_ORDER zone_ok pm;
     z \<leftarrow> z;
     s \<leftarrow> init_fpga_pgtable base (s\<lparr>pg_zone := z\<rparr>);
     (_, s) \<leftarrow> init_shadow_pgtable sbase s;
     Some s }"

lemma reset_ptes_zero: "i < n \<Longrightarrow> reset_ptes n base m (base + i * PTE_SIZE) = zero_pte"
  by (induction n) (auto simp: PTE_SIZE_def less_Suc_eq)

lemma zero_pte_simps [simp]: "\<not> pte_allocated zero_pte" "\<not> pte_valid zero_pte"
  by (simp_all add: zero_pte_def)

lemma init_memory_inv:
  assumes "sbase + 2 ^ 29 \<le> base" "base + 2 ^ 29 \<le> 2 ^ 64" "nr_allocated_ptes s0 = 0"
    "\<And>p. START_PFN \<le> p \<Longrightarrow> p < MAX_PFN \<Longrightarrow> \<not> PageBuddy (pm p)"
  shows "\<exists>s. init_memory (Some req) True (Some pm) (Some base) (Some sbase) s0 = Some s \<and> pg_inv s \<and> ran (slots s) = {}
     \<and> devmem_pgtable_base s = base \<and> g_shadow_pgtable s = sbase \<and> card (free_frames (pg_zone s)) = 255"
proof -
  have "\<exists>z. init_buddy MAX_ORDER True (Some pm) = Some (0, Some z) \<and> buddy_inv MAX_ORDER z \<and> free_frames z = {START_PFN..<MAX_PFN}"
    by (rule init_buddy_spec) (use assms(4) in \<open>simp_all add: MAX_ORDER_def\<close>)
  then obtain z where z: "init_buddy MAX_ORDER True (Some pm) = Some (0, Some z)" "buddy_inv MAX_ORDER z" "free_frames z = {START_PFN..<MAX_PFN}" by blast
  from z(2) obtain f z' where f: "alloc_pfn MAX_ORDER 0 z = Some (f, z')" "f \<in> free_frames z" "f \<noteq> 0" "buddy_inv MAX_ORDER z'" "free_frames z' = free_frames z - {f}"
    by (cases rule: alloc_pfn_0) (use z(3) in auto)
  let ?nr = "33554432 :: nat"
  have "\<exists>s. init_memory (Some req) True (Some pm) (Some base) (Some sbase) s0 = Some s \<and> pg_zone s = z' \<and> global_spare_pfn s = f
      \<and> devmem_pgtable_base s = base \<and> devmem_pgtable_limit s = base + 2 ^ 29 \<and> g_shadow_pgtable s = sbase
      \<and> global_tlbflush_req s = Some req \<and> nr_allocated_ptes s = 0
      \<and> (\<forall>b < 32768. shadow_bucket_infos s b = \<lparr>sb_nr_free = 16, nr_conflicts = 0, conflict_head = [], sb_lock = False\<rparr>)
      \<and> pg_mem s = (\<lambda>p. if sbase \<le> p \<and> p < sbase + 2 ^ 29 then zero_pte else reset_ptes ?nr base (pg_mem s0) p)"
    using z(1) f(1,3) assms(3)
    by (simp add: init_memory_def init_tlbflush_setup_def init_fpga_pgtable_def init_shadow_pgtable_def Let_def PTE_SIZE_def fun_eq_iff)
  then obtain s where s: "init_memory (Some req) True (Some pm) (Some base) (Some sbase) s0 = Some s" "pg_zone s = z'" "global_spare_pfn s = f"
      "devmem_pgtable_base s = base" "devmem_pgtable_limit s = base + 2 ^ 29" "g_shadow_pgtable s = sbase"
      "global_tlbflush_req s = Some req" "nr_allocated_ptes s = 0"
      "\<forall>b < 32768. shadow_bucket_infos s b = \<lparr>sb_nr_free = 16, nr_conflicts = 0, conflict_head = [], sb_lock = False\<rparr>"
      "pg_mem s = (\<lambda>p. if sbase \<le> p \<and> p < sbase + 2 ^ 29 then zero_pte else reset_ptes ?nr base (pg_mem s0) p)"
    by (elim exE conjE) (rule that)
  have m: "pg_mem s (sh s i) = zero_pte" "pg_mem s (fp s i) = zero_pte" if "i < 524288" for i
    using that assms(1) reset_ptes_zero [of i ?nr base "pg_mem s0"] unfolding s(10) sh_def fp_def s(4,6) by (auto simp: PTE_SIZE_def)
  have sl: "slots s = (\<lambda>_. None)" using m(2) by (auto simp: slots_def [abs_def] Let_def)
  have "tables_ok s" using m s assms(1,2) by (simp add: tables_ok_def)
  moreover have "slots_ok (slots s) (shadow_bucket_infos s) (nr_allocated_ptes s) (used_frames (pg_zone s))"
    unfolding sl using s(8,9) by (intro slots_okI) (auto simp: used_in_def)
  moreover have "f \<in> used_frames z'" using f(2,5) z(3) by (simp add: used_frames_def)
  moreover have "card (free_frames z') = 255" using f(2,5) z(3) by simp
  ultimately show ?thesis using s(1-4,6) f(4) by (intro exI [of _ s]) (simp add: pg_inv_def pg_core_def sl)
qed

definition unmapped :: "proc_info \<Rightarrow> u64 \<Rightarrow> nat \<Rightarrow> 'a pgstate_scheme \<Rightarrow> bool" where
  "unmapped p start n s \<longleftrightarrow> (\<forall>k < n. \<forall>fr. (range_tag p start k, fr) \<notin> ran (slots s))"

lemma alloc_range_spec:
  assumes "pg_inv s" "proc_tables p s" "fl AND LEGOMEM_VM_FLAGS_USE_SPARE_PFN = 0" "unat start + n * 2 ^ 22 < 2 ^ 64" "n \<le> 32768" "unmapped p start n s"
  obtains s' m where "alloc_fpga_pte_range p start (page_va start n) fl PAGE_SIZE s = Some s'" "pg_inv s'" "alloc_done p start n fl s s' m"
proof -
  have c: "pg_core s" using assms(1) by (simp add: pg_inv_def)
  have "slots s j \<noteq> Some (range_tag p start k, fr)" if "k < n" for k j fr
    using assms(6) that unfolding unmapped_def by (meson ranI)
  then obtain s' m where "alloc_pte_loop p start (page_va start n) fl PAGE_SIZE s = Some s'" "alloc_done p start n fl s s' m"
    using alloc_loop_spec [OF c assms(2-5)] by blast
  then show thesis using that alloc_done_inv [OF assms(1)] by (simp add: alloc_fpga_pte_range_def)
qed

lemma free_range_spec:
  assumes "pg_core s" "proc_tables p s" "unat start + n * 2 ^ 22 < 2 ^ 64"
  obtains s' r where "free_fpga_pte_range free_va p start (page_va start n) PAGE_SIZE s = Some s'" "pg_inv s \<Longrightarrow> pg_inv s'" "free_done p start n s s'"
    "dma_sent s' \<noteq> []" "last (dma_sent s') = r" "lh_pid (tr_header r) = ucast (pi_pid p)" "tr_va r = start"
proof -
  obtain s1 where s1: "free_pte_loop free_va p start (page_va start n) PAGE_SIZE s = Some s1" "free_done p start n s s1"
    using free_loop_spec [OF assms] by blast
  have c: "pg_core s1" using s1(2) by (simp add: free_done_def)
  obtain s' r where s': "tlb_flush p start (page_va start n - start) s1 = Some s'" "pg_inv s1 \<longrightarrow> pg_inv s'" "slots s' = slots s1" "pg_zone s' = pg_zone s1"
    "pg_core s'" "proc_tables p s1 \<longrightarrow> proc_tables p s'" "global_spare_pfn s' = global_spare_pfn s1" "dma_sent s' = dma_sent s1 @ [r]"
    "lh_pid (tr_header r) = ucast (pi_pid p)" "tr_va r = start"
    using flush_spec [OF c, of p start "page_va start n - start" p] by (elim exE conjE) (rule that)
  have "free_done p start n s s'" using s1(2) s' by (simp add: free_done_def)
  moreover have "free_fpga_pte_range free_va p start (page_va start n) PAGE_SIZE s = Some s'" using s1(1) s'(1) by (simp add: free_fpga_pte_range_def)
  moreover have "pg_inv s \<Longrightarrow> pg_inv s'" using free_done_inv s1(2) s'(2) by blast
  ultimately show thesis using that [of s' r] s'(8-10) by simp
qed

text \<open>
  The states that start up, mapping and unmapping of ranges of pages by any process, and the answers to the
  FPGA's requests for frames lead to. Ranges do not use the spare frame; the last section shows why.
\<close>

inductive pg_reach :: "'a pgstate_scheme \<Rightarrow> bool" where
  reach_init: "init_memory (Some req) True (Some pm) (Some base) (Some sbase) s0 = Some s \<Longrightarrow>
     sbase + 2 ^ 29 \<le> base \<Longrightarrow> base + 2 ^ 29 \<le> 2 ^ 64 \<Longrightarrow> nr_allocated_ptes s0 = 0 \<Longrightarrow>
     (\<And>p. START_PFN \<le> p \<Longrightarrow> p < MAX_PFN \<Longrightarrow> \<not> PageBuddy (pm p)) \<Longrightarrow> pg_reach s"
| reach_alloc: "pg_reach s \<Longrightarrow> proc_tables p s \<Longrightarrow> fl AND LEGOMEM_VM_FLAGS_USE_SPARE_PFN = 0 \<Longrightarrow>
     unat start + n * 2 ^ 22 < 2 ^ 64 \<Longrightarrow> n \<le> 32768 \<Longrightarrow> unmapped p start n s \<Longrightarrow>
     alloc_fpga_pte_range p start (page_va start n) fl PAGE_SIZE s = Some s' \<Longrightarrow> pg_reach s'"
| reach_free: "pg_reach s \<Longrightarrow> proc_tables p s \<Longrightarrow> unat start + n * 2 ^ 22 < 2 ^ 64 \<Longrightarrow>
     free_fpga_pte_range free_va p start (page_va start n) PAGE_SIZE s = Some s' \<Longrightarrow> pg_reach s'"
| reach_ack: "pg_reach s \<Longrightarrow> fifo_ok \<lparr>freepage_fifos = fifos, ctrl_sent = cs, fs_zone = pg_zone s\<rparr> \<Longrightarrow>
     handle_ctrl_freepage_ack rx tx \<lparr>freepage_fifos = fifos, ctrl_sent = cs, fs_zone = pg_zone s\<rparr> = Some (tx', q) \<Longrightarrow>
     pg_reach (s\<lparr>pg_zone := fs_zone q\<rparr>)"

lemma slots_zone [simp]: "slots (s\<lparr>pg_zone := z\<rparr>) = slots s"
  using slots_mem [of "s\<lparr>pg_zone := z\<rparr>" s] by simp

lemma slots_ok_more: "slots_ok \<sigma> info n U \<Longrightarrow> U \<subseteq> U' \<Longrightarrow> slots_ok \<sigma> info n U'"
  unfolding slots_ok_def by blast

lemma pg_inv_zone:
  assumes "pg_inv s" "buddy_inv MAX_ORDER z" "free_frames z \<subseteq> free_frames (pg_zone s)"
  shows "pg_inv (s\<lparr>pg_zone := z\<rparr>)"
proof -
  have u: "used_frames (pg_zone s) \<subseteq> used_frames z" using assms(3) by (auto simp: used_frames_def)
  have "tables_ok (s\<lparr>pg_zone := z\<rparr>) = tables_ok s" by (simp add: tables_ok_def sh_def fp_def)
  then show ?thesis using assms(1,2) u slots_ok_more [OF _ u] by (auto simp: pg_inv_def pg_core_def)
qed

lemma pg_reach_inv: "pg_reach s \<Longrightarrow> pg_inv s"
proof (induction rule: pg_reach.induct)
  case (reach_init req pm base sbase s0 s)
  then show ?case using init_memory_inv [OF reach_init(2-4), of pm req] by auto
next
  case (reach_alloc s p fl start n s')
  then show ?case using alloc_range_spec [OF reach_alloc.IH reach_alloc(2-6)] by (metis option.inject)
next
  case (reach_free s p start n free_va s')
  have "pg_core s" using reach_free.IH by (simp add: pg_inv_def)
  then show ?case using free_range_spec [OF _ reach_free(2,3), of free_va] reach_free.IH reach_free(4) by (metis option.inject)
next
  case (reach_ack s fifos cs rx tx tx' q)
  let ?q = "\<lparr>freepage_fifos = fifos, ctrl_sent = cs, fs_zone = pg_zone s\<rparr>"
  have z: "buddy_inv MAX_ORDER (pg_zone s)" using reach_ack.IH by (simp add: pg_inv_def pg_core_def)
  have "buddy_inv MAX_ORDER (fs_zone q) \<and> free_frames (fs_zone q) \<subseteq> free_frames (pg_zone s)"
    using ack_frames [OF reach_ack(2), of rx tx] reach_ack(3) z by (cases "free_frames (pg_zone s) = {}") (auto simp: fifo_ok_def)
  then show ?case using pg_inv_zone [OF reach_ack.IH] by blast
qed

section \<open>Concrete states\<close>

definition blank_state :: pgstate where
  "blank_state = \<lparr>pg_mem = (\<lambda>_. zero_pte), devmem_pgtable_base = 0, devmem_pgtable_limit = 0, g_shadow_pgtable = 0, global_spare_pfn = 0,
     shadow_bucket_infos = (\<lambda>_. \<lparr>sb_nr_free = 0, nr_conflicts = 0, conflict_head = [], sb_lock = False\<rparr>), nr_allocated_ptes = 0,
     pg_zone = \<lparr>z_area = [], page_map = clean_page_map, z_nr_free = 0\<rparr>, fpga_mem_start_soc_va = 0, fpga_dram = (\<lambda>_. 0),
     global_tlbflush_req = None, dma_sent = []\<rparr>"

definition demo_req :: tlb_req where
  "demo_req = \<lparr>tr_header = \<lparr>lh_pid = 0, lh_tag = 0, lh_opcode = 0, req_status = 0, flag_route = 0, flag_repl = 0, seqId = 0, lh_size = 0,
      cont = 0, src_sesid = 0, dst_sesid = 0, dest_ip = 0\<rparr>, tr_va = 0, tr_size = 0\<rparr>"

definition demo_proc :: proc_info where
  "demo_proc = zero_proc\<lparr>fpga_pgtable := 2 ^ 30, soc_shadow_pgtable := 2 ^ 28, pi_pid := 7\<rparr>"

lemma demo_reach:
  "\<exists>s :: pgstate. pg_reach s \<and> proc_tables demo_proc s \<and> ran (slots s) = {} \<and> card (free_frames (pg_zone s)) = 255"
proof -
  have e: "\<exists>s :: pgstate. init_memory (Some demo_req) True (Some clean_page_map) (Some (2 ^ 30)) (Some (2 ^ 28)) blank_state = Some s \<and> pg_inv s \<and> ran (slots s) = {}
     \<and> devmem_pgtable_base s = 2 ^ 30 \<and> g_shadow_pgtable s = 2 ^ 28 \<and> card (free_frames (pg_zone s)) = 255"
    by (rule init_memory_inv) (simp_all add: blank_state_def clean_page_map_def PageBuddy_def)
  then obtain s :: pgstate where s: "init_memory (Some demo_req) True (Some clean_page_map) (Some (2 ^ 30)) (Some (2 ^ 28)) blank_state = Some s" "ran (slots s) = {}"
     "devmem_pgtable_base s = 2 ^ 30" "g_shadow_pgtable s = 2 ^ 28" "card (free_frames (pg_zone s)) = 255" by (elim exE conjE) (rule that)
  have "pg_reach s" by (rule reach_init [OF s(1)]) (simp_all add: blank_state_def clean_page_map_def PageBuddy_def)
  then show ?thesis using s(2-5) by (intro exI [of _ s]) (simp add: proc_tables_def demo_proc_def)
qed

lemma drain:
  fixes s :: "'a pgstate_scheme"
  shows "pg_reach s \<Longrightarrow> \<exists>s' :: 'a pgstate_scheme. pg_reach s' \<and> slots s' = slots s \<and> free_frames (pg_zone s') = {} \<and> (proc_tables p s \<longrightarrow> proc_tables p s')"
proof (induction "card (free_frames (pg_zone s))" arbitrary: s rule: less_induct)
  case less
  show ?case
  proof (cases "free_frames (pg_zone s) = {}")
    case True
    then show ?thesis using less.prems by blast
  next
    case False
    have z: "buddy_inv MAX_ORDER (pg_zone s)" using pg_reach_inv [OF less.prems] by (simp add: pg_inv_def pg_core_def)
    let ?q = "\<lparr>freepage_fifos = freepage_fifos_init, ctrl_sent = [], fs_zone = pg_zone s\<rparr>"
    let ?c = "\<lparr>param32 = 0, param8 = 0, beats = 0, lc_cmd = 0, lc_addr = 0, epid = 0\<rparr>"
    have ok: "fifo_ok ?q" using z by (simp add: fifo_ok_def freepage_fifos_init_def)
    obtain tx' q where q: "handle_ctrl_freepage_ack ?c ?c ?q = Some (tx', q)" "ctrl_pfn tx' \<in> free_frames (pg_zone s)"
      "free_frames (fs_zone q) = free_frames (pg_zone s) - {ctrl_pfn tx'}"
      using ack_frames [OF ok, of ?c ?c] False by auto
    let ?s = "s\<lparr>pg_zone := fs_zone q\<rparr>"
    have r: "pg_reach ?s" by (rule reach_ack [OF less.prems ok q(1)])
    have "card (free_frames (pg_zone ?s)) < card (free_frames (pg_zone s))"
      using card_Diff1_less [OF finite_free_frames [OF z] q(2)] q(3) by simp
    from less.hyps [OF this r] show ?thesis by (auto simp: proc_tables_def)
  qed
qed

lemma not_full_empty: "ran (slots s) = {} \<Longrightarrow> \<not> bucket_full s t"
  by (auto simp: bucket_full_def ran_def intro: exI [of _ "16 * tag_bucket t"])

section \<open>Properties\<close>

lemma fpga_lookup_slot:
  assumes "pg_core s" "proc_tables p s" "addr_to_fpga_pte p va PAGE_SHIFT s = Some (Some e)"
  obtains i fr where "e = fp s i" "slots s i = Some (generate_tag (pi_pid p) va, fr)"
proof -
  let ?t = "generate_tag (pi_pid p) va"
  let ?P = "\<lambda>pte. pte_allocated (pg_mem s pte) \<and> pte_tag (pg_mem s pte) = ?t"
  have S: "find ?P (bucket_ptes (devmem_pgtable_base s + tag_bucket ?t * BUCKET_SIZE)) = Some e"
    using assms(3) unfolding addr_to_fpga_pte_def PAGE_SHIFT_def fpga_bucket [OF pg_coreD(1) [OF assms(1)] assms(2), of va "pi_pid p"] by simp
  show thesis
  proof (cases rule: find_fpga_cases [of ?P s "tag_bucket ?t"])
    case none
    then show thesis using S by simp
  next
    case (slot i)
    have "i < 524288" by (rule slot_in_bucket [OF tag_bucket_less slot(1)])
    then have "slots s i = Some (?t, if pte_valid (pg_mem s (fp s i)) then Some (pte_frame (pg_mem s (fp s i))) else None)"
      using slot(2) by (simp add: slots_def Let_def)
    then show thesis using that [of i] slot(3) S by simp
  qed
qed

lemma slot_valid: "slots s i = Some (t, fr) \<Longrightarrow> fr = (if pte_valid (pg_mem s (fp s i)) then Some (pte_frame (pg_mem s (fp s i))) else None)"
  by (auto simp: slots_def Let_def split: if_splits)

lemma alloc_done_lookup:
  assumes "pg_core s" "alloc_done p start n fl s s' m" "k < n" "\<not> bucket_full s (range_tag p start k)"
    "n \<le> card (free_frames (pg_zone s))"
  shows "\<exists>e. addr_to_fpga_pte p (page_va start k) PAGE_SHIFT s' = Some (Some e) \<and> pte_allocated (pg_mem s' e)
     \<and> (pte_valid (pg_mem s' e) \<longleftrightarrow> fl AND LEGOMEM_VM_FLAGS_POPULATE \<noteq> 0)"
proof -
  note D = alloc_doneD [OF assms(2)]
  obtain fr where fr: "m k = Some fr" using D(4) [OF assms(3)] assms(4) by blast
  have "(range_tag p start k, fr) \<in> ran (slots s')" unfolding D(3) using fr assms(3) by (auto simp: range_maps_def)
  then obtain i where i: "slots s' i = Some (generate_tag (pi_pid p) (page_va start k), fr)" by (auto simp: ran_def range_tag_def)
  have "fr = None \<longleftrightarrow> fl AND LEGOMEM_VM_FLAGS_POPULATE = 0"
    using D(7) [OF assms(3)] D(8) fr assms(3,5) by (cases fr) (auto simp: range_frames_def)
  moreover have "pte_allocated (pg_mem s' (fp s' i))" using i by (auto simp: slots_def Let_def split: if_splits)
  ultimately show ?thesis using fpga_lookup [OF D(1,2) i] slot_valid [OF i] by (auto simp: PAGE_SHIFT_def split: if_splits)
qed





lemma card_dom_ran: "slots_ok \<sigma> info n U \<Longrightarrow> card (dom \<sigma>) = card (ran \<sigma>)"
proof -
  assume ok: "slots_ok \<sigma> info n U"
  have "inj_on (the \<circ> \<sigma>) (dom \<sigma>)"
    using slots_okD(4) [OF ok] by (auto simp: inj_on_def)
  moreover have "(the \<circ> \<sigma>) ` dom \<sigma> = ran \<sigma>" by (force simp: ran_def)
  ultimately show ?thesis by (metis card_image)
qed

lemma range_tag_inj:
  "unat start + n * 2 ^ 22 < 2 ^ 64 \<Longrightarrow> k < n \<Longrightarrow> j < n \<Longrightarrow> range_tag p start k = range_tag p start j \<Longrightarrow> k = j"
  unfolding range_tag_def by (rule page_tags_distinct [of start k j "pi_pid p"]) auto

lemma range_frames_in:
  "range_frames n m = {f. \<exists>k < n. (range_tag p start k, Some f) \<in> range_maps p start n m}"
  if "unat start + n * 2 ^ 22 < 2 ^ 64"
  using range_tag_inj [OF that] unfolding range_frames_def range_maps_def by blast



text \<open>C19. The spare frame is given away. When no frame is free, a page mapped with the flag for the spare frame gets that
  frame; unmapping the page then frees it, although it stays the spare frame, so that the next allocation
  hands it out while it may be mapped for others.\<close>

theorem spare_frame_becomes_free:
  assumes "pg_reach s" "proc_tables p s" "fl AND LEGOMEM_VM_FLAGS_USE_SPARE_PFN \<noteq> 0" "fl AND LEGOMEM_VM_FLAGS_POPULATE \<noteq> 0"
    "unat start + 2 ^ 22 < 2 ^ 64" "unmapped p start 1 s" "\<not> bucket_full s (generate_tag (pi_pid p) start)" "free_frames (pg_zone s) = {}"
  shows "\<exists>s1 s2. alloc_fpga_pte_range p start (start + PAGE_SIZE) fl PAGE_SIZE s = Some s1
     \<and> free_fpga_pte_range free_va p start (start + PAGE_SIZE) PAGE_SIZE s1 = Some s2
     \<and> global_spare_pfn s2 = global_spare_pfn s \<and> free_frames (pg_zone s2) = {global_spare_pfn s}"
proof -
  have inv: "pg_inv s" by (rule pg_reach_inv [OF assms(1)])
  then have c: "pg_core s" and sp: "global_spare_pfn s \<in> used_frames (pg_zone s)" "\<And>t. (t, Some (global_spare_pfn s)) \<notin> ran (slots s)"
    by (auto simp: pg_inv_def)
  note D = pg_coreD [OF c] and w = page_loop_less [of start 0]
  have w: "start < start + PAGE_SIZE" "page_va start (Suc 0) = start + PAGE_SIZE" using page_loop_less(1) [of start 0] assms(5) by (simp_all add: page_va_def)
  let ?t = "generate_tag (pi_pid p) start" and ?f = "global_spare_pfn s"
  obtain i where i: "i < 524288" "i div 16 = tag_bucket ?t" "slots s i = None" "alloc_one_shadow_pte p start 22 s =
         Some (Some (sh s i), set_slot i ((pg_mem s (sh s i))\<lparr>pte_tag := ?t, pte_allocated := True, pte_valid := False\<rparr>)
            (pg_mem s (fp s i)) (- 1) (pg_zone s) s)"
    using shadow_alloc [OF c assms(2), of start, folded bucket_full_def] assms(7) by (elim disjE exE conjE) (auto intro: that)
  let ?e = "(pg_mem s (sh s i))\<lparr>pte_tag := ?t, pte_allocated := True, pte_valid := False\<rparr>"
  let ?g = "(pg_mem s (fp s i))\<lparr>pte_allocated := True, pte_tag := ?t, pte_ppa := ucast (PFN_PHYS (of_nat ?f) + FPGA_MEMORY_MAP_MAPPING_BASE), pte_valid := True\<rparr>"
  have t: "slots s j \<noteq> Some (?t, fr)" for j fr using assms(6) by (auto simp: unmapped_def intro: ranI)
  have f: "?f < 512" "256 \<le> ?f" using sp(1) by (auto simp: used_frames_def)
  have nf: "slots s j \<noteq> Some (t', Some ?f)" for j t' using sp(2) by (metis ranI)
  have m: "pg_core (set_slot i ?e ?g (- 1) (pg_zone s) s)" "slots (set_slot i ?e ?g (- 1) (pg_zone s) s) = (slots s)(i \<mapsto> (?t, Some ?f))"
    using map_slot [OF c i(1,3) i(2) [symmetric] t, of "pg_zone s" "Some ?f" ?g ?e] D(2) sp(1) nf ppa_frame [OF f(1)] by simp_all
  have un: "\<not> pte_allocated (pg_mem s (fp s i))" using slots_None [OF D(1) i(1)] i(3) tables_okD(4) [OF D(1) i(1)] by simp
  have va: "pfn_to_soc_va x ?f = Some (x + of_nat ?f * PAGE_SIZE)" for x using f by (simp add: pfn_to_soc_va_def)
  have "alloc_pfn MAX_ORDER 0 (pg_zone s) = Some (0, pg_zone s)" using D(2) assms(8) by (cases rule: alloc_pfn_0) auto
  then have "\<exists>s1. alloc_one_fpga_pte p (sh s i) start fl PAGE_SIZE (set_slot i ?e (pg_mem s (fp s i)) (- 1) (pg_zone s) s) = Some (Some (fp s i), s1)
    \<and> (s1 = set_slot i ?e ?g (- 1) (pg_zone s) s \<or> (\<exists>d. s1 = (set_slot i ?e ?g (- 1) (pg_zone s) s)\<lparr>fpga_dram := d\<rparr>))"
    using assms(3,4) f un sh_fp [OF D(1) i(1), of i]
    by (cases "fl AND LEGOMEM_VM_FLAGS_ZERO = 0") (auto simp: alloc_one_fpga_pte_def shadow_to_fpga [OF D(1) assms(2) i(1)] Let_def va)
  then obtain s1 where s1: "alloc_one_fpga_pte p (sh s i) start fl PAGE_SIZE (set_slot i ?e (pg_mem s (fp s i)) (- 1) (pg_zone s) s) = Some (Some (fp s i), s1)"
    "s1 = set_slot i ?e ?g (- 1) (pg_zone s) s \<or> (\<exists>d. s1 = (set_slot i ?e ?g (- 1) (pg_zone s) s)\<lparr>fpga_dram := d\<rparr>)"
    by (elim exE conjE) (rule that)
  have al: "alloc_fpga_pte_range p start (start + PAGE_SIZE) fl PAGE_SIZE s = Some s1"
    using w(1) i(4) s1(1) by (simp add: alloc_fpga_pte_range_def alloc_pte_loop.simps [of p start] alloc_pte_loop.simps [of p "start + PAGE_SIZE"] PAGE_SHIFT_def)
  have c1: "pg_core s1" "slots s1 = (slots s)(i \<mapsto> (?t, Some ?f))" "proc_tables p s1" "pg_zone s1 = pg_zone s" "global_spare_pfn s1 = ?f"
    using s1(2) m assms(2) by (auto simp: proc_tables_def)
  obtain s2 where s2: "free_fpga_pte_range free_va p start (page_va start 1) PAGE_SIZE s1 = Some s2" "free_done p start 1 s1 s2"
    using free_range_spec [OF c1(1,3), of start 1 free_va] assms(5) by auto
  have "free_frames (pg_zone s2) = {f. (?t, Some f) \<in> ran (slots s1)}" using s2(2) c1(4) assms(8) by (simp add: free_done_def)
  also have "\<dots> = {?f}" unfolding c1(2) using i(3) t by (auto simp: ran_map_upd ran_def)
  finally show ?thesis using al s2 w(2) c1(5) by (intro exI [of _ s1] exI [of _ s2]) (simp add: free_done_def)
qed

theorem spare_frame_becomes_free_witness:
  "\<exists>(s :: pgstate) s1 s2. pg_reach s \<and> alloc_fpga_pte_range demo_proc 0 (0 + PAGE_SIZE) 0x12 PAGE_SIZE s = Some s1
     \<and> free_fpga_pte_range (\<lambda>_ _ _ _ _. None) demo_proc 0 (0 + PAGE_SIZE) PAGE_SIZE s1 = Some s2 \<and> global_spare_pfn s2 \<in> free_frames (pg_zone s2)"
proof -
  obtain s0 :: pgstate where s0: "pg_reach s0" "proc_tables demo_proc s0" "ran (slots s0) = {}" using demo_reach by blast
  obtain s :: pgstate where s: "pg_reach s" "slots s = slots s0" "free_frames (pg_zone s) = {}" "proc_tables demo_proc s"
    using drain [OF s0(1), where p = demo_proc] s0(2) by blast
  have "ran (slots s) = {}" using s(2) s0(3) by simp
  then have a: "0x12 AND LEGOMEM_VM_FLAGS_USE_SPARE_PFN \<noteq> 0" "0x12 AND LEGOMEM_VM_FLAGS_POPULATE \<noteq> 0"
    "unat (0 :: u64) + 2 ^ 22 < 2 ^ 64" "unmapped demo_proc 0 1 s" "\<not> bucket_full s (generate_tag (pi_pid demo_proc) 0)"
    using not_full_empty by (auto simp: unmapped_def LEGOMEM_VM_FLAGS_USE_SPARE_PFN_def LEGOMEM_VM_FLAGS_POPULATE_def)
  from spare_frame_becomes_free [OF s(1,4) a s(3), where free_va = "\<lambda>_ _ _ _ _. None"] obtain s1 s2 where
    r: "alloc_fpga_pte_range demo_proc 0 (0 + PAGE_SIZE) 0x12 PAGE_SIZE s = Some s1"
    "free_fpga_pte_range (\<lambda>_ _ _ _ _. None) demo_proc 0 (0 + PAGE_SIZE) PAGE_SIZE s1 = Some s2"
    "global_spare_pfn s2 = global_spare_pfn s" "free_frames (pg_zone s2) = {global_spare_pfn s}" by (elim exE conjE) (rule that)
  have "global_spare_pfn s2 \<in> free_frames (pg_zone s2)" using r(3,4) by simp
  then show ?thesis using s(1) r(1,2) by blast
qed

end
