(* ===== verification/Vm.thy ===== *)
theory Vm
  imports Rbtree Pgtable
begin

text \<open>
  Virtual memory areas of the board: \<^verbatim>\<open>board/soc/core/vm.c\<close>.

  A region has the list and the red-black tree of its areas, the tree augmented with the largest gap in
  front of an area of each subtree. An area is a node of \<open>Rbtree\<close> with more fields. The functions that work on
  one region take and return the store of the areas and the region; the functions that also reach the page
  tables work on the whole state, which extends the state of \<open>Pgtable\<close> with the processes, the areas and the
  results that the next calls of \<^verbatim>\<open>malloc\<close> will give (0 when there is no memory).

  This theory gives \<open>Pgtable\<close> its two callbacks: \<^verbatim>\<open>__free_va\<close> and the page tables call each other, so \<open>c_free_va\<close> is a
  recursive function through \<open>free_fpga_pte_range\<close>. The checks of the tree are compiled out in the sources and
  left out here, and the lock of a region, which no function takes twice, is not represented.
\<close>

section \<open>Areas and the state\<close>

record vm_area_struct = rb_node +
  vm_start :: u64
  vm_end :: u64
  vm_next :: rptr
  vm_prev :: rptr
  rb_subtree_gap :: u64
  vm_flags :: u64

type_synonym vmheap = "rptr \<rightharpoonup> vm_area_struct"

record vmstate = pgstate +
  vm_procs :: "ptr \<rightharpoonup> proc_info"
  vm_heap :: vmheap
  vm_malloc :: "rptr list"
  cached_vregion_start :: u32

text \<open>The parts of the state that a function on one region works on.\<close>

type_synonym vmr = "vmheap \<times> vregion_info"

definition with_vi :: "ptr \<Rightarrow> nat \<Rightarrow> (vmr \<Rightarrow> ('r \<times> vmr) option) \<Rightarrow> vmstate \<Rightarrow> ('r \<times> vmstate) option" where
  "with_vi p v f s = do {
     pi \<leftarrow> vm_procs s p;
     (r, h, vi) \<leftarrow> f (vm_heap s, vregion pi v);
     Some (r, s\<lparr>vm_heap := h, vm_procs := (vm_procs s)(p \<mapsto> pi\<lparr>vregion := (vregion pi)(v := vi)\<rparr>)\<rparr>) }"

definition take_malloc :: "vmstate \<Rightarrow> rptr \<times> vmstate" where
  "take_malloc s = (case vm_malloc s of [] \<Rightarrow> (0, s) | a # as \<Rightarrow> (a, s\<lparr>vm_malloc := as\<rparr>))"

section \<open>Gaps\<close>

definition vma_compute_gap :: "rptr \<Rightarrow> vmheap \<Rightarrow> u64 option" where
  "vma_compute_gap vma h = do {
     gap \<leftarrow> rd vma vm_start h;
     prev \<leftarrow> rd vma vm_prev h;
     if prev \<noteq> 0 then do {
       prev_end \<leftarrow> rd prev vm_end h;
       Some (if gap > prev_end then gap - prev_end else 0) }
     else Some gap }"

abbreviation set_gap :: "u64 \<Rightarrow> vm_area_struct \<Rightarrow> vm_area_struct" where
  "set_gap g n \<equiv> n\<lparr>rb_subtree_gap := g\<rparr>"

definition vma_gap_callbacks :: "unit vm_area_struct_ext rb_augment_callbacks" where
  "vma_gap_callbacks =
     \<lparr>cb_propagate = callbacks_propagate vma_compute_gap rb_subtree_gap set_gap,
      cb_copy = callbacks_copy rb_subtree_gap set_gap,
      cb_rotate = callbacks_rotate vma_compute_gap rb_subtree_gap set_gap\<rparr>"

definition vma_gap_update :: "rptr \<Rightarrow> vmheap \<Rightarrow> vmheap option" where
  "vma_gap_update vma h = cb_propagate vma_gap_callbacks vma 0 h"

definition vma_rb_insert :: "rptr \<Rightarrow> vmheap \<times> rptr \<Rightarrow> (vmheap \<times> rptr) option" where
  "vma_rb_insert vma st = rb_insert_augmented vma_gap_callbacks vma st"

definition c_vma_rb_erase :: "rptr \<Rightarrow> vmheap \<times> rptr \<Rightarrow> (vmheap \<times> rptr) option" where
  "c_vma_rb_erase vma st = rb_erase_augmented vma_gap_callbacks vma st"

section \<open>Linking and unlinking\<close>

text \<open>\<open>m\<close> is the address that \<^verbatim>\<open>malloc\<close> returned.\<close>

definition zero_vma :: vm_area_struct where
  "zero_vma = \<lparr>rb_pc = 0, rb_right = 0, rb_left = 0, vm_start = 0, vm_end = 0, vm_next = 0, vm_prev = 0,
     rb_subtree_gap = 0, vm_flags = 0\<rparr>"

definition vm_area_alloc :: "rptr \<Rightarrow> vmheap \<Rightarrow> rptr \<times> vmheap" where
  "vm_area_alloc m h = (m, if m \<noteq> 0 then h(m \<mapsto> zero_vma) else h)"

definition vm_area_dup :: "rptr \<Rightarrow> rptr \<Rightarrow> vmheap \<Rightarrow> (rptr \<times> vmheap) option" where
  "vm_area_dup m orig h = (if m \<noteq> 0 then do { n \<leftarrow> h orig; Some (m, h(m \<mapsto> n)) } else Some (m, h))"

definition vm_area_free :: "rptr \<Rightarrow> vmheap \<Rightarrow> vmheap" where
  "vm_area_free vma h = h(vma := None)"

definition c_vma_link_list :: "rptr \<Rightarrow> rptr \<Rightarrow> vmr \<Rightarrow> vmr option" where
  "c_vma_link_list vma prev st = (case st of (h, vi) \<Rightarrow> do {
     h \<leftarrow> wr vma (\<lambda>n. n\<lparr>vm_prev := prev\<rparr>) h;
     (next, h, vi) \<leftarrow>
       (if prev \<noteq> 0 then do {
          next \<leftarrow> rd prev vm_next h;
          h \<leftarrow> wr prev (\<lambda>n. n\<lparr>vm_next := vma\<rparr>) h;
          Some (next, h, vi) }
        else Some (vi_mmap vi, h, vi\<lparr>vi_mmap := vma\<rparr>));
     h \<leftarrow> wr vma (\<lambda>n. n\<lparr>vm_next := next\<rparr>) h;
     h \<leftarrow> (if next \<noteq> 0 then wr next (\<lambda>n. n\<lparr>vm_prev := vma\<rparr>) h else Some h);
     Some (h, vi) })"

definition c_vma_unlink_list :: "rptr \<Rightarrow> vmr \<Rightarrow> vmr option" where
  "c_vma_unlink_list vma st = (case st of (h, vi) \<Rightarrow> do {
     next \<leftarrow> rd vma vm_next h;
     prev \<leftarrow> rd vma vm_prev h;
     (h, vi) \<leftarrow>
       (if prev \<noteq> 0 then do { h \<leftarrow> wr prev (\<lambda>n. n\<lparr>vm_next := next\<rparr>) h; Some (h, vi) }
        else Some (h, vi\<lparr>vi_mmap := next\<rparr>));
     h \<leftarrow> (if next \<noteq> 0 then wr next (\<lambda>n. n\<lparr>vm_prev := prev\<rparr>) h else Some h);
     Some (h, vi) })"

definition c_vma_link_rb :: "rptr \<Rightarrow> rb_link \<Rightarrow> rptr \<Rightarrow> vmr \<Rightarrow> vmr option" where
  "c_vma_link_rb vma lnk parent st = (case st of (h, vi) \<Rightarrow> do {
     next \<leftarrow> rd vma vm_next h;
     (h, vi) \<leftarrow>
       (if next \<noteq> 0 then do { h \<leftarrow> vma_gap_update next h; Some (h, vi) }
        else do { e \<leftarrow> rd vma vm_end h; Some (h, vi\<lparr>highest_vm_end := e\<rparr>) });
     (h, root) \<leftarrow> rb_link_node vma parent lnk (h, mm_rb vi);
     h \<leftarrow> wr vma (\<lambda>n. n\<lparr>rb_subtree_gap := 0\<rparr>) h;
     h \<leftarrow> vma_gap_update vma h;
     (h, root) \<leftarrow> vma_rb_insert vma (h, root);
     Some (h, vi\<lparr>mm_rb := root\<rparr>) })"

definition c_vma_link :: "rptr \<Rightarrow> rptr \<Rightarrow> rb_link \<Rightarrow> rptr \<Rightarrow> vmr \<Rightarrow> vmr option" where
  "c_vma_link vma prev lnk parent st = do {
     st \<leftarrow> c_vma_link_list vma prev st;
     c_vma_link_rb vma lnk parent st }"

definition vma_link :: "rptr \<Rightarrow> rptr \<Rightarrow> rb_link \<Rightarrow> rptr \<Rightarrow> vmr \<Rightarrow> vmr option" where
  "vma_link vma prev lnk parent st = do {
     (h, vi) \<leftarrow> c_vma_link vma prev lnk parent st;
     Some (h, vi\<lparr>vi_nr_vmas := vi_nr_vmas vi + 1\<rparr>) }"

section \<open>Searching\<close>

text \<open>The result is \<open>None\<close> for \<^verbatim>\<open>-ENOMEM\<close>, and otherwise the preceding area, the link for a new one and its parent.\<close>

partial_function (option) find_links_loop ::
  "u64 \<Rightarrow> u64 \<Rightarrow> rb_link \<Rightarrow> rptr \<Rightarrow> rptr \<Rightarrow> vmheap \<times> rptr \<Rightarrow> (rptr \<times> rb_link \<times> rptr) option option" where
  "find_links_loop addr end lnk parent prev st = do {
     n \<leftarrow> load_link lnk st;
     if n \<noteq> 0 then do {
       e \<leftarrow> rd n vm_end (fst st);
       if e > addr then do {
         b \<leftarrow> rd n vm_start (fst st);
         if b < end then Some None else find_links_loop addr end (Left_link n) n prev st }
       else find_links_loop addr end (Right_link n) n n st }
     else Some (Some (prev, lnk, parent)) }"

definition find_vma_links :: "u64 \<Rightarrow> u64 \<Rightarrow> vmr \<Rightarrow> (rptr \<times> rb_link \<times> rptr) option option" where
  "find_vma_links addr end st = find_links_loop addr end Root_link 0 0 (fst st, mm_rb (snd st))"

partial_function (option) find_vma_loop :: "u64 \<Rightarrow> rptr \<Rightarrow> rptr \<Rightarrow> vmheap \<Rightarrow> rptr option" where
  "find_vma_loop addr rbn vma h =
     (if rbn \<noteq> 0 then do {
        e \<leftarrow> rd rbn vm_end h;
        if e > addr then do {
          b \<leftarrow> rd rbn vm_start h;
          if b \<le> addr then Some rbn
          else do { l \<leftarrow> rd rbn rb_left h; find_vma_loop addr l rbn h } }
        else do { r \<leftarrow> rd rbn rb_right h; find_vma_loop addr r vma h } }
      else Some vma)"

definition find_vma :: "u64 \<Rightarrow> vmr \<Rightarrow> rptr option" where
  "find_vma addr st = find_vma_loop addr (mm_rb (snd st)) 0 (fst st)"

definition c_insert_vm_struct :: "rptr \<Rightarrow> vmr \<Rightarrow> vmr option" where
  "c_insert_vm_struct vma st = do {
     b \<leftarrow> rd vma vm_start (fst st);
     e \<leftarrow> rd vma vm_end (fst st);
     r \<leftarrow> find_vma_links b e st;
     case r of None \<Rightarrow> None
     | Some (prev, lnk, parent) \<Rightarrow> do {
       (h, vi) \<leftarrow> c_vma_link vma prev lnk parent st;
       Some (h, vi\<lparr>vi_nr_vmas := vi_nr_vmas vi + 1\<rparr>) } }"

definition c_vma_unlink_common :: "rptr \<Rightarrow> vmr \<Rightarrow> vmr option" where
  "c_vma_unlink_common vma st = (case st of (h, vi) \<Rightarrow> do {
     (h, root) \<leftarrow> c_vma_rb_erase vma (h, mm_rb vi);
     c_vma_unlink_list vma (h, vi\<lparr>mm_rb := root\<rparr>) })"

section \<open>Adjusting areas\<close>

text \<open>The local variables of \<^verbatim>\<open>__vma_adjust\<close> that its first part sets, and that part.\<close>

record adjust_vars =
  av_vma :: rptr
  av_next :: rptr
  av_end :: u64
  av_remove_next :: nat
  av_adjust_next :: u64

definition vma_adjust_cases :: "rptr \<Rightarrow> u64 \<Rightarrow> rptr \<Rightarrow> rptr \<Rightarrow> vmheap \<Rightarrow> adjust_vars option" where
  "vma_adjust_cases vma end ins grow h = do {
     next \<leftarrow> rd vma vm_next h;
     let av = \<lparr>av_vma = vma, av_next = next, av_end = end, av_remove_next = 0, av_adjust_next = 0\<rparr>;
     if next \<noteq> 0 \<and> ins = 0 then do {
       ne \<leftarrow> rd next vm_end h;
       if end \<ge> ne then
         (if next = grow then Some (av\<lparr>av_remove_next := 3, av_vma := next, av_next := vma\<rparr>)
          else Some (av\<lparr>av_remove_next := 1 + of_bool (end > ne), av_end := ne\<rparr>))
       else do {
         ns \<leftarrow> rd next vm_start h;
         if end > ns then Some (av\<lparr>av_adjust_next := end - ns\<rparr>)
         else do {
           ve \<leftarrow> rd vma vm_end h;
           Some (if end < ve then av\<lparr>av_adjust_next := - (ve - end)\<rparr> else av) } } }
     else Some av }"

text \<open>One pass from the label \<^verbatim>\<open>again\<close> up to the test for another pass. The result is the value of \<^verbatim>\<open>next\<close>
  and the store and the region.\<close>

definition vma_adjust_pass :: "u64 \<Rightarrow> rptr \<Rightarrow> adjust_vars \<Rightarrow> vmr \<Rightarrow> (rptr \<times> vmr) option" where
  "vma_adjust_pass start ins av st = (case st of (h, vi) \<Rightarrow> do {
     let vma = av_vma av;
     let next = av_next av;
     vs \<leftarrow> rd vma vm_start h;
     h \<leftarrow> (if start \<noteq> vs then wr vma (\<lambda>n. n\<lparr>vm_start := start\<rparr>) h else Some h);
     ve \<leftarrow> rd vma vm_end h;
     h \<leftarrow> (if av_end av \<noteq> ve then wr vma (\<lambda>n. n\<lparr>vm_end := av_end av\<rparr>) h else Some h);
     h \<leftarrow> (if av_adjust_next av \<noteq> 0 then wr next (\<lambda>n. n\<lparr>vm_start := vm_start n + av_adjust_next av\<rparr>) h else Some h);
     if av_remove_next av \<noteq> 0 then do {
       (h, vi) \<leftarrow> c_vma_unlink_common next (h, vi);
       let vi = vi\<lparr>vi_nr_vmas := vi_nr_vmas vi - 1\<rparr>;
       let h = vm_area_free next h;
       next \<leftarrow> (if av_remove_next av \<noteq> 3 then rd vma vm_next h else Some vma);
       Some (next, h, vi) }
     else if ins \<noteq> 0 then do {
       st \<leftarrow> c_insert_vm_struct ins (h, vi);
       Some (next, st) }
     else do {
       h \<leftarrow> (if start \<noteq> vs then vma_gap_update vma h else Some h);
       if av_end av \<noteq> ve then
         (if next = 0 then do { e \<leftarrow> rd vma vm_end h; Some (next, h, vi\<lparr>highest_vm_end := e\<rparr>) }
          else if av_adjust_next av = 0 then do { h \<leftarrow> vma_gap_update next h; Some (next, h, vi) }
          else Some (next, h, vi))
       else Some (next, h, vi) } })"

definition c_vma_adjust :: "rptr \<Rightarrow> u64 \<Rightarrow> u64 \<Rightarrow> rptr \<Rightarrow> rptr \<Rightarrow> vmr \<Rightarrow> (int \<times> vmr) option" where
  "c_vma_adjust vma start end ins grow st = do {
     av \<leftarrow> vma_adjust_cases vma end ins grow (fst st);
     (next, h, vi) \<leftarrow> vma_adjust_pass start ins av st;
     (next, h, vi) \<leftarrow>
       (if av_remove_next av = 2 then do {
          e \<leftarrow> rd next vm_end h;
          vma_adjust_pass start ins (av\<lparr>av_next := next, av_remove_next := 1, av_end := e\<rparr>) (h, vi) }
        else Some (next, h, vi));
     h \<leftarrow> (if av_remove_next av \<noteq> 0 \<and> next \<noteq> 0 then vma_gap_update next h else Some h);
     Some (0, h, vi) }"

definition vma_adjust :: "rptr \<Rightarrow> u64 \<Rightarrow> u64 \<Rightarrow> rptr \<Rightarrow> vmr \<Rightarrow> (int \<times> vmr) option" where
  "vma_adjust vma start end ins st = c_vma_adjust vma start end ins 0 st"

definition split_vma :: "rptr \<Rightarrow> u64 \<Rightarrow> bool \<Rightarrow> rptr \<Rightarrow> vmr \<Rightarrow> (int \<times> vmr) option" where
  "split_vma vma addr new_below m st = (case st of (h, vi) \<Rightarrow> do {
     (new, h) \<leftarrow> vm_area_dup m vma h;
     if new = 0 then Some (- ENOMEM, h, vi)
     else do {
       h \<leftarrow> wr new (\<lambda>n. if new_below then n\<lparr>vm_end := addr\<rparr> else n\<lparr>vm_start := addr\<rparr>) h;
       vs \<leftarrow> rd vma vm_start h;
       ve \<leftarrow> rd vma vm_end h;
       (err, h, vi) \<leftarrow> (if new_below then vma_adjust vma addr ve new (h, vi) else vma_adjust vma vs addr new (h, vi));
       Some (err, if err \<noteq> 0 then vm_area_free new h else h, vi) } })"

definition can_vma_merge :: "rptr \<Rightarrow> u64 \<Rightarrow> int" where
  "can_vma_merge vma flags = 1"

text \<open>The successor that a new range may be joined with.\<close>

definition vma_merge_next :: "rptr \<Rightarrow> u64 \<Rightarrow> vmr \<Rightarrow> (rptr \<times> rptr) option" where
  "vma_merge_next prev end st = (case st of (h, vi) \<Rightarrow> do {
     next \<leftarrow> (if prev \<noteq> 0 then rd prev vm_next h else Some (vi_mmap vi));
     let area = next;
     if area \<noteq> 0 then do {
       ae \<leftarrow> rd area vm_end h;
       next \<leftarrow> (if ae = end then rd next vm_next h else Some next);
       Some (area, next) }
     else Some (area, next) })"

definition vma_merge :: "rptr \<Rightarrow> u64 \<Rightarrow> u64 \<Rightarrow> u64 \<Rightarrow> vmr \<Rightarrow> (rptr \<times> vmr) option" where
  "vma_merge prev addr end flags st = (case st of (h, vi) \<Rightarrow> do {
     (area, next) \<leftarrow> vma_merge_next prev end st;
     pe \<leftarrow> (if prev \<noteq> 0 then rd prev vm_end h else Some 0);
     front \<leftarrow> (if next \<noteq> 0 then do { ns \<leftarrow> rd next vm_start h; Some (end = ns \<and> can_vma_merge next flags \<noteq> 0) } else Some False);
     if prev \<noteq> 0 \<and> pe = addr \<and> can_vma_merge prev flags \<noteq> 0 then do {
       ps \<leftarrow> rd prev vm_start h;
       e \<leftarrow> (if front then rd next vm_end h else Some end);
       (err, st) \<leftarrow> c_vma_adjust prev ps e 0 prev (h, vi);
       Some (if err \<noteq> 0 then 0 else prev, st) }
     else if front then
       (if prev \<noteq> 0 \<and> addr < pe then do {
          ps \<leftarrow> rd prev vm_start h;
          (err, st) \<leftarrow> c_vma_adjust prev ps addr 0 next (h, vi);
          Some (if err \<noteq> 0 then 0 else area, st) }
        else do {
          ne \<leftarrow> rd next vm_end h;
          (err, st) \<leftarrow> c_vma_adjust area addr ne 0 next (h, vi);
          Some (if err \<noteq> 0 then 0 else next, st) })
     else Some (0, h, vi) })"

section \<open>Releasing a range\<close>

type_synonym free_cb = "ptr \<Rightarrow> nat \<Rightarrow> u64 \<Rightarrow> u64 \<Rightarrow> vmstate \<Rightarrow> (int \<times> vmstate) option"

definition unmap_single_vma :: "free_cb \<Rightarrow> ptr \<Rightarrow> rptr \<Rightarrow> u64 \<Rightarrow> u64 \<Rightarrow> vmstate \<Rightarrow> vmstate option" where
  "unmap_single_vma free_va p vma start_addr end_addr s = do {
     n \<leftarrow> vm_heap s vma;
     pi \<leftarrow> vm_procs s p;
     let start = max (vm_start n) start_addr;
     if start \<ge> vm_end n then Some s
     else do {
       let end = min (vm_end n) end_addr;
       if end \<le> vm_start n then Some s
       else if start \<noteq> end \<and> vm_flags n \<noteq> LEGOMEM_VM_FLAGS_CONFLICT
       then free_fpga_pte_range free_va pi start end PAGE_SIZE s
       else Some s } }"

partial_function (option) unmap_region :: "free_cb \<Rightarrow> ptr \<Rightarrow> rptr \<Rightarrow> u64 \<Rightarrow> u64 \<Rightarrow> vmstate \<Rightarrow> vmstate option" where
  "unmap_region free_va p vma start end s =
     (if vma \<noteq> 0 then do {
        vs \<leftarrow> rd vma vm_start (vm_heap s);
        if vs < end then do {
          s \<leftarrow> unmap_single_vma free_va p vma start end s;
          next \<leftarrow> rd vma vm_next (vm_heap s);
          unmap_region free_va p next start end s }
        else Some s }
      else Some s)"

text \<open>The loop that takes areas out of the tree. It gives the last area taken out and the one after it.\<close>

partial_function (option) detach_loop :: "rptr \<Rightarrow> u64 \<Rightarrow> vmr \<Rightarrow> (rptr \<times> rptr \<times> vmr) option" where
  "detach_loop vma end st = do {
     (h, root) \<leftarrow> c_vma_rb_erase vma (fst st, mm_rb (snd st));
     let vi = (snd st)\<lparr>mm_rb := root, vi_nr_vmas := vi_nr_vmas (snd st) - 1\<rparr>;
     next \<leftarrow> rd vma vm_next h;
     if next \<noteq> 0 then do {
       ns \<leftarrow> rd next vm_start h;
       if ns < end then detach_loop next end (h, vi) else Some (vma, next, h, vi) }
     else Some (vma, next, h, vi) }"

definition detach_vmas_to_be_unmapped :: "rptr \<Rightarrow> rptr \<Rightarrow> u64 \<Rightarrow> vmr \<Rightarrow> vmr option" where
  "detach_vmas_to_be_unmapped vma prev end st = (case st of (h, vi) \<Rightarrow> do {
     h \<leftarrow> wr vma (\<lambda>n. n\<lparr>vm_prev := 0\<rparr>) h;
     (tail, vma, h, vi) \<leftarrow> detach_loop vma end (h, vi);
     (h, vi) \<leftarrow>
       (if prev \<noteq> 0 then do { h \<leftarrow> wr prev (\<lambda>n. n\<lparr>vm_next := vma\<rparr>) h; Some (h, vi) }
        else Some (h, vi\<lparr>vi_mmap := vma\<rparr>));
     (h, vi) \<leftarrow>
       (if vma \<noteq> 0 then do {
          h \<leftarrow> wr vma (\<lambda>n. n\<lparr>vm_prev := prev\<rparr>) h;
          h \<leftarrow> vma_gap_update vma h;
          Some (h, vi) }
        else do {
          e \<leftarrow> (if prev \<noteq> 0 then rd prev vm_end h else Some 0);
          Some (h, vi\<lparr>highest_vm_end := e\<rparr>) });
     h \<leftarrow> wr tail (\<lambda>n. n\<lparr>vm_next := 0\<rparr>) h;
     Some (h, vi) })"

partial_function (option) free_areas_loop :: "rptr \<Rightarrow> vmheap \<Rightarrow> vmheap option" where
  "free_areas_loop vma h = do {
     next \<leftarrow> rd vma vm_next h;
     if next \<noteq> 0 then free_areas_loop next (vm_area_free vma h) else Some (vm_area_free vma h) }"

text \<open>Splitting the areas at both ends of the range: an error, or the area in front of the range.\<close>

definition free_va_split :: "ptr \<Rightarrow> nat \<Rightarrow> u64 \<Rightarrow> u64 \<Rightarrow> rptr \<Rightarrow> vmstate \<Rightarrow> ((int + rptr) \<times> vmstate) option" where
  "free_va_split p v start end vma s = do {
     n \<leftarrow> vm_heap s vma;
     (r, s) \<leftarrow>
       (if start > vm_start n then
          if end < vm_end n then Some (Inl (- ENOMEM), s)
          else do {
            let (m, s) = take_malloc s;
            (err, s) \<leftarrow> with_vi p v (split_vma vma start False m) s;
            Some (if err \<noteq> 0 then Inl err else Inr vma, s) }
        else Some (Inr (vm_prev n), s));
     case r of Inl err \<Rightarrow> Some (Inl err, s)
     | Inr prev \<Rightarrow> do {
       (last, s) \<leftarrow> with_vi p v (\<lambda>st. do { l \<leftarrow> find_vma end st; Some (l, st) }) s;
       ls \<leftarrow> (if last \<noteq> 0 then rd last vm_start (vm_heap s) else Some 0);
       if last \<noteq> 0 \<and> end > ls then do {
         let (m, s) = take_malloc s;
         (err, s) \<leftarrow> with_vi p v (split_vma last end True m) s;
         Some (if err \<noteq> 0 then Inl err else Inr prev, s) }
       else Some (Inr prev, s) } }"

text \<open>
  \<^verbatim>\<open>__free_va\<close> calls itself through the page tables. The functions in between are monotone in the call, in
  the order of how much of it is defined, so that the recursive equation has a least solution: a chain of
  calls that never ends gives \<open>None\<close>.
\<close>

definition ext_cb ::
  "(ptr \<Rightarrow> nat \<Rightarrow> u64 \<Rightarrow> u64 \<Rightarrow> 's \<Rightarrow> (int \<times> 's) option) \<Rightarrow> (ptr \<Rightarrow> nat \<Rightarrow> u64 \<Rightarrow> u64 \<Rightarrow> 's \<Rightarrow> (int \<times> 's) option) \<Rightarrow> bool" where
  "ext_cb f g \<longleftrightarrow> (\<forall>p v a l s r. f p v a l s = Some r \<longrightarrow> g p v a l s = Some r)"

lemma ext_cbD: "ext_cb f g \<Longrightarrow> f p v a l s = Some r \<Longrightarrow> g p v a l s = Some r"
  unfolding ext_cb_def by blast

lemma bind_ext:
  "m \<bind> K = Some r \<Longrightarrow> (\<And>x. m = Some x \<Longrightarrow> m' = Some x) \<Longrightarrow> (\<And>x. K x = Some r \<Longrightarrow> K' x = Some r) \<Longrightarrow> m' \<bind> K' = Some r"
  by (cases m) auto

lemma conflicts_loop_ext: "conflicts_loop f b s = Some r \<Longrightarrow> ext_cb f g \<Longrightarrow> conflicts_loop g b s = Some r"
  apply (erule conflicts_loop.raw_induct [where P = "\<lambda>f b s r. ext_cb f g \<longrightarrow> conflicts_loop g b s = Some r", rotated, rule_format])
   apply (subst conflicts_loop.simps)
   apply (auto simp: Let_def split: list.split list.split_asm elim!: bind_ext intro: ext_cbD)
  done

lemma free_all_conflicts_ext: "free_all_conflicts f b s = Some r \<Longrightarrow> ext_cb f g \<Longrightarrow> free_all_conflicts g b s = Some r"
  by (auto simp: free_all_conflicts_def bind_eq_Some_conv split: if_splits dest: conflicts_loop_ext)

lemma zap_shadow_pte_ext: "zap_shadow_pte f p pte sz s = Some r \<Longrightarrow> ext_cb f g \<Longrightarrow> zap_shadow_pte g p pte sz s = Some r"
  by (auto simp: zap_shadow_pte_def Let_def bind_eq_Some_conv split: if_splits dest: free_all_conflicts_ext)

lemma free_pte_loop_ext:
  "free_pte_loop f p a b sz s = Some r \<Longrightarrow> ext_cb f g \<Longrightarrow> free_pte_loop g p a b sz s = Some r"
  apply (erule free_pte_loop.raw_induct [where P = "\<lambda>f p a b sz s r. ext_cb f g \<longrightarrow> free_pte_loop g p a b sz s = Some r",
        rotated, rule_format])
   apply (subst free_pte_loop.simps)
   apply (auto split: if_splits option.split option.split_asm elim!: bind_ext intro: zap_shadow_pte_ext)
  done

lemma free_fpga_pte_range_ext:
  "free_fpga_pte_range f p a b sz s = Some r \<Longrightarrow> ext_cb f g \<Longrightarrow> free_fpga_pte_range g p a b sz s = Some r"
  by (auto simp: free_fpga_pte_range_def bind_eq_Some_conv dest: free_pte_loop_ext)

lemma unmap_single_vma_ext:
  "unmap_single_vma f p vma a b s = Some r \<Longrightarrow> ext_cb f g \<Longrightarrow> unmap_single_vma g p vma a b s = Some r"
  by (auto simp: unmap_single_vma_def Let_def bind_eq_Some_conv split: if_splits dest: free_fpga_pte_range_ext)

lemma unmap_region_ext:
  "unmap_region f p vma a b s = Some r \<Longrightarrow> ext_cb f g \<Longrightarrow> unmap_region g p vma a b s = Some r"
  apply (erule unmap_region.raw_induct [where P = "\<lambda>f p vma a b s r. ext_cb f g \<longrightarrow> unmap_region g p vma a b s = Some r",
        rotated, rule_format])
   apply (subst unmap_region.simps)
   apply (auto split: if_splits elim!: bind_ext intro: unmap_single_vma_ext)
  done

lemma unmap_region_mono [partial_function_mono]:
  fixes F :: "('a \<Rightarrow> 'b option) \<Rightarrow> free_cb"
  assumes "\<And>p v a l s. mono_option (\<lambda>f. F f p v a l s)"
  shows "mono_option (\<lambda>f. unmap_region (\<lambda>p v a l s. F f p v a l s) p vma start end s)"
proof (rule monotoneI)
  fix f g :: "'a \<Rightarrow> 'b option"
  assume fg: "option.le_fun f g"
  have m: "option_ord (F f p v a l s) (F g p v a l s)" for p v a l s using assms [of p v a l s] fg unfolding monotone_def by blast
  have "ext_cb (\<lambda>p v a l s. F f p v a l s) (\<lambda>p v a l s. F g p v a l s)"
    unfolding ext_cb_def
  proof (intro allI impI)
    fix p v a l s r
    assume "F f p v a l s = Some r"
    with m [of p v a l s] show "F g p v a l s = Some r" by (auto simp: flat_ord_def)
  qed
  then show "flat_ord None (unmap_region (\<lambda>p v a l s. F f p v a l s) p vma start end s)
      (unmap_region (\<lambda>p v a l s. F g p v a l s) p vma start end s)"
    unfolding flat_ord_def by (cases "unmap_region (\<lambda>p v a l s. F f p v a l s) p vma start end s") (auto dest: unmap_region_ext)
qed

partial_function (option) c_free_va :: "ptr \<Rightarrow> nat \<Rightarrow> u64 \<Rightarrow> u64 \<Rightarrow> vmstate \<Rightarrow> (int \<times> vmstate) option" where
  "c_free_va p v start len s = (
     if len = 0 then Some (- EINVAL, s)
     else do {
       (vma, s) \<leftarrow> with_vi p v (\<lambda>st. do { l \<leftarrow> find_vma start st; Some (l, st) }) s;
       if vma = 0 then Some (0, s)
       else do {
         vs \<leftarrow> rd vma vm_start (vm_heap s);
         if vs \<ge> start + len then Some (0, s)
         else do {
           rs \<leftarrow> free_va_split p v start (start + len) vma s;
           case fst rs of Inl err \<Rightarrow> Some (err, snd rs)
           | Inr prev \<Rightarrow> do {
             (vma, s) \<leftarrow> with_vi p v (\<lambda>st. do {
                vma \<leftarrow> (if prev \<noteq> 0 then rd prev vm_next (fst st) else Some (vi_mmap (snd st)));
                st \<leftarrow> detach_vmas_to_be_unmapped vma prev (start + len) st;
                Some (vma, st) }) (snd rs);
             s \<leftarrow> unmap_region (\<lambda>p v a l s. c_free_va p v a l s) p vma start (start + len) s;
             h \<leftarrow> free_areas_loop vma (vm_heap s);
             Some (0, s\<lparr>vm_heap := h\<rparr>) } } } })"

section \<open>New areas\<close>

text \<open>The loop that clears old maps: \<open>None\<close> inside is \<^verbatim>\<open>-ENOMEM\<close>.\<close>

partial_function (option) clear_old_loop ::
  "ptr \<Rightarrow> nat \<Rightarrow> u64 \<Rightarrow> u64 \<Rightarrow> vmstate \<Rightarrow> ((rptr \<times> rb_link \<times> rptr) option \<times> vmstate) option" where
  "clear_old_loop p v addr len s = do {
     pi \<leftarrow> vm_procs s p;
     r \<leftarrow> find_vma_links addr (addr + len) (vm_heap s, vregion pi v);
     case r of Some l \<Rightarrow> Some (Some l, s)
     | None \<Rightarrow> do {
       fs \<leftarrow> c_free_va p v addr len s;
       if fst fs \<noteq> 0 then Some (None, snd fs) else clear_old_loop p v addr len (snd fs) } }"

definition vma_tree_new :: "ptr \<Rightarrow> nat \<Rightarrow> u64 \<Rightarrow> u64 \<Rightarrow> u64 \<Rightarrow> vmstate \<Rightarrow> (u64 \<times> vmstate) option" where
  "vma_tree_new p v addr len flags s = do {
     (r, s) \<leftarrow> clear_old_loop p v addr len s;
     case r of None \<Rightarrow> Some (- 12, s)
     | Some (prev, lnk, parent) \<Rightarrow> do {
       (vma, s) \<leftarrow> with_vi p v (vma_merge prev addr (addr + len) flags) s;
       if vma \<noteq> 0 then Some (addr, s)
       else do {
         let (m, s) = take_malloc s;
         (vma, s) \<leftarrow> with_vi p v (\<lambda>(h, vi). let (vma, h) = vm_area_alloc m h in Some (vma, h, vi)) s;
         if vma = 0 then Some (- 12, s)
         else do {
           (_, s) \<leftarrow> with_vi p v (\<lambda>(h, vi). do {
              h \<leftarrow> wr vma (\<lambda>n. n\<lparr>vm_start := addr, vm_end := addr + len, vm_flags := flags\<rparr>) h;
              st \<leftarrow> vma_link vma prev lnk parent (h, vi);
              Some ((), st) }) s;
           Some (addr, s) } } } }"

section \<open>Searching for a gap\<close>

record vm_unmapped_area_info =
  ui_length :: u64
  ui_low_limit :: u64
  ui_high_limit :: u64

text \<open>The labels of the two searches: the head of the loop, \<^verbatim>\<open>check_current\<close> with the start of the gap, and the
  walk back up the tree.\<close>

datatype gap_pc = Visit rptr | Check rptr u64 | Up rptr

text \<open>The end of the preceding area, 0 when there is none.\<close>

definition prev_end :: "rptr \<Rightarrow> vmheap \<Rightarrow> u64 option" where
  "prev_end vma h = do { prev \<leftarrow> rd vma vm_prev h; if prev \<noteq> 0 then rd prev vm_end h else Some 0 }"

text \<open>Whether the gap stored at a child, if there is one, is long enough.\<close>

definition promising :: "rptr \<Rightarrow> u64 \<Rightarrow> vmheap \<Rightarrow> bool option" where
  "promising child len h = (if child \<noteq> 0 then do { g \<leftarrow> rd child rb_subtree_gap h; Some (g \<ge> len) } else Some False)"

text \<open>The loop of the search from below. The result is the start of the gap found, \<open>None\<close> for \<^verbatim>\<open>-ENOMEM\<close>, and
  \<open>Some None\<close> when the search falls through to the space above the highest area.\<close>

partial_function (option) bottomup_loop ::
  "vmheap \<Rightarrow> u64 \<Rightarrow> u64 \<Rightarrow> u64 \<Rightarrow> gap_pc \<Rightarrow> u64 option option option" where
  "bottomup_loop h len low_limit high_limit pc = (case pc of
     Visit vma \<Rightarrow> do {
       gap_end \<leftarrow> rd vma vm_start h;
       l \<leftarrow> rd vma rb_left h;
       go \<leftarrow> (if gap_end \<ge> low_limit then promising l len h else Some False);
       if go then bottomup_loop h len low_limit high_limit (Visit l)
       else do {
         gap_start \<leftarrow> prev_end vma h;
         bottomup_loop h len low_limit high_limit (Check vma gap_start) } }
   | Check vma gap_start \<Rightarrow>
       if gap_start > high_limit then Some None
       else do {
         gap_end \<leftarrow> rd vma vm_start h;
         if gap_end \<ge> low_limit \<and> gap_end - gap_start \<ge> len then Some (Some (Some gap_start))
         else do {
           r \<leftarrow> rd vma rb_right h;
           go \<leftarrow> promising r len h;
           bottomup_loop h len low_limit high_limit (if go then Visit r else Up vma) } }
   | Up vma \<Rightarrow> do {
       parent \<leftarrow> rb_parent vma h;
       if parent = 0 then Some (Some None)
       else do {
         l \<leftarrow> rd parent rb_left h;
         if vma = l then do {
           prev \<leftarrow> rd parent vm_prev h;
           gap_start \<leftarrow> rd prev vm_end h;
           bottomup_loop h len low_limit high_limit (Check parent gap_start) }
         else bottomup_loop h len low_limit high_limit (Up parent) } })"

definition c_find_va_range_bottomup :: "vmr \<Rightarrow> vm_unmapped_area_info \<Rightarrow> u64 option" where
  "c_find_va_range_bottomup st info = (case st of (h, vi) \<Rightarrow>
     let len = ui_length info; high_limit = ui_high_limit info - len; low_limit = ui_low_limit info + len
     in if ui_high_limit info < len then Some (- 12)
        else if ui_low_limit info > high_limit then Some (- 12)
        else do {
          go \<leftarrow> (if RB_EMPTY_ROOT (mm_rb vi) then Some False
                  else do { g \<leftarrow> rd (mm_rb vi) rb_subtree_gap h; Some (\<not> g < len) });
          r \<leftarrow> (if go then bottomup_loop h len low_limit high_limit (Visit (mm_rb vi)) else Some (Some None));
          let clip = (\<lambda>gap_start. if gap_start < ui_low_limit info then ui_low_limit info else gap_start);
          case r of None \<Rightarrow> Some (- 12)
          | Some (Some gap_start) \<Rightarrow> Some (clip gap_start)
          | Some None \<Rightarrow>
            if highest_vm_end vi > high_limit then Some (- 12) else Some (clip (highest_vm_end vi)) })"

text \<open>The loop of the search from above: the gap found, or \<open>None\<close> for \<^verbatim>\<open>-ENOMEM\<close>.\<close>

partial_function (option) topdown_loop ::
  "vmheap \<Rightarrow> u64 \<Rightarrow> u64 \<Rightarrow> u64 \<Rightarrow> gap_pc \<Rightarrow> (u64 \<times> u64) option option" where
  "topdown_loop h len low_limit high_limit pc = (case pc of
     Visit vma \<Rightarrow> do {
       gap_start \<leftarrow> prev_end vma h;
       r \<leftarrow> rd vma rb_right h;
       go \<leftarrow> (if gap_start \<le> high_limit then promising r len h else Some False);
       topdown_loop h len low_limit high_limit (if go then Visit r else Check vma gap_start) }
   | Check vma gap_start \<Rightarrow> do {
       gap_end \<leftarrow> rd vma vm_start h;
       if gap_end < low_limit then Some None
       else if gap_start \<le> high_limit \<and> gap_end - gap_start \<ge> len then Some (Some (gap_start, gap_end))
       else do {
         l \<leftarrow> rd vma rb_left h;
         go \<leftarrow> promising l len h;
         topdown_loop h len low_limit high_limit (if go then Visit l else Up vma) } }
   | Up vma \<Rightarrow> do {
       parent \<leftarrow> rb_parent vma h;
       if parent = 0 then Some None
       else do {
         r \<leftarrow> rd parent rb_right h;
         if vma = r then do {
           gap_start \<leftarrow> prev_end parent h;
           topdown_loop h len low_limit high_limit (Check parent gap_start) }
         else topdown_loop h len low_limit high_limit (Up parent) } })"

definition c_find_va_range_topdown :: "vmr \<Rightarrow> vm_unmapped_area_info \<Rightarrow> u64 option" where
  "c_find_va_range_topdown st info = (case st of (h, vi) \<Rightarrow>
     let len = ui_length info; gap_end = ui_high_limit info; high_limit = gap_end - len; low_limit = ui_low_limit info + len;
         found = (\<lambda>gap_start gap_end.
           let gap_end = gap_end - len in
           if gap_end < ui_low_limit info then None else if gap_end < gap_start then None else Some gap_end)
     in if gap_end < len then Some (- 12)
        else if ui_low_limit info > high_limit then Some (- 12)
        else if highest_vm_end vi \<le> high_limit then found (highest_vm_end vi) gap_end
        else if RB_EMPTY_ROOT (mm_rb vi) then Some (- 12)
        else do {
          g \<leftarrow> rd (mm_rb vi) rb_subtree_gap h;
          if g < len then Some (- 12)
          else do {
            r \<leftarrow> topdown_loop h len low_limit high_limit (Visit (mm_rb vi));
            case r of None \<Rightarrow> Some (- 12)
            | Some (gap_start, gap_end) \<Rightarrow>
              found gap_start (if gap_end > ui_high_limit info then ui_high_limit info else gap_end) } })"

definition c_find_va_range :: "nat \<Rightarrow> u64 \<Rightarrow> vmr \<Rightarrow> u64 option" where
  "c_find_va_range v len st =
     (if len > VREGION_SIZE then Some (- 12)
      else do {
        low_limit \<leftarrow> vregion_to_start_va v;
        high_limit \<leftarrow> vregion_to_end_va v;
        let info = \<lparr>ui_length = len, ui_low_limit = low_limit, ui_high_limit = high_limit\<rparr>;
        addr \<leftarrow> (if vi_flags (snd st) AND VREGION_INFO_FLAG_UNMAPPED_AREA_TOPDOWN \<noteq> 0
                  then c_find_va_range_topdown st info else c_find_va_range_bottomup st info);
        if addr > high_limit - len then Some (- 12) else Some addr })"

section \<open>Allocating and releasing addresses\<close>

definition PAGE_ALIGN :: "u64 \<Rightarrow> u64" where
  "PAGE_ALIGN addr = ALIGN addr PAGE_SIZE"

text \<open>The result is the address, 0 for a failure, and the number of retries where the code reports it. \<open>mem_ok\<close> says
  whether there is memory for the records of conflicts.\<close>

partial_function (option) alloc_va_loop ::
  "bool \<Rightarrow> ptr \<Rightarrow> nat \<Rightarrow> u64 \<Rightarrow> u64 \<Rightarrow> int \<Rightarrow> vmstate \<Rightarrow> (u64 \<times> int option \<times> vmstate) option" where
  "alloc_va_loop mem_ok p v len flags nr_retry s = do {
     pi \<leftarrow> vm_procs s p;
     addr \<leftarrow> c_find_va_range v len (vm_heap s, vregion pi v);
     if IS_ERR_VALUE addr then Some (0, Some nr_retry, s\<lparr>cached_vregion_start := cached_vregion_start s + 1\<rparr>)
     else if \<not> IS_ALIGNED addr PAGE_SIZE then Some (0, None, s)
     else do {
       cs \<leftarrow> check_and_insert_shadow_conflicts vma_tree_new mem_ok p v addr PAGE_SIZE PAGE_SHIFT len s;
       if fst cs then alloc_va_loop mem_ok p v len flags (nr_retry + 1) (snd cs)
       else do {
         (addr, s) \<leftarrow> vma_tree_new p v addr len flags (snd cs);
         if IS_ERR_VALUE addr then Some (0, Some nr_retry, s)
         else do {
           pi \<leftarrow> vm_procs s p;
           s \<leftarrow> alloc_fpga_pte_range pi addr (addr + len) flags PAGE_SIZE s;
           Some (addr, Some nr_retry, s) } } } }"

definition c_alloc_va ::
  "bool \<Rightarrow> ptr \<Rightarrow> nat \<Rightarrow> u64 \<Rightarrow> u64 \<Rightarrow> vmstate \<Rightarrow> (u64 \<times> int option \<times> vmstate) option" where
  "c_alloc_va mem_ok p v len flags s = (
     let len = PAGE_ALIGN len in
     if len > VREGION_SIZE then None else alloc_va_loop mem_ok p v len flags 0 s)"

definition alloc_va_vregion ::
  "bool \<Rightarrow> ptr \<Rightarrow> nat \<Rightarrow> u64 \<Rightarrow> u64 \<Rightarrow> vmstate \<Rightarrow> (u64 \<times> int option \<times> vmstate) option" where
  "alloc_va_vregion mem_ok p v len flags s = c_alloc_va mem_ok p v len flags s"

definition free_va_vregion :: "ptr \<Rightarrow> nat \<Rightarrow> u64 \<Rightarrow> u64 \<Rightarrow> vmstate \<Rightarrow> (int \<times> vmstate) option" where
  "free_va_vregion p v start len s = c_free_va p v start len s"

function alloc_regions_loop ::
  "bool \<Rightarrow> ptr \<Rightarrow> u64 \<Rightarrow> u64 \<Rightarrow> nat \<Rightarrow> int \<Rightarrow> int \<Rightarrow> vmstate \<Rightarrow> (u64 \<times> int \<times> vmstate) option" where
  "alloc_regions_loop mem_ok p len flags i nr_retry nr_retry_sum s = (
     if i < NR_VREGIONS then do {
       (addr, r, s) \<leftarrow> alloc_va_vregion mem_ok p i len flags s;
       let nr_retry = (case r of None \<Rightarrow> nr_retry | Some n \<Rightarrow> n);
       let nr_retry_sum = nr_retry_sum + nr_retry;
       if \<not> IS_ERR_OR_NULL addr then Some (addr, nr_retry_sum, s)
       else alloc_regions_loop mem_ok p len flags (i + 1) nr_retry nr_retry_sum s }
     else Some (- 12, nr_retry_sum, s))"
  by pat_completeness auto
termination
  by (relation "measure (\<lambda>(mem_ok, p, len, flags, i, nr_retry, nr_retry_sum, s). NR_VREGIONS - i)") auto

declare alloc_regions_loop.simps [simp del]

definition alloc_va :: "bool \<Rightarrow> ptr option \<Rightarrow> u64 \<Rightarrow> u64 \<Rightarrow> vmstate \<Rightarrow> (u64 \<times> int option \<times> vmstate) option" where
  "alloc_va mem_ok proc len flags s = (case proc of None \<Rightarrow> Some (- 22, None, s)
     | Some p \<Rightarrow>
       if len = 0 then Some (- 22, None, s)
       else if (ucast ((len + VREGION_SIZE - 1) div VREGION_SIZE) :: u32) = 1 then do {
         (addr, n, s) \<leftarrow> alloc_regions_loop mem_ok p len flags (unat (cached_vregion_start s) mod NR_VREGIONS) 0 0 s;
         Some (addr, Some n, s) }
       else None)"

partial_function (option) free_va_loop :: "ptr \<Rightarrow> u64 \<Rightarrow> u64 \<Rightarrow> u64 \<Rightarrow> int \<Rightarrow> vmstate \<Rightarrow> (int \<times> vmstate) option" where
  "free_va_loop p start len end ret s = (
     if start \<noteq> end then do {
       let v = va_to_vregion start;
       vregion_end \<leftarrow> vregion_to_end_va v;
       let vlen = vregion_end - start;
       let vlen = (if vlen > len then len else vlen);
       rs \<leftarrow> free_va_vregion p v start vlen s;
       if fst rs \<noteq> 0 then Some rs
       else free_va_loop p (start + vlen) (len - vlen) end (fst rs) (snd rs) }
     else Some (ret, s))"

definition free_va :: "ptr option \<Rightarrow> u64 \<Rightarrow> u64 \<Rightarrow> vmstate \<Rightarrow> (int \<times> vmstate) option" where
  "free_va proc start len s = (case proc of None \<Rightarrow> Some (- EINVAL, s)
     | Some p \<Rightarrow>
       if len = 0 \<or> start = 0 then Some (- EINVAL, s)
       else if start + len < start then Some (- EINVAL, s)
       else free_va_loop p start len (start + len) 0 s)"

text \<open>The recursive functions as code equations.\<close>

declare find_links_loop.simps [code] find_vma_loop.simps [code] unmap_region.simps [code] detach_loop.simps [code]
  free_areas_loop.simps [code] c_free_va.simps [code] clear_old_loop.simps [code] bottomup_loop.simps [code]
  topdown_loop.simps [code] alloc_va_loop.simps [code] free_va_loop.simps [code]

end
