(* ===== verification/Spec2Isabelle.thy ===== *)
theory Spec2Isabelle
  imports Bitops Bitmap Lists Rbtree NetHeader Gbn Rpc Hashtable Session Sched Board Buddy Pagefifo Pgtable Vm
begin

text \<open>
  A verification development for the C sources of Clio (LegoMem in the code), a system in which
  hosts use memory of remote boards over the network.

  \<^bold>\<open>The system.\<close> A \<^emph>\<open>host\<close> (\<^verbatim>\<open>host/\<close>) runs applications, which open sessions to boards through a transport
  (\<^verbatim>\<open>host/net/\<close>) and send requests. A \<^emph>\<open>board\<close> is an FPGA that serves reads and writes, with a processor
  (\<^verbatim>\<open>board/soc/core/\<close>) that keeps processes, address spaces, page tables and page frames. A \<^emph>\<open>monitor\<close>
  (\<^verbatim>\<open>host/main_monitor.c\<close>) creates processes and hands out regions of address space. All three share the
  headers of \<^verbatim>\<open>include/uapi/\<close>.

  \<^bold>\<open>The theories\<close>, each of which opens with what it holds:

  \<^item> \<open>Prelude\<close>: C integers, error numbers, rounding; generic lemmas, the collections \<open>bitsimp\<close> and \<open>frame\<close>.
  \<^item> \<open>Bitops\<close> (\<^verbatim>\<open>bitops.h\<close>, \<^verbatim>\<open>bitops_asm_generic.h\<close>): single bits, searches over arrays of words, shown to
    stay inside the array and to find the least (or greatest) bit. \<open>Bitmap\<close> (\<^verbatim>\<open>bitmap.h\<close>, \<^verbatim>\<open>host/lib/bitmap.c\<close>):
    ranges, aligned regions and areas, shown equivalent to one bit at a time.
  \<^item> \<open>Lists\<close> (\<^verbatim>\<open>list.h\<close>): intrusive lists on a store of nodes, pointer write by pointer write, shown to
    implement Isabelle lists. The other theories keep lists as lists on this ground.
  \<^item> \<open>Hashtable\<close> (\<^verbatim>\<open>hashtable.h\<close>, \<^verbatim>\<open>hash.h\<close>): tables of chains; the locale \<open>hashed_objects\<close> is the contract of a
    table whose objects are looked up by key.
  \<^item> \<open>Rbtree\<close> (\<^verbatim>\<open>rbtree.h\<close>, \<^verbatim>\<open>rbtree.c\<close>): augmented red-black trees on a store of nodes.
  \<^item> \<open>Idpool\<close>: the locale \<open>id_pool\<close>, the contract of every allocator of small ids (sessions of the board and
    of the hosts, board ids, page frames): no id is given out twice, and exactly the free ones can be.
  \<^item> \<open>NetHeader\<close> (\<^verbatim>\<open>net_header.h\<close>, \<^verbatim>\<open>gbn.h\<close>) and \<open>Net\<close> (\<^verbatim>\<open>net_session.h\<close>): packet headers and their helpers, the
    IPv4 checksum, sessions, and the table of operations of the raw network layer.
  \<^item> \<open>Gbn\<close> (\<^verbatim>\<open>transport_gbn.c\<close>) and \<open>Rpc\<close> (\<^verbatim>\<open>transport_rpc.c\<close>, \<^verbatim>\<open>transport_bypass.c\<close>): the transports. For go-back-N
    a step relation composes a sender, a receiver and a network that loses, repeats and reorders.
  \<^item> \<open>Session\<close> (\<^verbatim>\<open>session.c\<close> of board and host, \<^verbatim>\<open>net/core.c\<close>): session tables, opening and closing.
  \<^item> \<open>Sched\<close> (\<^verbatim>\<open>sched.h\<close>, \<^verbatim>\<open>vregion.h\<close>, \<^verbatim>\<open>board/soc/core/sched.c\<close> and the process table of the monitor): boards,
    regions, processes. The locale \<open>refcounted_procs\<close> is the contract of a process table.
  \<^item> \<open>Board\<close> (\<^verbatim>\<open>board.c\<close> of board and host): the lists of known nodes.
  \<^item> \<open>Buddy\<close> (\<^verbatim>\<open>buddy.c\<close>, \<^verbatim>\<open>buddy.h\<close>) and \<open>Pagefifo\<close> (\<^verbatim>\<open>page_fifo.c\<close>): the page frames of the board, and the queues
    of frames kept filled for the FPGA.
  \<^item> \<open>Pgtable\<close> (\<^verbatim>\<open>pgtable.c\<close>, \<^verbatim>\<open>pgtable.h\<close>, \<^verbatim>\<open>shadow_pgtable.c\<close>, \<^verbatim>\<open>tlbflush.c\<close>): the hash table of page table
    entries and its shadow, the lists of conflicting pages, allocation and release of frames, flushes.
  \<^item> \<open>Vm\<close> (\<^verbatim>\<open>vm.c\<close>): the areas of a region, in a list and in a tree of \<open>Rbtree\<close>; finding, allocating and releasing
    ranges of addresses. Its \<open>c_free_va\<close> and the release of page table entries in \<open>Pgtable\<close> call each other.

  \<^bold>\<open>How code becomes definitions.\<close> A structure is a record with the fields of the source, an array a
  list, a bitmap a list of 64-bit words, a pointer a 64-bit word into a store, or an index where the code
  computes one. Integers keep their width. A definition has the name of its function; names that start
  with underscores or clash get the prefix \<^verbatim>\<open>c_\<close>, and functions of the same name in board and host are told
  apart by \<^verbatim>\<open>soc_\<close>, \<^verbatim>\<open>host_\<close> and \<^verbatim>\<open>mon_\<close>. State is passed and returned. A result \<open>None\<close> of a function that
  returns an option says that the call does not return: it aborts (\<^verbatim>\<open>BUG\<close>), exits, follows a bad pointer, or
  loops. What comes from outside, such as the address that \<^verbatim>\<open>malloc\<close> gives, the raw network layer, or
  uninitialised memory, is an argument. Locks are modelled where the code may leave one held
  (the conflict lists of the page table); elsewhere a critical section is one step.

  \<^bold>\<open>What is shown.\<close> For each component an invariant that its operations keep, what every operation does on
  each of its branches, and, where the code has a contract, a refinement: chains refine lists of nodes,
  the process tables a map from ids to counts, the buddy allocator a set of frames. Across components:
  page tables, frames and flush messages together keep every frame mapped at most once
  (\<open>Pgtable\<close>, over \<open>Buddy\<close> and \<open>Sched\<close>); opening a session through table, transport and raw layer is undone when
  a layer fails (\<open>Session\<close>, over \<open>Net\<close>). Where the code does not do what its comments say, the theorem
  describes what it does.

  \<^bold>\<open>Bounds and fuel.\<close> No function has fuel. Loops of the code are structural or well-founded recursions, and
  the ones that wait for a packet or follow pointers are partial functions into the option type, with
  theorems that they return. The number of orders of the buddy allocator is an argument; the constants of
  the code give the frames 256 to 511.

  \<^bold>\<open>Not modelled.\<close>
  \<^item> \<^verbatim>\<open>board/fpga\<close> (Scala, Verilog and HLS of the data path) and \<^verbatim>\<open>board/soc/linux\<close> (generated initialisation of
    the processor, scripts): not C sources of the program.
  \<^item> \<^verbatim>\<open>board/soc/lib/axidma\<close> and \<^verbatim>\<open>board/soc/core/dma.c\<close>: a kernel driver, and calls into it.
  \<^item> \<^verbatim>\<open>host/net/raw_verbs.c\<close>, \<^verbatim>\<open>raw_socket.c\<close>, \<^verbatim>\<open>raw_udp_socket.c\<close>: calls into the verbs and socket libraries. They
    are the arguments \<open>raw_net_ops\<close> of the transports.
  \<^item> \<^verbatim>\<open>thpool\<close>, \<^verbatim>\<open>stat\<close>, \<^verbatim>\<open>util.c\<close>, \<^verbatim>\<open>common.c\<close>: worker threads, counters, argument parsing and printing.
  \<^item> \<^verbatim>\<open>bitops_x86.h\<close>: inline assembly with the meaning of the portable versions in \<open>Bitops\<close>.
  \<^item> \<^verbatim>\<open>lookup3.h\<close>: a hash function of a third party.
  \<^item> The tests and benchmarks under \<^verbatim>\<open>host/test\<close>, \<^verbatim>\<open>board/soc/core/test\<close> and \<^verbatim>\<open>tests\<close>.
\<close>

end
